(* ===== verification/Prelude.thy ===== *)
theory Prelude
  imports Main "HOL-Library.Word"
begin

text \<open>
  Shared vocabulary of the development: the machine integer types of the x86-64 build, the
  ways a C computation can stop without a result, the sequencing of fallible computations,
  and generic facts about lists and words that several components use.
\<close>

unbundle bit_operations_syntax

named_theorems eval \<open>definitions unfolded to evaluate the model on a concrete input\<close>
named_theorems faults \<open>which inputs make a fallible operation return, and what it returns\<close>

subsection \<open>Machine integers\<close>

type_synonym u8 = "8 word"
type_synonym u16 = "16 word"
type_synonym u32 = "32 word"
type_synonym u64 = "64 word"

subsection \<open>Computations that may stop\<close>

text \<open>
  A C function either returns, or performs an access outside the object it points into,
  dereferences a null pointer, or ends the process with \<open>exit\<close>. Everything but returning is a
  value of \<open>fault\<close>, so that each such branch of the code is visible in the model. \<open>Out_of_fuel\<close> is
  no behaviour of the code: a loop modelled with a bound on its iterations has it where the bound
  is too small, and a theorem about the caller says that it is not.
\<close>

datatype fault = OOB_read | OOB_write | Null_deref | Exit int | Out_of_fuel

type_synonym 'a outcome = "fault + 'a"

definition bind_res :: "'a outcome \<Rightarrow> ('a \<Rightarrow> 'b outcome) \<Rightarrow> 'b outcome" where
  "bind_res m f = (case m of Inl e \<Rightarrow> Inl e | Inr x \<Rightarrow> f x)"

definition guard_res :: "bool \<Rightarrow> fault \<Rightarrow> unit outcome" where
  "guard_res b e = (if b then Inr () else Inl e)"

lemma bind_res_Inl [simp]: "bind_res (Inl e) f = Inl e"
  by (simp add: bind_res_def)

lemma bind_res_Inr [simp]: "bind_res (Inr x) f = f x"
  by (simp add: bind_res_def)

lemma bind_res_eq_Inr: "bind_res m f = Inr y \<longleftrightarrow> (\<exists>x. m = Inr x \<and> f x = Inr y)"
  by (cases m) auto

lemma bind_res_eq_Inl:
  "bind_res m f = Inl e \<longleftrightarrow> m = Inl e \<or> (\<exists>x. m = Inr x \<and> f x = Inl e)"
  by (cases m) auto

lemma bind_res_cong [fundef_cong]:
  "m = m' \<Longrightarrow> (\<And>x. m' = Inr x \<Longrightarrow> f x = g x) \<Longrightarrow> bind_res m f = bind_res m' g"
  by (cases m') auto

lemma guard_res_True [simp]: "guard_res True e = Inr ()"
  by (simp add: guard_res_def)

lemma guard_res_False [simp]: "guard_res False e = Inl e"
  by (simp add: guard_res_def)

lemma guard_res_eq_Inr [simp]: "guard_res b e = Inr u \<longleftrightarrow> b"
  by (simp add: guard_res_def)

lemma guard_res_eq_Inl [simp]: "guard_res b e = Inl e' \<longleftrightarrow> \<not> b \<and> e' = e"
  by (auto simp: guard_res_def)

text \<open>The facts that take a successful or failed sequence of calls apart.\<close>

lemmas outcome_simps = bind_res_eq_Inr bind_res_eq_Inl

subsection \<open>Loops over a list that may stop\<close>

fun fold_res :: "('s \<Rightarrow> 'a \<Rightarrow> 's outcome) \<Rightarrow> 's \<Rightarrow> 'a list \<Rightarrow> 's outcome" where
  "fold_res f s [] = Inr s"
| "fold_res f s (x # xs) = bind_res (f s x) (\<lambda>s'. fold_res f s' xs)"

lemma fold_res_append:
  "fold_res f s (xs @ ys) = bind_res (fold_res f s xs) (\<lambda>s'. fold_res f s' ys)"
proof (induction xs arbitrary: s)
  case Nil
  then show ?case by simp
next
  case (Cons x xs)
  then show ?case by (cases "f s x") auto
qed

text \<open>An invariant that every iteration keeps holds where the loop ends.\<close>

lemma fold_res_invariant:
  assumes "fold_res f s xs = Inr s'" and "P s"
    and "\<And>s x s'. P s \<Longrightarrow> x \<in> set xs \<Longrightarrow> f s x = Inr s' \<Longrightarrow> P s'"
  shows "P s'"
  using assms
proof (induction xs arbitrary: s)
  case Nil
  then show ?case by simp
next
  case (Cons x xs)
  from Cons.prems(1) obtain s1 where s1: "f s x = Inr s1" "fold_res f s1 xs = Inr s'"
    by (auto simp: bind_res_eq_Inr)
  have "P s1" using Cons.prems(2,3) s1(1) by (meson list.set_intros(1))
  then show ?case
    by (rule Cons.IH [OF s1(2)]) (meson Cons.prems(3) list.set_intros(2))
qed

text \<open>If no iteration can stop while the invariant holds, the loop reaches its end.\<close>

lemma fold_res_total:
  assumes "P s" and "\<And>s x. P s \<Longrightarrow> x \<in> set xs \<Longrightarrow> \<exists>s'. f s x = Inr s' \<and> P s'"
  shows "\<exists>s'. fold_res f s xs = Inr s' \<and> P s'"
  using assms
proof (induction xs arbitrary: s)
  case Nil
  then show ?case by simp
next
  case (Cons x xs)
  then obtain s1 where "f s x = Inr s1" and "P s1" by force
  moreover have "\<exists>s'. fold_res f s1 xs = Inr s' \<and> P s'"
    by (rule Cons.IH [OF \<open>P s1\<close>]) (use Cons.prems(2) in auto)
  ultimately show ?case by simp
qed

lemma fold_res_stop:
  assumes "fold_res f s xs = Inl e" and "P s"
    and "\<And>s x s'. P s \<Longrightarrow> x \<in> set xs \<Longrightarrow> f s x = Inr s' \<Longrightarrow> P s'"
    and "\<And>s x. P s \<Longrightarrow> x \<in> set xs \<Longrightarrow> f s x = Inl e \<Longrightarrow> Q"
  shows Q
  using assms
proof (induction xs arbitrary: s)
  case Nil
  then show ?case by simp
next
  case (Cons x xs)
  show ?case
  proof (cases "f s x")
    case (Inl e')
    then have "f s x = Inl e" using Cons.prems(1) by simp
    then show ?thesis by (rule Cons.prems(4) [OF Cons.prems(2)  list.set_intros(1)])
  next
    case (Inr s1)
    have "P s1" using Cons.prems(2,3) Inr by (meson list.set_intros(1))
    moreover have "fold_res f s1 xs = Inl e" using Cons.prems(1) Inr by simp
    ultimately show ?thesis
      using Cons.IH [of s1] Cons.prems(3,4) by (meson list.set_intros(2))
  qed
qed

lemma fold_res_map: "fold_res f s (map g xs) = fold_res (\<lambda>s x. f s (g x)) s xs"
proof (induction xs arbitrary: s)
  case (Cons x xs)
  then show ?case by (cases "f s (g x)") simp_all
qed simp

lemma fold_res_cong:
  "(\<And>s x. x \<in> set xs \<Longrightarrow> f s x = g s x) \<Longrightarrow> fold_res f s xs = fold_res g s xs"
proof (induction xs arbitrary: s)
  case (Cons x xs)
  then show ?case by (cases "g s x") simp_all
qed simp

subsection \<open>Lists\<close>

lemma take_update_append:
  "n < length xs \<Longrightarrow> take (Suc n) (xs[n := x]) = take n xs @ [x]"
  by (simp add: take_Suc_conv_app_nth)

lemma take_append_le: "n \<le> length xs \<Longrightarrow> take n (take m xs @ ys) = take n xs" if "n \<le> m"
  using that by simp

lemma map_nth_upt: "n \<le> length xs \<Longrightarrow> map ((!) xs) [0..<n] = take n xs"
  by (rule nth_equalityI) auto

lemma fold_list_update:
  "n \<le> length xs \<Longrightarrow> fold (\<lambda>i ys. ys[i := f i]) [0..<n] xs = map f [0..<n] @ drop n xs"
proof (induction n)
  case (Suc n)
  then show ?case by (simp add: list_update_append flip: Cons_nth_drop_Suc)
qed simp

lemma replicate_numeral_Cons [eval]: "replicate (numeral k) x = x # replicate (pred_numeral k) x"
  by (simp add: numeral_eq_Suc)

lemma upt_numeral [eval]:
  "[i..<numeral k] = (if i < numeral k then i # [Suc i..<numeral k] else [])"
  by (simp add: upt_conv_Cons)

subsection \<open>Words\<close>

lemma unat_Suc_lt:
  fixes w v :: "'a::len word"
  assumes "w < v"
  shows "unat (w + 1) = Suc (unat w)"
proof -
  have "unat w < unat v" using assms by (simp add: word_less_nat_alt)
  moreover have "unat v < 2 ^ LENGTH('a)" by (rule unsigned_less)
  ultimately have "Suc (unat w) < 2 ^ LENGTH('a)" by linarith
  then show ?thesis by (simp add: unat_word_ariths)
qed

end
