(* ===== verification/C_Lib.thy ===== *)
theory C_Lib
  imports Prelude
begin

text \<open>
  The parts of the C library and of the ABI that the sources use, as functions on byte lists:
  byte-order conversion, NUL-terminated strings in \<open>char\<close> arrays, \<open>memcpy\<close>, the little-endian
  layout of integers in memory, and \<open>inet_pton\<close>. A read or write past the end of an array is
  the fault \<open>OOB_read\<close> or \<open>OOB_write\<close>.
\<close>

subsection \<open>Byte order\<close>

definition htons :: "u16 \<Rightarrow> u16" where
  "htons w = push_bit 8 w OR drop_bit 8 w"

definition ntohs :: "u16 \<Rightarrow> u16" where
  "ntohs w = push_bit 8 w OR drop_bit 8 w"

definition htonl :: "u32 \<Rightarrow> u32" where
  "htonl w = push_bit 24 w OR (push_bit 8 w AND 0xFF0000)
     OR (drop_bit 8 w AND 0xFF00) OR drop_bit 24 w"

definition ntohl :: "u32 \<Rightarrow> u32" where
  "ntohl w = push_bit 24 w OR (push_bit 8 w AND 0xFF0000)
     OR (drop_bit 8 w AND 0xFF00) OR drop_bit 24 w"

lemma ntohs_htons [simp]: "ntohs (htons w) = w"
  unfolding ntohs_def htons_def by (rule bit_word_eqI) (auto simp: bit_simps)

lemma htons_ntohs [simp]: "htons (ntohs w) = w"
  unfolding ntohs_def htons_def by (rule bit_word_eqI) (auto simp: bit_simps)

lemma htons_inj [simp]: "htons a = htons b \<longleftrightarrow> a = b"
  by (metis ntohs_htons)

subsection \<open>Integers in memory (little endian)\<close>

definition le16 :: "u16 \<Rightarrow> u8 list" where
  "le16 w = [ucast w, ucast (drop_bit 8 w)]"

definition of_le16 :: "u8 list \<Rightarrow> u16" where
  "of_le16 bs = ucast (bs ! 0) OR push_bit 8 (ucast (bs ! 1))"

definition le32 :: "u32 \<Rightarrow> u8 list" where
  "le32 w = [ucast w, ucast (drop_bit 8 w), ucast (drop_bit 16 w), ucast (drop_bit 24 w)]"

definition of_le32 :: "u8 list \<Rightarrow> u32" where
  "of_le32 bs = ucast (bs ! 0) OR push_bit 8 (ucast (bs ! 1))
     OR push_bit 16 (ucast (bs ! 2)) OR push_bit 24 (ucast (bs ! 3))"

lemma length_le16 [simp]: "length (le16 w) = 2"
  by (simp add: le16_def)

lemma length_le32 [simp]: "length (le32 w) = 4"
  by (simp add: le32_def)

lemma of_le16_le16 [simp]: "of_le16 (le16 w) = w"
  unfolding of_le16_def le16_def by (rule bit_word_eqI) (auto simp: bit_simps)

lemma of_le32_le32 [simp]: "of_le32 (le32 w) = w"
proof (rule bit_word_eqI)
  fix n
  assume n: "n < LENGTH(32)"
  then have "n < 8 \<or> 8 \<le> n \<and> n < 16 \<or> 16 \<le> n \<and> n < 24 \<or> 24 \<le> n \<and> n < 32"
    by auto
  with n show "bit (of_le32 (le32 w)) n \<longleftrightarrow> bit w n"
    by (auto simp: of_le32_def le32_def bit_simps)
qed

subsection \<open>NUL-terminated strings\<close>

definition cstr :: "u8 list \<Rightarrow> u8 list" where
  "cstr xs = takeWhile (\<lambda>b. b \<noteq> 0) xs"

definition c_str :: "u8 list \<Rightarrow> u8 list outcome" where
  "c_str xs = (if 0 \<in> set xs then Inr (cstr xs) else Inl OOB_read)"

definition strlen :: "u8 list \<Rightarrow> nat outcome" where
  "strlen xs = map_sum id length (c_str xs)"

fun strcmp :: "u8 list \<Rightarrow> u8 list \<Rightarrow> int outcome" where
  "strcmp (a # as) (b # bs) =
     (if a \<noteq> b then Inr (if a < b then -1 else 1)
      else if a = 0 then Inr 0
      else strcmp as bs)"
| "strcmp _ _ = Inl OOB_read"

definition strcpy :: "u8 list \<Rightarrow> u8 list \<Rightarrow> u8 list outcome" where
  "strcpy dst src =
     bind_res (c_str src) (\<lambda>s.
       if length s < length dst then Inr (s @ 0 # drop (Suc (length s)) dst)
       else Inl OOB_write)"

definition memcpy :: "u8 list \<Rightarrow> nat \<Rightarrow> u8 list \<Rightarrow> nat \<Rightarrow> u8 list outcome" where
  "memcpy dst off src n =
     (if length dst < off + n then Inl OOB_write
      else if length src < n then Inl OOB_read
      else Inr (take off dst @ take n src @ drop (off + n) dst))"

definition lit :: "string \<Rightarrow> u8 list" where
  "lit s = map of_char s"

definition char_array :: "nat \<Rightarrow> string \<Rightarrow> u8 list" where
  "char_array n s = lit s @ replicate (n - length s) 0"

lemma c_str_eq_Inr [simp]: "c_str xs = Inr s \<longleftrightarrow> 0 \<in> set xs \<and> s = cstr xs"
  by (auto simp: c_str_def)

lemma c_str_eq_Inl [simp]: "c_str xs = Inl e \<longleftrightarrow> 0 \<notin> set xs \<and> e = OOB_read"
  by (auto simp: c_str_def)

lemma cstr_less_length: "0 \<in> set xs \<Longrightarrow> length (cstr xs) < length xs"
  by (induction xs) (auto simp: cstr_def)

lemma cstr_nonzero: "b \<in> set (cstr xs) \<Longrightarrow> b \<noteq> 0"
  by (auto simp: cstr_def dest: set_takeWhileD)

lemma cstr_Nil [simp]: "cstr [] = []"
  by (simp add: cstr_def)

lemma cstr_Cons [simp]: "cstr (b # bs) = (if b = 0 then [] else b # cstr bs)"
  by (simp add: cstr_def)

lemma cstr_append_zero [simp]: "cstr (cstr xs @ 0 # ys) = cstr xs"
  by (induction xs) auto

lemma cstr_append: "0 \<in> set xs \<Longrightarrow> cstr (xs @ ys) = cstr xs"
  by (induction xs) auto

lemma strcpy_eq_Inr [simp]:
  "strcpy dst src = Inr r \<longleftrightarrow>
     0 \<in> set src \<and> length (cstr src) < length dst \<and>
     r = cstr src @ 0 # drop (Suc (length (cstr src))) dst"
  by (auto simp: strcpy_def bind_res_eq_Inr split: if_splits)

lemma strcpy_result:
  assumes "strcpy dst src = Inr r"
  shows "length r = length dst" "0 \<in> set r" "cstr r = cstr src"
  using assms by auto

lemma strcpy_same_size:
  "0 \<in> set src \<Longrightarrow> length src \<le> length dst \<Longrightarrow> \<exists>r. strcpy dst src = Inr r"
  using cstr_less_length [of src] by auto

lemma strcmp_terminated:
  "0 \<in> set a \<Longrightarrow> 0 \<in> set b \<Longrightarrow> \<exists>i. strcmp a b = Inr i \<and> (i = 0 \<longleftrightarrow> cstr a = cstr b)"
  by (induction a b rule: strcmp.induct) auto

lemma strcmp_empty_not_negative: "strcmp xs [0] = Inr i \<Longrightarrow> 0 \<le> i"
  by (cases xs) (auto split: if_splits)

lemma length_memcpy: "memcpy dst off src n = Inr r \<Longrightarrow> length r = length dst"
  by (auto simp: memcpy_def split: if_splits)

lemma memcpy_eq_Inr:
  "memcpy dst off src n = Inr r \<longleftrightarrow>
     off + n \<le> length dst \<and> n \<le> length src \<and>
     r = take off dst @ take n src @ drop (off + n) dst"
  by (auto simp: memcpy_def)

lemma length_char_array: "length s \<le> n \<Longrightarrow> length (char_array n s) = n"
  by (simp add: char_array_def lit_def)

subsection \<open>Dotted IPv4 addresses\<close>

fun split_on :: "u8 \<Rightarrow> u8 list \<Rightarrow> u8 list list" where
  "split_on d [] = [[]]"
| "split_on d (x # xs) =
     (if x = d then [] # split_on d xs
      else (case split_on d xs of [] \<Rightarrow> [[x]] | y # ys \<Rightarrow> (x # y) # ys))"

definition digit :: "u8 \<Rightarrow> bool" where
  "digit b = (0x30 \<le> b \<and> b \<le> 0x39)"

definition octet :: "u8 list \<Rightarrow> nat option" where
  "octet ds =
     (let v = foldl (\<lambda>acc d. 10 * acc + unat (d - 0x30)) 0 ds
      in if ds \<noteq> [] \<and> list_all digit ds \<and> (length ds = 1 \<or> hd ds \<noteq> 0x30)
            \<and> length ds \<le> 3 \<and> v \<le> 255
         then Some v else None)"

text \<open>
  \<open>inet_pton(AF_INET, ...)\<close> on a string: the address a.b.c.d read as one number, or \<open>None\<close>
  where the function returns 0 and leaves its destination alone.
\<close>

definition inet_pton :: "u8 list \<Rightarrow> u32 option" where
  "inet_pton s =
     (case those (map octet (split_on 0x2E s)) of
        None \<Rightarrow> None
      | Some vs \<Rightarrow>
          if length vs = 4 then Some (of_nat (foldl (\<lambda>acc v. 256 * acc + v) 0 vs)) else None)"

lemma inet_pton_empty [simp]: "inet_pton [] = None"
  by (simp add: inet_pton_def octet_def)

lemmas c_lib_eval [eval] =
  htons_def ntohs_def le16_def le32_def of_le16_def of_le32_def
  c_str_def strlen_def strcpy_def memcpy_def lit_def char_array_def
  digit_def octet_def inet_pton_def

end
