(* ===== verification/Dyn_Array.thy ===== *)
theory Dyn_Array
  imports C_Lib
begin

text \<open>
  The growable array that \<open>peers.c\<close> and \<open>nodes.c\<close> each implement: the struct they share, the
  allocator's answers, and two contracts. \<open>growable\<close> says what a client may rely on (a list with
  append and removal at the end); \<open>doubling_array\<close> collects the equations both C versions
  satisfy, and every property of the doubling scheme is proved once from them.
\<close>

subsection \<open>The struct and the allocator\<close>

text \<open>
  \<open>peer_bucket_t\<close> and \<open>node_array\<close> have the same members. \<open>da_data\<close> is the allocated block that
  the member \<open>data\<close> points to, one list entry per element that fits into it.
\<close>

record 'a darray =
  da_active :: bool
  da_key :: u32
  da_cap :: u64
  da_len :: u64
  da_data :: "'a list"

text \<open>
  The answer of \<open>malloc\<close> or \<open>realloc\<close> to a request of so many bytes: \<open>None\<close> is a null pointer,
  \<open>Some junk\<close> is a block whose new elements have the indeterminate values \<open>junk\<close>. Requests above
  \<open>PTRDIFF_MAX\<close> are always refused, as documented for the C library used.
\<close>

type_synonym 'a allocator = "nat \<Rightarrow> (nat \<Rightarrow> 'a) option"

definition PTRDIFF_MAX :: nat where
  "PTRDIFF_MAX = 2 ^ 63 - 1"

definition realloc_block :: "'a allocator \<Rightarrow> u64 \<Rightarrow> nat \<Rightarrow> 'a list \<Rightarrow> 'a list option" where
  "realloc_block alc bytes sz old =
     (if bytes = 0 \<or> unat bytes > PTRDIFF_MAX then None
      else (case alc (unat bytes) of
              None \<Rightarrow> None
            | Some junk \<Rightarrow>
                (let n = unat bytes div sz
                 in Some (take n old @ map junk [length old..<n]))))"

definition malloc_block :: "'a allocator \<Rightarrow> u64 \<Rightarrow> nat \<Rightarrow> 'a list option" where
  "malloc_block alc bytes sz = realloc_block alc bytes sz []"

text \<open>The allocator has no block for twice so many elements.\<close>

definition refuses :: "nat \<Rightarrow> 'a allocator \<Rightarrow> nat \<Rightarrow> bool" where
  "refuses sz alc n \<longleftrightarrow> PTRDIFF_MAX < 2 * n * sz \<or> alc (2 * n * sz) = None"

definition INITIAL_CAP :: u64 where
  "INITIAL_CAP = 2"

subsection \<open>Contents and well-formedness\<close>

definition elems :: "'a darray \<Rightarrow> 'a list" where
  "elems d = take (unat (da_len d)) (da_data d)"

definition wf_array :: "nat \<Rightarrow> 'a darray \<Rightarrow> bool" where
  "wf_array sz d \<longleftrightarrow>
     length (da_data d) = unat (da_cap d) \<and> da_len d \<le> da_cap d \<and> 2 \<le> unat (da_cap d) \<and>
     unat (da_cap d) * sz \<le> PTRDIFF_MAX"

lemma length_elems [simp]: "wf_array sz d \<Longrightarrow> length (elems d) = unat (da_len d)"
  by (simp add: wf_array_def elems_def word_le_nat_alt min_def)

lemma elems_nth: "i < unat (da_len d) \<Longrightarrow> elems d ! i = da_data d ! i"
  by (simp add: elems_def)

lemma wf_array_header [simp]:
  "wf_array sz (d\<lparr>da_key := k\<rparr>) = wf_array sz d"
  "wf_array sz (d\<lparr>da_active := b\<rparr>) = wf_array sz d"
  "elems (d\<lparr>da_key := k\<rparr>) = elems d"
  "elems (d\<lparr>da_active := b\<rparr>) = elems d"
  by (simp_all add: wf_array_def elems_def)

lemma wf_array_room:
  assumes "wf_array sz d" "da_len d \<noteq> da_cap d"
  shows "unat (da_len d) < length (da_data d)" "da_len d < da_cap d"
  using assms by (auto simp: wf_array_def word_le_less_eq word_less_nat_alt)

text \<open>
  Doubling the capacity of a block that could be allocated never wraps around: the size of the
  old block is at most \<open>PTRDIFF_MAX\<close>, so twice that size still fits into 64 bits.
\<close>

lemma double_bytes:
  assumes "wf_array sz d" "0 < sz" "sz < 2 ^ 32"
  shows "unat (da_cap d * of_nat sz * 2) = unat (da_cap d) * sz * 2"
    and "unat (da_cap d * 2) = unat (da_cap d) * 2"
proof -
  have b: "unat (da_cap d) * sz \<le> 2 ^ 63 - 1"
    using assms(1) by (simp add: wf_array_def PTRDIFF_MAX_def)
  have h: "n \<le> 2 ^ 63 - 1 \<Longrightarrow> n * 2 < 2 ^ LENGTH(64)" for n :: nat by simp
  have s: "unat (of_nat sz :: u64) = sz"
    using assms(3) by (simp add: unat_of_nat)
  have "unat (da_cap d) \<le> unat (da_cap d) * sz" using assms(2) by simp
  then have c: "unat (da_cap d) \<le> 2 ^ 63 - 1" using b by linarith
  then have "unat (da_cap d) * 2 < 2 ^ 64" by simp
  then show "unat (da_cap d * 2) = unat (da_cap d) * 2"
    by (simp add: unat_word_ariths)
  have "unat (da_cap d) * sz * 2 < 2 ^ LENGTH(64)" by (rule h [OF b])
  moreover from this have "unat (da_cap d) * sz < 2 ^ LENGTH(64)" by linarith
  ultimately show "unat (da_cap d * of_nat sz * 2) = unat (da_cap d) * sz * 2"
    by (simp only: unat_word_ariths s mod_less) simp
qed

lemma realloc_block_length:
  assumes "realloc_block alc bytes sz old = Some new" "length old \<le> unat bytes div sz"
  shows "length new = unat bytes div sz" "take (length old) new = old" "unat bytes \<le> PTRDIFF_MAX"
  using assms by (auto simp: realloc_block_def Let_def split: if_splits option.splits)

subsection \<open>The client's contract\<close>

text \<open>
  What a user of a growable array relies on: \<open>push\<close> appends or ends the process, \<open>pop\<close> removes
  the last element into the caller's buffer and does nothing on an empty array.
\<close>

locale growable =
  fixes push :: "'a allocator \<Rightarrow> 'd \<Rightarrow> 'a \<Rightarrow> 'd outcome"
    and pop :: "'d \<Rightarrow> 'a \<Rightarrow> ('d \<times> 'a) outcome"
    and contents :: "'d \<Rightarrow> 'a list"
    and invar :: "'d \<Rightarrow> bool"
  assumes push_appends:
      "invar d \<Longrightarrow> push alc d x = Inr d' \<Longrightarrow> invar d' \<and> contents d' = contents d @ [x]"
    and push_stops: "invar d \<Longrightarrow> push alc d x = Inl e \<Longrightarrow> e = Exit 1"
    and pop_last:
      "invar d \<Longrightarrow> contents d \<noteq> [] \<Longrightarrow>
         \<exists>d'. pop d buf = Inr (d', last (contents d)) \<and> invar d' \<and> contents d' = butlast (contents d)"
    and pop_nothing: "invar d \<Longrightarrow> contents d = [] \<Longrightarrow> pop d buf = Inr (d, buf)"
begin

lemma push_all:
  "invar d \<Longrightarrow> fold_res (push alc) d xs = Inr d' \<Longrightarrow> invar d' \<and> contents d' = contents d @ xs"
proof (induction xs arbitrary: d)
  case Nil
  then show ?case by simp
next
  case (Cons x xs)
  then obtain d1 where d1: "push alc d x = Inr d1" "fold_res (push alc) d1 xs = Inr d'"
    by (auto simp: bind_res_eq_Inr)
  then have "invar d1 \<and> contents d1 = contents d @ [x]"
    using push_appends Cons.prems(1) by blast
  then show ?case using Cons.IH [OF _ d1(2)] by simp
qed

lemma push_all_stops: "invar d \<Longrightarrow> fold_res (push alc) d xs = Inl e \<Longrightarrow> e = Exit 1"
  by (erule fold_res_stop [where P = invar]) (auto dest: push_appends push_stops)

text \<open>The array is a stack: what was pushed last comes back first.\<close>

lemma pop_push:
  assumes "invar d" "push alc d x = Inr d1"
  shows "\<exists>d2. pop d1 buf = Inr (d2, x) \<and> invar d2 \<and> contents d2 = contents d"
  using pop_last [of d1 buf] push_appends [OF assms] by auto

end

subsection \<open>The doubling scheme\<close>

locale doubling_array =
  fixes sz :: nat and zero :: 'a
    and fresh :: "'a darray option \<Rightarrow> 'a allocator \<Rightarrow> 'a darray option"
    and resize :: "'a allocator \<Rightarrow> 'a darray \<Rightarrow> 'a darray outcome"
    and push :: "'a allocator \<Rightarrow> 'a darray \<Rightarrow> 'a \<Rightarrow> 'a darray outcome"
    and pop :: "'a darray \<Rightarrow> 'a \<Rightarrow> ('a darray \<times> 'a) outcome"
  assumes sz_pos: "0 < sz" and sz_small: "sz < 2 ^ 32"
    and fresh_eq:
      "fresh mem alc =
         (case mem of
            None \<Rightarrow> None
          | Some d \<Rightarrow>
              (case malloc_block alc (of_nat sz * INITIAL_CAP) sz of
                 None \<Rightarrow> None
               | Some cells \<Rightarrow> Some (d\<lparr>da_data := cells, da_len := 0, da_cap := INITIAL_CAP\<rparr>)))"
    and resize_eq:
      "resize alc d =
         (case realloc_block alc (da_cap d * of_nat sz * 2) sz (da_data d) of
            None \<Rightarrow> Inl (Exit 1)
          | Some p \<Rightarrow> Inr (d\<lparr>da_data := p, da_cap := da_cap d * 2\<rparr>))"
    and push_eq:
      "push alc d x =
         bind_res (if da_len d = da_cap d then resize alc d else Inr d)
           (\<lambda>d. if unat (da_len d) < length (da_data d)
                then Inr (d\<lparr>da_data := (da_data d)[unat (da_len d) := x], da_len := da_len d + 1\<rparr>)
                else Inl OOB_write)"
    and pop_eq:
      "pop d buf =
         (if da_len d < 1 then Inr (d, buf)
          else (let i = unat (da_len d - 1)
                in if i < length (da_data d)
                   then Inr (d\<lparr>da_data := (da_data d)[i := zero], da_len := da_len d - 1\<rparr>,
                             da_data d ! i)
                   else Inl OOB_read))"
begin

lemma fresh_wf:
  assumes "fresh mem alc = Some d"
  shows "wf_array sz d" "elems d = []" "da_cap d = 2" "da_len d = 0"
proof -
  have s: "unat (of_nat sz * 2 :: u64) = sz * 2"
    using sz_small by (simp add: unat_word_ariths unat_of_nat)
  from assms obtain m cells where m: "mem = Some m"
    and c: "malloc_block alc (of_nat sz * INITIAL_CAP) sz = Some cells"
    and d: "d = m\<lparr>da_data := cells, da_len := 0, da_cap := INITIAL_CAP\<rparr>"
    by (auto simp: fresh_eq split: option.splits)
  from c have l: "length cells = 2 \<and> 2 * sz \<le> PTRDIFF_MAX"
    using realloc_block_length [of alc "of_nat sz * INITIAL_CAP" sz "[]" cells] sz_pos
    by (simp add: malloc_block_def INITIAL_CAP_def s mult.commute)
  then show "wf_array sz d" "elems d = []" "da_cap d = 2" "da_len d = 0"
    by (simp_all add: d wf_array_def elems_def INITIAL_CAP_def)
qed

lemma fresh_header:
  "fresh (Some m) alc = Some d \<Longrightarrow> da_active d = da_active m \<and> da_key d = da_key m"
  by (auto simp: fresh_eq split: option.splits)

lemma resize_wf:
  assumes wf: "wf_array sz d" and r: "resize alc d = Inr d'"
  shows "wf_array sz d'" "elems d' = elems d" "unat (da_cap d') = 2 * unat (da_cap d)"
    and "da_len d' = da_len d" "da_active d' = da_active d" "da_key d' = da_key d"
proof -
  note dbl = double_bytes [OF wf sz_pos sz_small]
  from r obtain p where p: "realloc_block alc (da_cap d * of_nat sz * 2) sz (da_data d) = Some p"
    and d': "d' = d\<lparr>da_data := p, da_cap := da_cap d * 2\<rparr>"
    by (auto simp: resize_eq split: option.splits)
  have n: "unat (da_cap d * of_nat sz * 2) div sz = 2 * unat (da_cap d)"
    using sz_pos by (simp add: dbl(1))
  have len: "length (da_data d) = unat (da_cap d)" and le: "unat (da_len d) \<le> unat (da_cap d)"
    and pos: "0 < unat (da_cap d)"
    using wf by (auto simp: wf_array_def word_le_nat_alt word_less_nat_alt)
  note rl = realloc_block_length [OF p, unfolded n len]
  have lp: "length p = 2 * unat (da_cap d)" by (rule rl(1)) simp
  have tp: "take (unat (da_cap d)) p = da_data d" by (rule rl(2)) simp
  have mx: "unat (da_cap d) * sz * 2 \<le> PTRDIFF_MAX"
    using rl(3) by (simp add: dbl(1))
  show "unat (da_cap d') = 2 * unat (da_cap d)" by (simp add: d' dbl(2))
  show "wf_array sz d'"
    using lp le pos mx by (simp add: d' wf_array_def dbl(2) word_le_nat_alt word_less_nat_alt)
  show "elems d' = elems d"
    unfolding elems_def using le by (simp add: d' flip: tp)
  show "da_len d' = da_len d" "da_active d' = da_active d" "da_key d' = da_key d"
    by (simp_all add: d')
qed

lemma push_room:
  assumes wf: "wf_array sz d" and room: "da_len d \<noteq> da_cap d"
  shows "push alc d x =
     Inr (d\<lparr>da_data := (da_data d)[unat (da_len d) := x], da_len := da_len d + 1\<rparr>)"
  using wf_array_room [OF wf room] room by (simp add: push_eq)

lemma store_wf:
  assumes wf: "wf_array sz d" and room: "da_len d \<noteq> da_cap d"
    and d': "d' = d\<lparr>da_data := (da_data d)[unat (da_len d) := x], da_len := da_len d + 1\<rparr>"
  shows "wf_array sz d'" "elems d' = elems d @ [x]" "unat (da_len d') = Suc (unat (da_len d))"
proof -
  note w = wf_array_room [OF wf room]
  show len: "unat (da_len d') = Suc (unat (da_len d))"
    using unat_Suc_lt [OF w(2)] by (simp add: d')
  show "elems d' = elems d @ [x]"
    using w(1) len by (simp add: elems_def d' take_update_append)
  have "da_len d + 1 \<le> da_cap d"
    using unat_Suc_lt [OF w(2)] w(2) by (simp add: word_le_nat_alt word_less_nat_alt)
  then show "wf_array sz d'" using wf by (simp add: d' wf_array_def)
qed

lemma push_cases:
  assumes wf: "wf_array sz d" and p: "push alc d x = Inr d'"
  obtains d0 where "wf_array sz d0" "elems d0 = elems d" "da_len d0 = da_len d"
    "da_active d0 = da_active d" "da_key d0 = da_key d" "da_len d0 \<noteq> da_cap d0"
    "if da_len d = da_cap d then unat (da_cap d0) = 2 * unat (da_cap d) else d0 = d"
    "d' = d0\<lparr>da_data := (da_data d0)[unat (da_len d0) := x], da_len := da_len d0 + 1\<rparr>"
proof (cases "da_len d = da_cap d")
  case False
  with p wf show thesis by (intro that [of d]) (auto simp: push_room)
next
  case True
  with p obtain d0 where d0: "resize alc d = Inr d0" by (auto simp: push_eq bind_res_eq_Inr)
  note r = resize_wf [OF wf d0]
  have ne: "da_len d0 \<noteq> da_cap d0"
    using r(3,4) True wf by (auto simp: wf_array_def word_less_nat_alt)
  have "push alc d x = push alc d0 x" using True ne d0 by (simp add: push_eq)
  then show thesis using that [of d0] r ne True p push_room [OF r(1) ne] by auto
qed

lemma push_wf:
  assumes "wf_array sz d" "push alc d x = Inr d'"
  shows "wf_array sz d'" "elems d' = elems d @ [x]" "unat (da_len d') = Suc (unat (da_len d))"
    "da_active d' = da_active d" "da_key d' = da_key d"
    "da_cap d' = (if da_len d = da_cap d then da_cap d * 2 else da_cap d)"
proof -
  from assms obtain d0 where d0: "wf_array sz d0" "elems d0 = elems d" "da_len d0 = da_len d"
    "da_active d0 = da_active d" "da_key d0 = da_key d" "da_len d0 \<noteq> da_cap d0"
    "if da_len d = da_cap d then unat (da_cap d0) = 2 * unat (da_cap d) else d0 = d"
    "d' = d0\<lparr>da_data := (da_data d0)[unat (da_len d0) := x], da_len := da_len d0 + 1\<rparr>"
    by (rule push_cases)
  note st = store_wf [OF d0(1,6,8)]
  show "wf_array sz d'" "elems d' = elems d @ [x]" "unat (da_len d') = Suc (unat (da_len d))"
    using st d0(2,3) by simp_all
  show "da_active d' = da_active d" "da_key d' = da_key d" using d0(4,5,8) by simp_all
  show "da_cap d' = (if da_len d = da_cap d then da_cap d * 2 else da_cap d)"
  proof (cases "da_len d = da_cap d")
    case True
    then have "unat (da_cap d0) = unat (da_cap d * 2)"
      using d0(7) double_bytes(2) [OF assms(1) sz_pos sz_small] by simp
    then have "da_cap d0 = da_cap d * 2" by (simp add: word_unat_eq_iff)
    then show ?thesis using True d0(8) by simp
  qed (use d0(7,8) in simp)
qed

lemma push_stops_only_by_exit:
  assumes wf: "wf_array sz d" and p: "push alc d x = Inl e"
  shows "e = Exit 1" "da_len d = da_cap d" "resize alc d = Inl e"
proof -
  have full: "da_len d = da_cap d" using p push_room [OF wf, of alc x] by fastforce
  have "d0 = d0 \<Longrightarrow> resize alc d = Inr d0 \<Longrightarrow> push alc d x \<noteq> Inl e" for d0
    using resize_wf [OF wf, of alc d0] full wf
    by (auto simp: push_eq wf_array_def word_less_nat_alt)
  then have r: "resize alc d = Inl e" using p full by (cases "resize alc d") (auto simp: push_eq)
  show "da_len d = da_cap d" "resize alc d = Inl e" by fact+
  show "e = Exit 1" using r by (auto simp: resize_eq split: option.splits)
qed

text \<open>An allocator that answers every request it may answer lets every \<open>push\<close> return.\<close>

lemma push_succeeds:
  assumes wf: "wf_array sz d" and room: "2 * unat (da_cap d) * sz \<le> PTRDIFF_MAX"
    and alc: "alc (2 * unat (da_cap d) * sz) \<noteq> None"
  shows "\<exists>d'. push alc d x = Inr d'"
proof (cases "push alc d x")
  case (Inl e)
  note dbl = double_bytes(1) [OF wf sz_pos sz_small]
  have "da_cap d * of_nat sz * 2 \<noteq> 0"
    using dbl wf sz_pos by (auto simp: wf_array_def word_less_nat_alt)
  then have "\<exists>p. realloc_block alc (da_cap d * of_nat sz * 2) sz (da_data d) = Some p"
    using dbl room alc by (auto simp: realloc_block_def Let_def ac_simps)
  with push_stops_only_by_exit(3) [OF wf Inl] show ?thesis by (auto simp: resize_eq)
qed auto

text \<open>A \<open>push\<close> ends the process exactly when the array is full and twice its block is refused.\<close>

lemma push_stops_iff:
  assumes wf: "wf_array sz d"
  shows "push alc d x = Inl e \<longleftrightarrow> e = Exit 1 \<and> da_len d = da_cap d \<and> refuses sz alc (unat (da_cap d))"
proof
  assume p: "push alc d x = Inl e"
  have "refuses sz alc (unat (da_cap d))"
    using push_succeeds [OF wf, of alc x] p by (auto simp: refuses_def not_less [symmetric])
  then show "e = Exit 1 \<and> da_len d = da_cap d \<and> refuses sz alc (unat (da_cap d))"
    using push_stops_only_by_exit [OF wf p] by simp
next
  assume a: "e = Exit 1 \<and> da_len d = da_cap d \<and> refuses sz alc (unat (da_cap d))"
  have "unat (da_cap d * of_nat sz * 2) = 2 * unat (da_cap d) * sz"
    using double_bytes(1) [OF wf sz_pos sz_small] by simp
  then have "realloc_block alc (da_cap d * of_nat sz * 2) sz (da_data d) = None"
    using a by (auto simp: realloc_block_def refuses_def)
  then show "push alc d x = Inl e" using a by (simp add: push_eq resize_eq)
qed

lemma pop_wf:
  assumes wf: "wf_array sz d" and ne: "elems d \<noteq> []"
  shows "\<exists>d'. pop d buf = Inr (d', last (elems d)) \<and> wf_array sz d' \<and> elems d' = butlast (elems d)
    \<and> da_active d' = da_active d \<and> da_key d' = da_key d \<and> da_cap d' = da_cap d"
proof -
  have pos: "0 < unat (da_len d)" using ne by (auto simp: elems_def)
  then have nz: "da_len d \<noteq> 0" by auto
  have i: "unat (da_len d - 1) = unat (da_len d) - 1" using nz by (simp add: unat_minus_one)
  have le: "unat (da_len d) \<le> length (da_data d)"
    using wf by (simp add: wf_array_def word_le_nat_alt)
  have last: "last (elems d) = da_data d ! (unat (da_len d) - 1)"
    using pos wf last_conv_nth [OF ne] by (simp add: elems_nth)
  let ?d = "d\<lparr>da_data := (da_data d)[unat (da_len d - 1) := zero], da_len := da_len d - 1\<rparr>"
  have "pop d buf = Inr (?d, last (elems d))"
    using pos le nz by (simp add: pop_eq i last Let_def word_less_nat_alt)
  moreover have "wf_array sz ?d"
    using wf i pos by (auto simp: wf_array_def word_le_nat_alt)
  moreover have "elems ?d = butlast (elems d)"
    using le pos by (simp add: elems_def i butlast_take)
  ultimately show ?thesis by auto
qed

lemma pop_empty: "wf_array sz d \<Longrightarrow> elems d = [] \<Longrightarrow> pop d buf = Inr (d, buf)"
proof -
  assume wf: "wf_array sz d" and "elems d = []"
  then have "length (elems d) = 0" by simp
  then have "da_len d = 0" using wf by (simp add: unat_eq_zero)
  then show ?thesis by (simp add: pop_eq)
qed

text \<open>
  While an array only grows, it never holds more than twice the room it needs: the capacity is
  the initial one, or was doubled when the array was full.
\<close>

definition tight :: "'a darray \<Rightarrow> bool" where
  "tight d \<longleftrightarrow> unat (da_cap d) = 2 \<or> unat (da_cap d) + 2 \<le> 2 * unat (da_len d)"

lemma push_tight:
  assumes "wf_array sz d" "push alc d x = Inr d'" "tight d"
  shows "tight d'"
  using push_wf(3,6) [OF assms(1,2)] assms(3) double_bytes(2) [OF assms(1) sz_pos sz_small]
  by (auto simp: tight_def split: if_splits)

end

sublocale doubling_array \<subseteq> arr: growable push pop elems "wf_array sz"
proof unfold_locales
  fix d d' :: "'a darray" and x buf :: 'a and e :: fault and alc :: "'a allocator"
  assume wf: "wf_array sz d"
  show "push alc d x = Inr d' \<Longrightarrow> wf_array sz d' \<and> elems d' = elems d @ [x]"
    using push_wf(1,2) [OF wf] by blast
  show "push alc d x = Inl e \<Longrightarrow> e = Exit 1"
    by (rule push_stops_only_by_exit(1) [OF wf])
  show "elems d \<noteq> [] \<Longrightarrow> \<exists>d'. pop d buf = Inr (d', last (elems d)) \<and>
      wf_array sz d' \<and> elems d' = butlast (elems d)"
    using pop_wf [OF wf] by blast
  show "elems d = [] \<Longrightarrow> pop d buf = Inr (d, buf)"
    by (rule pop_empty [OF wf])
qed

context doubling_array begin

lemma push_all_frame:
  assumes "wf_array sz d" "tight d" "fold_res (push alc) d xs = Inr d'"
  shows "wf_array sz d' \<and> elems d' = elems d @ xs \<and> tight d' \<and>
    da_active d' = da_active d \<and> da_key d' = da_key d"
proof -
  let ?P = "\<lambda>e. wf_array sz e \<and> tight e \<and> da_active e = da_active d \<and> da_key e = da_key d"
  have "?P d'"
    by (rule fold_res_invariant [OF assms(3), where P = ?P])
       (use assms push_wf push_tight in auto)
  then show ?thesis using arr.push_all [OF assms(1,3)] by simp
qed

end

end
