(* ===== verification/Contracts.thy ===== *)
theory Contracts
  imports Dyn_Array
begin

text \<open>
  The contract between the peer table and the message handlers: a store that keeps, for every
  slot, the list of values put under the keys of that slot, in the order in which they came.
\<close>

locale keyed_store =
  fixes slot_of :: "'k \<Rightarrow> nat outcome"
    and put :: "'a allocator \<Rightarrow> 't \<Rightarrow> 'k \<Rightarrow> 'a \<Rightarrow> 't outcome"
    and look :: "'t \<Rightarrow> 'k \<Rightarrow> nat option outcome"
    and at :: "'t \<Rightarrow> nat \<Rightarrow> 'a list"
    and invar :: "'t \<Rightarrow> bool"
  assumes put_ok:
      "invar t \<Longrightarrow> slot_of k = Inr i \<Longrightarrow> put alc t k x = Inr t' \<Longrightarrow>
         invar t' \<and> at t' = (at t)(i := at t i @ [x])"
    and put_stops: "invar t \<Longrightarrow> slot_of k = Inr i \<Longrightarrow> put alc t k x = Inl e \<Longrightarrow> e = Exit 1"
    and look_ok: "invar t \<Longrightarrow> slot_of k = Inr i \<Longrightarrow> at t i \<noteq> [] \<Longrightarrow> look t k = Inr (Some i)"
    and look_slot: "invar t \<Longrightarrow> slot_of k = Inr i \<Longrightarrow> look t k = Inr (Some i) \<or> look t k = Inr None"
begin

lemma put_all:
  assumes "invar t" "slot_of k = Inr i" "fold_res (\<lambda>t. put alc t k) t xs = Inr t'"
  shows "invar t' \<and> at t' = (at t)(i := at t i @ xs)"
  using assms
proof (induction xs arbitrary: t)
  case Nil
  then show ?case by simp
next
  case (Cons x xs)
  then obtain t1 where t1: "put alc t k x = Inr t1" "fold_res (\<lambda>t. put alc t k) t1 xs = Inr t'"
    by (auto simp: bind_res_eq_Inr)
  then have "invar t1 \<and> at t1 = (at t)(i := at t i @ [x])"
    using put_ok Cons.prems(1,2) by blast
  then show ?case using Cons.IH [OF _ Cons.prems(2) t1(2)] by (auto simp: fun_eq_iff)
qed

lemma put_all_stops:
  "invar t \<Longrightarrow> slot_of k = Inr i \<Longrightarrow> fold_res (\<lambda>t. put alc t k) t xs = Inl e \<Longrightarrow> e = Exit 1"
  by (erule fold_res_stop [where P = invar]) (auto dest: put_ok put_stops)

lemma look_after_put:
  assumes "invar t" "slot_of k = Inr i" "put alc t k x = Inr t'"
  shows "look t' k = Inr (Some i) \<and> last (at t' i) = x"
  using put_ok [OF assms] look_ok [of t' k i] assms(2) by simp

text \<open>Keys with the same slot are not told apart: what is put under one is found under the other.\<close>

lemma look_alias:
  assumes "invar t" "slot_of k = Inr i" "slot_of k' = Inr i" "put alc t k x = Inr t'"
  shows "look t' k' = look t' k \<and> x \<in> set (at t' i)"
  using put_ok [OF assms(1,2,4)] look_ok [of t' k i] look_ok [of t' k' i] assms(2,3) by simp

lemma put_elsewhere:
  "invar t \<Longrightarrow> slot_of k = Inr i \<Longrightarrow> put alc t k x = Inr t' \<Longrightarrow> j \<noteq> i \<Longrightarrow> at t' j = at t j"
  using put_ok by simp

end

end
