(* ===== verification/Peers.thy ===== *)
theory Peers
  imports Contracts
begin

text \<open>
  \<open>peers.h\<close> and \<open>peers.c\<close>: peers, the growable buckets that hold them, the hash function on info
  hashes and the peer table of ten buckets. The table is the list of its slots; a null pointer is
  \<open>None\<close>, and a pointer to a bucket is the index of its slot, since every slot owns a bucket of its
  own from \<open>init_peer_table\<close> on.
\<close>

subsection \<open>Data\<close>

definition INET_ADDRSTRLEN :: nat where
  "INET_ADDRSTRLEN = 16"

definition MAX_PEER_BUCKETS :: nat where
  "MAX_PEER_BUCKETS = 10"

definition HASH_OFFSET :: u32 where
  "HASH_OFFSET = 2166136261"

definition PRIME :: u32 where
  "PRIME = 16777619"

datatype PEER_STATE = PASSIVE_ST | LEECH_ST | SEED_ST

primrec peer_state_code :: "PEER_STATE \<Rightarrow> u32" where
  "peer_state_code PASSIVE_ST = 0"
| "peer_state_code LEECH_ST = 1"
| "peer_state_code SEED_ST = 2"

record peer_t =
  p_ip :: "u8 list"
  p_port :: u16
  p_job_id :: "u8 list"
  p_state :: u32

text \<open>16 bytes of address, the port, 16 bytes of job id, 2 bytes of padding, 4 of state.\<close>

definition sizeof_peer :: nat where
  "sizeof_peer = 40"

definition zero_peer :: peer_t where
  "zero_peer = \<lparr>p_ip = replicate 16 0, p_port = 0, p_job_id = replicate 16 0, p_state = 0\<rparr>"

type_synonym peer_bucket_t = "peer_t darray"
type_synonym peer_table = "peer_bucket_t option list"

subsection \<open>Growable arrays of peers\<close>

definition new_peer_array :: "peer_bucket_t option \<Rightarrow> peer_t allocator \<Rightarrow> peer_bucket_t option" where
  "new_peer_array mem alc =
     (case mem of
        None \<Rightarrow> None
      | Some dyn_arr \<Rightarrow>
          (case malloc_block alc (of_nat sizeof_peer * INITIAL_CAP) sizeof_peer of
             None \<Rightarrow> None
           | Some arr \<Rightarrow> Some (dyn_arr\<lparr>da_data := arr, da_len := 0, da_cap := INITIAL_CAP\<rparr>)))"

definition resize_peer_array :: "peer_t allocator \<Rightarrow> peer_bucket_t \<Rightarrow> peer_bucket_t outcome" where
  "resize_peer_array alc d_arr =
     (case realloc_block alc (da_cap d_arr * of_nat sizeof_peer * 2) sizeof_peer (da_data d_arr) of
        None \<Rightarrow> Inl (Exit 1)
      | Some ptr \<Rightarrow> Inr (d_arr\<lparr>da_data := ptr, da_cap := da_cap d_arr * 2\<rparr>))"

definition push_peer :: "peer_t allocator \<Rightarrow> peer_bucket_t \<Rightarrow> peer_t \<Rightarrow> peer_bucket_t outcome" where
  "push_peer alc d_arr x =
     bind_res (if da_len d_arr = da_cap d_arr then resize_peer_array alc d_arr else Inr d_arr)
       (\<lambda>d. if unat (da_len d) < length (da_data d)
            then Inr (d\<lparr>da_data := (da_data d)[unat (da_len d) := x], da_len := da_len d + 1\<rparr>)
            else Inl OOB_write)"

definition pop_peer :: "peer_bucket_t \<Rightarrow> peer_t \<Rightarrow> (peer_bucket_t \<times> peer_t) outcome" where
  "pop_peer d_arr peer_buf =
     (if da_len d_arr < 1 then Inr (d_arr, peer_buf)
      else (let i = unat (da_len d_arr - 1)
            in if i < length (da_data d_arr)
               then Inr (d_arr\<lparr>da_data := (da_data d_arr)[i := zero_peer], da_len := da_len d_arr - 1\<rparr>,
                         da_data d_arr ! i)
               else Inl OOB_read))"

interpretation pa: doubling_array sizeof_peer zero_peer new_peer_array resize_peer_array push_peer pop_peer
  by unfold_locales
    (simp_all add: sizeof_peer_def new_peer_array_def resize_peer_array_def push_peer_def pop_peer_def)

abbreviation wf_bucket :: "peer_bucket_t \<Rightarrow> bool" where
  "wf_bucket \<equiv> wf_array sizeof_peer"

subsection \<open>The hash function\<close>

text \<open>
  The loop reads one \<open>char\<close> at a time until the NUL; \<open>char\<close> is signed, so the conversion to
  \<open>unsigned\<close> sign-extends. An array without a NUL is read past its end.
\<close>

fun hash_loop :: "u32 \<Rightarrow> u8 list \<Rightarrow> u32 outcome" where
  "hash_loop h [] = Inl OOB_read"
| "hash_loop h (b # input) = (if b = 0 then Inr h else hash_loop ((h XOR scast b) * PRIME) input)"

definition hash :: "u8 list \<Rightarrow> u32 outcome" where
  "hash input = bind_res (hash_loop HASH_OFFSET input) (\<lambda>h. Inr (h mod of_nat MAX_PEER_BUCKETS))"

subsection \<open>The peer table\<close>

definition slot :: "peer_table \<Rightarrow> nat \<Rightarrow> peer_bucket_t outcome" where
  "slot table i =
     (if length table \<le> i then Inl OOB_read
      else (case table ! i of None \<Rightarrow> Inl Null_deref | Some b \<Rightarrow> Inr b))"

definition init_peer_table ::
    "(nat \<Rightarrow> peer_bucket_t option) \<Rightarrow> (nat \<Rightarrow> peer_t allocator) \<Rightarrow> peer_table \<Rightarrow> peer_table" where
  "init_peer_table mem alc unint_table =
     fold (\<lambda>i table. table[i := new_peer_array (mem i) (alc i)]) [0..<MAX_PEER_BUCKETS] unint_table"

definition set_peer ::
    "peer_t allocator \<Rightarrow> peer_table \<Rightarrow> u8 list \<Rightarrow> peer_t \<Rightarrow> peer_table outcome" where
  "set_peer alc table key x =
     bind_res (hash key) (\<lambda>hash_key.
     let i = unat hash_key; index = i + 1 in
     bind_res (slot table i) (\<lambda>b.
     let install = bind_res (push_peer alc (b\<lparr>da_key := hash_key, da_active := True\<rparr>) x)
                     (\<lambda>b'. Inr (table[i := Some b'])) in
     if da_active b then
       if da_key b = hash_key then
         bind_res (push_peer alc b x) (\<lambda>b'. Inr (table[i := Some b']))
       else if index < MAX_PEER_BUCKETS then
         bind_res (slot table index) (\<lambda>c.
         if da_len c = 0 \<and> \<not> da_active c then
           bind_res (push_peer alc (c\<lparr>da_key := of_nat index\<rparr>) x)
             (\<lambda>c'. Inr (table[index := Some c']))
         else Inr table)
       else install
     else install))"

text \<open>
  The search loop of \<open>get_peer_bucket\<close> changes \<open>current_key\<close> only: it compares the hash with the
  key of the hashed slot and with the numbers after it.
\<close>

function key_search :: "u32 \<Rightarrow> u32 \<Rightarrow> bool" where
  "key_search hash_key current_key =
     (if hash_key = current_key then True
      else if current_key + 1 < of_nat MAX_PEER_BUCKETS then key_search hash_key (current_key + 1)
      else False)"
  by pat_completeness auto
termination
proof (relation "measure (\<lambda>(h, c). if c = - 1 then 11 else 10 - unat c)")
  fix h c :: u32
  assume n: "h \<noteq> c" and lt: "c + 1 < of_nat MAX_PEER_BUCKETS"
  have "unat (c + 1) < 10" using lt by (simp add: MAX_PEER_BUCKETS_def word_less_nat_alt)
  moreover have "c \<noteq> - 1 \<Longrightarrow> unat (c + 1) = Suc (unat c)"
    by (metis unatSuc add.commute add_eq_0_iff)
  moreover have "c + 1 \<noteq> - 1"
  proof
    assume "c + 1 = - 1"
    with lt show False by (simp add: MAX_PEER_BUCKETS_def)
  qed
  ultimately show "((h, c + 1), h, c) \<in> measure (\<lambda>(h, c). if c = - 1 then 11 else 10 - unat c)"
    by auto
qed auto

declare key_search.simps [simp del]

definition get_peer_bucket :: "peer_table \<Rightarrow> u8 list \<Rightarrow> nat option outcome" where
  "get_peer_bucket table key =
     bind_res (hash key) (\<lambda>hash_key.
     bind_res (slot table (unat hash_key)) (\<lambda>b.
     Inr (if key_search hash_key (da_key b) then Some (unat hash_key) else None)))"

definition print_peers_from_bucket :: "peer_bucket_t \<Rightarrow> unit outcome" where
  "print_peers_from_bucket bucket =
     fold_res (\<lambda>_ i. if i < length (da_data bucket)
                     then bind_res (c_str (p_ip (da_data bucket ! i))) (\<lambda>_. Inr ())
                     else Inl OOB_read)
       () [0..<unat (da_len bucket)]"

subsection \<open>Facts about the hash\<close>

definition fnv1a :: "u8 list \<Rightarrow> u32" where
  "fnv1a bs = foldl (\<lambda>h b. (h XOR ucast b) * PRIME) HASH_OFFSET bs"

lemma hash_loop_unterminated: "0 \<notin> set k \<Longrightarrow> hash_loop h k = Inl OOB_read"
  by (induction k arbitrary: h) auto

lemma hash_loop_foldl:
  "0 \<in> set k \<Longrightarrow> hash_loop h k = Inr (foldl (\<lambda>h b. (h XOR scast b) * PRIME) h (cstr k))"
  by (induction k arbitrary: h) auto

lemma hash_total: "0 \<in> set k \<Longrightarrow> \<exists>h. hash k = Inr h"
  by (simp add: hash_def hash_loop_foldl)

lemma hash_unterminated: "0 \<notin> set k \<Longrightarrow> hash k = Inl OOB_read"
  by (simp add: hash_def hash_loop_unterminated)

lemma hash_iff: "(\<exists>h. hash k = Inr h) \<longleftrightarrow> 0 \<in> set k"
  by (metis hash_total hash_unterminated sum.distinct(1))

lemma hash_Inl_iff: "hash k = Inl e \<longleftrightarrow> 0 \<notin> set k \<and> e = OOB_read"
  by (metis hash_total hash_unterminated sum.distinct(1) sum.inject(1))

lemma hash_bound:
  assumes "hash k = Inr h"
  shows "unat h < MAX_PEER_BUCKETS"
  using assms by (auto simp: hash_def bind_res_eq_Inr MAX_PEER_BUCKETS_def unat_mod)

lemma hash_cstr: "0 \<in> set k \<Longrightarrow> 0 \<in> set k' \<Longrightarrow> cstr k = cstr k' \<Longrightarrow> hash k = hash k'"
  by (simp add: hash_def hash_loop_foldl)

lemma scast_ascii:
  fixes b :: u8
  assumes "b < 128"
  shows "(scast b :: u32) = ucast b"
proof -
  have "uint b < 2 ^ 7" "- (2 ^ 7) \<le> uint b"
    using assms by (simp_all add: word_less_def order_trans [of _ 0])
  then have "sint b = uint b"
    by (simp add: sint_uint signed_take_bit_int_eq_self)
  then show ?thesis by (metis of_int_sint of_int_uint)
qed

lemma foldl_fnv:
  fixes bs :: "u8 list"
  shows "\<forall>b \<in> set bs. b < 128 \<Longrightarrow>
     foldl (\<lambda>h b. (h XOR scast b) * PRIME) h bs = foldl (\<lambda>h b. (h XOR ucast b) * PRIME) h bs"
  by (induction bs arbitrary: h) (simp_all add: scast_ascii)

subsection \<open>Facts about the table\<close>

definition slot_ok :: "nat \<Rightarrow> peer_bucket_t option \<Rightarrow> bool" where
  "slot_ok i s =
     (case s of
        None \<Rightarrow> False
      | Some b \<Rightarrow> wf_bucket b \<and> (if da_active b then da_key b = of_nat i else da_len b = 0))"

definition wf_table :: "peer_table \<Rightarrow> bool" where
  "wf_table t \<longleftrightarrow>
     length t = MAX_PEER_BUCKETS \<and> list_all (\<lambda>i. slot_ok i (t ! i)) [0..<MAX_PEER_BUCKETS]"

definition peers_at :: "peer_table \<Rightarrow> nat \<Rightarrow> peer_t list" where
  "peers_at t i = (case slot t i of Inl _ \<Rightarrow> [] | Inr b \<Rightarrow> elems b)"

lemma wf_table_slot:
  assumes "wf_table t" "i < MAX_PEER_BUCKETS"
  obtains b where "slot t i = Inr b" "t ! i = Some b" "wf_bucket b"
    "da_active b \<Longrightarrow> da_key b = of_nat i" "\<not> da_active b \<Longrightarrow> elems b = []"
    "peers_at t i = elems b" "i < length t"
proof -
  from assms have "slot_ok i (t ! i)" "i < length t"
    by (auto simp: wf_table_def list_all_iff)
  then show thesis
    using that by (auto simp: slot_ok_def slot_def peers_at_def elems_def split: option.splits if_splits)
qed

lemma wf_table_update:
  assumes "wf_table t" "i < MAX_PEER_BUCKETS" "slot_ok i (Some b)"
  shows "wf_table (t[i := Some b])" "peers_at (t[i := Some b]) = (peers_at t)(i := elems b)"
proof -
  show "wf_table (t[i := Some b])"
    using assms by (auto simp: wf_table_def list_all_iff nth_list_update)
  show "peers_at (t[i := Some b]) = (peers_at t)(i := elems b)"
    using assms by (auto simp: fun_eq_iff peers_at_def slot_def wf_table_def nth_list_update)
qed

lemma small_not_max: "(w :: u32) < 10 \<Longrightarrow> w \<noteq> - 1"
  by auto

lemma key_search_iff:
  assumes "h < 10"
  shows "key_search h c \<longleftrightarrow> c \<le> h \<or> c = - 1"
  using assms
proof (induction h c rule: key_search.induct)
  case (1 h c)
  have suc: "c \<noteq> - 1 \<Longrightarrow> unat (c + 1) = Suc (unat c)"
    by (metis unatSuc add.commute add_eq_0_iff)
  have step: "c \<noteq> h \<Longrightarrow> (c + 1 \<le> h) = (c \<le> h \<or> c = - 1)"
  proof (cases "c = - 1")
    case False
    assume "c \<noteq> h"
    then have "unat c \<noteq> unat h" by (simp add: word_unat_eq_iff)
    then show ?thesis using suc [OF False] False by (auto simp: word_le_nat_alt)
  qed simp
  show ?case
  proof (cases "h = c")
    case True
    then show ?thesis by (simp add: key_search.simps [of c c])
  next
    case False
    show ?thesis
    proof (cases "c + 1 < of_nat MAX_PEER_BUCKETS")
      case True
      then have "c + 1 \<noteq> - 1" by (intro small_not_max) (simp add: MAX_PEER_BUCKETS_def)
      with True False "1.IH" "1.prems" step show ?thesis
        by (simp add: key_search.simps [of h c])
    next
      case nlt: False
      then have "\<not> c + 1 \<le> h" using "1.prems" by (auto simp: MAX_PEER_BUCKETS_def)
      with nlt False step show ?thesis by (auto simp add: key_search.simps [of h c])
    qed
  qed
qed

text \<open>
  On a well-formed table the probing branch of \<open>set_peer\<close> is never taken: an active slot carries
  its own index as key. What remains is one push into the hashed slot.
\<close>

lemma set_peer_wf_eq:
  assumes wf: "wf_table t" and h: "hash key = Inr h"
  obtains b where "wf_bucket b" "elems b = peers_at t (unat h)" "da_active b" "da_key b = h"
    "\<And>alc x. set_peer alc t key x =
       bind_res (push_peer alc b x) (\<lambda>b'. Inr (t[unat h := Some b']))"
proof -
  obtain b where b: "slot t (unat h) = Inr b" "wf_bucket b" "peers_at t (unat h) = elems b"
    "da_active b \<Longrightarrow> da_key b = of_nat (unat h)" "\<not> da_active b \<Longrightarrow> elems b = []"
    by (rule wf_table_slot [OF wf hash_bound [OF h]]) simp
  show thesis
  proof (cases "da_active b")
    case True
    then show thesis using b h by (intro that [of b]) (simp_all add: set_peer_def)
  next
    case False
    then show thesis
      using b h by (intro that [of "b\<lparr>da_key := h, da_active := True\<rparr>"]) (simp_all add: set_peer_def)
  qed
qed

lemma set_peer_ok:
  assumes wf: "wf_table t" and h: "hash key = Inr h" and s: "set_peer alc t key x = Inr t'"
  shows "wf_table t' \<and> peers_at t' = (peers_at t)(unat h := peers_at t (unat h) @ [x])"
proof -
  obtain b where b: "wf_bucket b" "elems b = peers_at t (unat h)" "da_active b" "da_key b = h"
    and eq: "\<And>alc x. set_peer alc t key x =
       bind_res (push_peer alc b x) (\<lambda>b'. Inr (t[unat h := Some b']))"
    using set_peer_wf_eq [OF wf h] by blast
  from s eq obtain b' where p: "push_peer alc b x = Inr b'" and t': "t' = t[unat h := Some b']"
    by (auto simp: bind_res_eq_Inr)
  have "slot_ok (unat h) (Some b')"
    using pa.push_wf [OF b(1) p] b(3,4) by (simp add: slot_ok_def)
  then show ?thesis
    using wf_table_update [OF wf hash_bound [OF h]] pa.push_wf(2) [OF b(1) p] b(2) t' by simp
qed

lemma set_peer_stops:
  assumes wf: "wf_table t" and h: "hash key = Inr h" and s: "set_peer alc t key x = Inl e"
  shows "e = Exit 1"
proof -
  obtain b where "wf_bucket b" and eq: "\<And>alc x. set_peer alc t key x =
       bind_res (push_peer alc b x) (\<lambda>b'. Inr (t[unat h := Some b']))"
    using set_peer_wf_eq [OF wf h] by blast
  then show ?thesis
    using s pa.push_stops_only_by_exit(1) [of b alc x e] by (simp add: eq bind_res_eq_Inl)
qed

text \<open>A full bucket for whose doubled block the allocator has no memory.\<close>

definition bucket_stuck :: "peer_t allocator \<Rightarrow> peer_table \<Rightarrow> nat \<Rightarrow> bool" where
  "bucket_stuck alc t i \<longleftrightarrow>
     (case slot t i of
        Inl _ \<Rightarrow> False
      | Inr b \<Rightarrow> da_len b = da_cap b \<and> refuses sizeof_peer alc (unat (da_cap b)))"

lemma set_peer_stops_iff:
  assumes wf: "wf_table t" and h: "hash key = Inr h"
  shows "set_peer alc t key x = Inl e \<longleftrightarrow> e = Exit 1 \<and> bucket_stuck alc t (unat h)"
proof -
  obtain b where b: "slot t (unat h) = Inr b" "wf_bucket b" "da_active b \<Longrightarrow> da_key b = of_nat (unat h)"
    by (rule wf_table_slot [OF wf hash_bound [OF h]]) simp
  have w: "wf_bucket (b\<lparr>da_key := h, da_active := True\<rparr>)" using b(2) by simp
  show ?thesis
    using b h pa.push_stops_iff [OF b(2), of alc x e] pa.push_stops_iff [OF w, of alc x e]
    by (cases "da_active b") (simp_all add: set_peer_def bind_res_eq_Inl bucket_stuck_def)
qed

text \<open>Storing \<open>k\<close> peers in a bucket of \<open>n\<close> asks for a block for twice the peers it then holds, if it asks.\<close>

definition cannot_grow :: "peer_t allocator \<Rightarrow> nat \<Rightarrow> nat \<Rightarrow> bool" where
  "cannot_grow alc n k \<longleftrightarrow> (\<exists>j < k. refuses sizeof_peer alc (n + j))"

lemma bucket_stuck_grow:
  assumes "wf_table t" "i < MAX_PEER_BUCKETS" "bucket_stuck alc t i" "0 < k"
  shows "cannot_grow alc (length (peers_at t i)) k"
proof -
  obtain b where b: "slot t i = Inr b" "wf_bucket b" "peers_at t i = elems b"
    by (rule wf_table_slot [OF assms(1,2)]) simp
  then have "unat (da_cap b) = length (peers_at t i) + 0" "refuses sizeof_peer alc (unat (da_cap b))"
    using assms(3) by (simp_all add: bucket_stuck_def)
  then show ?thesis unfolding cannot_grow_def using assms(4) by metis
qed

lemma set_peer_succeeds:
  assumes wf: "wf_table t" and h: "hash key = Inr h" and alc: "\<forall>n. alc n \<noteq> None"
    and small: "2 * length (peers_at t (unat h)) * sizeof_peer \<le> PTRDIFF_MAX"
  shows "\<exists>t'. set_peer alc t key x = Inr t'"
proof -
  obtain b where b: "wf_bucket b" "elems b = peers_at t (unat h)"
    and eq: "\<And>alc x. set_peer alc t key x =
       bind_res (push_peer alc b x) (\<lambda>b'. Inr (t[unat h := Some b']))"
    using set_peer_wf_eq [OF wf h] by metis
  have "\<exists>b'. push_peer alc b x = Inr b'"
  proof (cases "da_len b = da_cap b")
    case True
    then have "unat (da_cap b) = length (peers_at t (unat h))" using b by (metis length_elems)
    then show ?thesis by (intro pa.push_succeeds [OF b(1)]) (use alc small in auto)
  qed (use pa.push_room [OF b(1)] in auto)
  then show ?thesis using eq by auto
qed

lemma get_peer_bucket_eq:
  assumes "wf_table t" "hash key = Inr h" "slot t (unat h) = Inr b"
  shows "get_peer_bucket t key =
    Inr (if da_key b \<le> h \<or> da_key b = - 1 then Some (unat h) else None)"
proof -
  have "h < 10" using hash_bound [OF assms(2)] by (simp add: MAX_PEER_BUCKETS_def word_less_nat_alt)
  then show ?thesis using assms by (simp add: get_peer_bucket_def key_search_iff)
qed

lemma get_peer_bucket_present:
  assumes wf: "wf_table t" and h: "hash key = Inr h" and ne: "peers_at t (unat h) \<noteq> []"
  shows "get_peer_bucket t key = Inr (Some (unat h))"
proof -
  obtain b where "slot t (unat h) = Inr b" "da_active b \<Longrightarrow> da_key b = of_nat (unat h)"
    "\<not> da_active b \<Longrightarrow> elems b = []" "peers_at t (unat h) = elems b"
    by (rule wf_table_slot [OF wf hash_bound [OF h]]) simp
  then show ?thesis using get_peer_bucket_eq [OF wf h] ne by (cases "da_active b") auto
qed

definition slot_of :: "u8 list \<Rightarrow> nat outcome" where
  "slot_of key = map_sum id unat (hash key)"

lemma slot_of_eq_Inr: "slot_of key = Inr i \<longleftrightarrow> (\<exists>h. hash key = Inr h \<and> i = unat h)"
  by (cases "hash key") (auto simp: slot_of_def)

interpretation pt: keyed_store slot_of set_peer get_peer_bucket peers_at wf_table
proof unfold_locales
  fix t t' :: peer_table and k i x e and alc :: "peer_t allocator"
  assume wf: "wf_table t" and "slot_of k = Inr i"
  then obtain h where h: "hash k = Inr h" and i: "i = unat h" by (auto simp: slot_of_eq_Inr)
  show "set_peer alc t k x = Inr t' \<Longrightarrow> wf_table t' \<and> peers_at t' = (peers_at t)(i := peers_at t i @ [x])"
    using set_peer_ok [OF wf h] i by blast
  show "set_peer alc t k x = Inl e \<Longrightarrow> e = Exit 1"
    by (rule set_peer_stops [OF wf h])
  show "peers_at t i \<noteq> [] \<Longrightarrow> get_peer_bucket t k = Inr (Some i)"
    using get_peer_bucket_present [OF wf h] i by blast
  obtain b where "slot t (unat h) = Inr b"
    by (rule wf_table_slot [OF wf hash_bound [OF h]])
  then show "get_peer_bucket t k = Inr (Some i) \<or> get_peer_bucket t k = Inr None"
    using get_peer_bucket_eq [OF wf h] i by simp
qed

subsection \<open>Initialisation\<close>

lemma init_peer_table_eq:
  "length t = MAX_PEER_BUCKETS \<Longrightarrow>
     init_peer_table mem alc t = map (\<lambda>i. new_peer_array (mem i) (alc i)) [0..<MAX_PEER_BUCKETS]"
  by (simp add: init_peer_table_def fold_list_update)

lemma new_peer_array_Some:
  assumes "alc 80 \<noteq> None"
  shows "\<exists>d. new_peer_array (Some m) alc = Some d \<and> wf_bucket d \<and> da_len d = 0 \<and>
    da_active d = da_active m \<and> da_key d = da_key m"
proof -
  have "malloc_block alc (of_nat sizeof_peer * INITIAL_CAP) sizeof_peer \<noteq> None"
    using assms by (auto simp: malloc_block_def realloc_block_def sizeof_peer_def INITIAL_CAP_def
        PTRDIFF_MAX_def Let_def)
  then obtain d where d: "new_peer_array (Some m) alc = Some d"
    by (auto simp: new_peer_array_def)
  then show ?thesis using pa.fresh_wf(1,4) [OF d] pa.fresh_header [OF d] by simp
qed

lemma slot_init:
  assumes "length t = MAX_PEER_BUCKETS" "i < MAX_PEER_BUCKETS"
  shows "slot (init_peer_table mem alc t) i =
    (case new_peer_array (mem i) (alc i) of None \<Rightarrow> Inl Null_deref | Some b \<Rightarrow> Inr b)"
  using assms by (simp add: init_peer_table_eq slot_def)

lemma wf_table_init:
  assumes "length t = MAX_PEER_BUCKETS"
    and "\<And>i. i < MAX_PEER_BUCKETS \<Longrightarrow>
      \<exists>m. mem i = Some m \<and> alc i 80 \<noteq> None \<and> (da_active m \<longrightarrow> da_key m = of_nat i)"
  shows "wf_table (init_peer_table mem alc t)"
    and "i < MAX_PEER_BUCKETS \<Longrightarrow> peers_at (init_peer_table mem alc t) i = []"
proof -
  have ok: "\<exists>d. new_peer_array (mem i) (alc i) = Some d \<and> wf_bucket d \<and> da_len d = 0 \<and>
      (da_active d \<longrightarrow> da_key d = of_nat i)" if "i < MAX_PEER_BUCKETS" for i
  proof -
    from assms(2) [OF that] obtain m where m: "mem i = Some m" "alc i 80 \<noteq> None"
      "da_active m \<longrightarrow> da_key m = of_nat i" by blast
    show ?thesis using new_peer_array_Some [of "alc i" m] m by auto
  qed
  then show "wf_table (init_peer_table mem alc t)"
    using assms(1) by (force simp: wf_table_def init_peer_table_eq list_all_iff slot_ok_def)
  show "peers_at (init_peer_table mem alc t) i = []" if "i < MAX_PEER_BUCKETS"
    using ok [OF that] slot_init [OF assms(1) that] by (auto simp: peers_at_def elems_def)
qed

text \<open>Allocators for concrete runs: every request is granted, new memory is zero.\<close>

definition zero_mem :: "nat \<Rightarrow> peer_bucket_t option" where
  "zero_mem i = Some \<lparr>da_active = False, da_key = 0, da_cap = 0, da_len = 0, da_data = []\<rparr>"

definition zero_alloc :: "peer_t allocator" where
  "zero_alloc n = Some (\<lambda>_. zero_peer)"

lemma zero_alloc_grants [simp]: "zero_alloc n \<noteq> None"
  by (simp add: zero_alloc_def)

definition zero_table :: peer_table where
  "zero_table = init_peer_table zero_mem (\<lambda>_. zero_alloc) (replicate MAX_PEER_BUCKETS None)"

lemma wf_zero_table: "wf_table zero_table"
  and peers_at_zero_table: "i < MAX_PEER_BUCKETS \<Longrightarrow> peers_at zero_table i = []"
  unfolding zero_table_def
  by (rule wf_table_init; simp add: zero_mem_def zero_alloc_def)+

definition bucket_of :: "peer_t list \<Rightarrow> peer_bucket_t" where
  "bucket_of ps =
     \<lparr>da_active = True, da_key = 9, da_cap = of_nat (length ps), da_len = of_nat (length ps), da_data = ps\<rparr>"

lemma bucket_of_simps [simp]:
  "da_active (bucket_of ps)" "da_key (bucket_of ps) = 9" "da_cap (bucket_of ps) = of_nat (length ps)"
  "da_len (bucket_of ps) = of_nat (length ps)" "da_data (bucket_of ps) = ps"
  by (simp_all add: bucket_of_def)

lemma wf_bucket_of:
  assumes "2 \<le> length ps" "length ps < 2 ^ 32"
  shows "wf_bucket (bucket_of ps)" "elems (bucket_of ps) = ps"
proof -
  have u: "unat (of_nat (length ps) :: u64) = length ps"
    using assms(2) by (simp add: unat_of_nat)
  then show "elems (bucket_of ps) = ps" by (simp add: elems_def)
  have "2 \<le> unat (of_nat (length ps) :: u64)" using u assms(1) by simp
  then show "wf_bucket (bucket_of ps)"
    using u assms by (simp add: wf_array_def sizeof_peer_def PTRDIFF_MAX_def word_less_nat_alt)
qed

lemma new_zero_bucket:
  "\<exists>d. new_peer_array (zero_mem i) zero_alloc = Some d \<and> wf_bucket d \<and> da_len d = 0 \<and>
    da_cap d = 2 \<and> \<not> da_active d \<and> da_key d = 0"
proof -
  obtain d where "new_peer_array (zero_mem i) zero_alloc = Some d"
    using new_peer_array_Some [of zero_alloc] by (auto simp: zero_mem_def zero_alloc_def)
  then show ?thesis
    using pa.fresh_wf [of "zero_mem i" zero_alloc d] by (auto simp: zero_mem_def dest: pa.fresh_header)
qed

lemma set_peer_zero_table:
  assumes h: "hash key = Inr h"
  shows "\<exists>t'. set_peer zero_alloc zero_table key x = Inr t'"
proof -
  obtain d where d: "new_peer_array (zero_mem (unat h)) zero_alloc = Some d" "wf_bucket d"
    "da_len d = 0" "da_cap d = 2" "\<not> da_active d"
    using new_zero_bucket by blast
  have "slot zero_table (unat h) = Inr d"
    using slot_init [of _ "unat h"] hash_bound [OF h] d(1) by (simp add: zero_table_def)
  moreover have "\<exists>d'. push_peer zero_alloc (d\<lparr>da_key := h, da_active := True\<rparr>) x = Inr d'"
    by (rule pa.push_succeeds)
       (use d in \<open>simp_all add: zero_alloc_def sizeof_peer_def PTRDIFF_MAX_def\<close>)
  ultimately show ?thesis using d(5) h by (auto simp: set_peer_def)
qed

lemma hash_13: "hash (char_array 36 ''13'') = Inr 9"
  and hash_19: "hash (char_array 36 ''19'') = Inr 9"
  by (simp_all add: hash_def HASH_OFFSET_def PRIME_def MAX_PEER_BUCKETS_def eval)

subsection \<open>Properties\<close>

text \<open>
  \<open>push_peer\<close> on a well-formed bucket either appends the peer, keeping the bucket well formed,
  its header fields and its earlier contents, and doubling the capacity exactly when the bucket was
  full, or ends the process with status 1; it ends the process only when the bucket was full and the
  allocator refused. In particular it never writes outside the block.
\<close>

theorem push_peer_appends:
  assumes "wf_bucket d"
  shows "(\<exists>d'. push_peer alc d x = Inr d' \<and> wf_bucket d' \<and> elems d' = elems d @ [x] \<and>
            da_cap d' = (if da_len d = da_cap d then da_cap d * 2 else da_cap d) \<and>
            da_active d' = da_active d \<and> da_key d' = da_key d) \<or>
         (push_peer alc d x = Inl (Exit 1) \<and> da_len d = da_cap d \<and>
            (alc (2 * unat (da_cap d) * sizeof_peer) = None \<or>
             PTRDIFF_MAX < 2 * unat (da_cap d) * sizeof_peer))"
proof (cases "push_peer alc d x")
  case (Inl e)
  note st = pa.push_stops_only_by_exit [OF assms Inl]
  have "alc (2 * unat (da_cap d) * sizeof_peer) = None \<or>
      PTRDIFF_MAX < 2 * unat (da_cap d) * sizeof_peer"
    using pa.push_succeeds [OF assms, of alc x] Inl by (metis not_le sum.distinct(1))
  then show ?thesis using Inl st by simp
next
  case (Inr d')
  then show ?thesis using pa.push_wf [OF assms Inr] by simp
qed

theorem push_peer_appends_witness:
  "\<exists>d'. push_peer zero_alloc (bucket_of [zero_peer, zero_peer]) zero_peer = Inr d' \<and>
      elems d' = [zero_peer, zero_peer, zero_peer] \<and> da_cap d' = 4"
proof -
  let ?d = "bucket_of [zero_peer, zero_peer]"
  have wf: "wf_bucket ?d" and e: "elems ?d = [zero_peer, zero_peer]"
    by (simp_all add: wf_bucket_of)
  have "\<not> PTRDIFF_MAX < 2 * unat (da_cap ?d) * sizeof_peer"
    by (simp add: sizeof_peer_def PTRDIFF_MAX_def)
  then show ?thesis
    using push_peer_appends [OF wf, of zero_alloc zero_peer] e by auto
qed

text \<open>
  A bucket is a stack: \<open>pop_peer\<close> after a successful \<open>push_peer\<close> hands back exactly the peer
  that was pushed, and leaves the bucket with the contents it had before.
\<close>

theorem pop_push_peer:
  assumes "wf_bucket d" and "push_peer alc d x = Inr d1"
  shows "\<exists>d2. pop_peer d1 buf = Inr (d2, x) \<and> wf_bucket d2 \<and> elems d2 = elems d"
  using pa.arr.pop_push [OF assms] .

theorem pop_push_peer_witness:
  "\<exists>d1 d2. push_peer zero_alloc (bucket_of [zero_peer, zero_peer]) (zero_peer\<lparr>p_port := 7\<rparr>) = Inr d1 \<and>
     pop_peer d1 zero_peer = Inr (d2, zero_peer\<lparr>p_port := 7\<rparr>) \<and> elems d2 = [zero_peer, zero_peer]"
proof -
  let ?d = "bucket_of [zero_peer, zero_peer]" and ?x = "zero_peer\<lparr>p_port := 7\<rparr>"
  have wf: "wf_bucket ?d" and e: "elems ?d = [zero_peer, zero_peer]"
    by (simp_all add: wf_bucket_of)
  have "\<exists>d1. push_peer zero_alloc ?d ?x = Inr d1"
    by (rule pa.push_succeeds [OF wf])
       (simp_all add: zero_alloc_def sizeof_peer_def PTRDIFF_MAX_def)
  then obtain d1 where p: "push_peer zero_alloc ?d ?x = Inr d1" by blast
  then show ?thesis using pop_push_peer [OF wf p, of zero_peer] e by auto
qed

text \<open>
  \<open>hash\<close> returns exactly on NUL-terminated arrays, its result is a valid slot number, and on
  7-bit text it is the published FNV-1a hash of the bytes before the NUL, reduced modulo ten. (On
  other bytes the signed \<open>char\<close> makes it differ from FNV-1a.)
\<close>

theorem hash_is_fnv1a:
  "(\<exists>h. hash key = Inr h) = (0 \<in> set key) \<and>
   (\<forall>h. hash key = Inr h \<longrightarrow> unat h < MAX_PEER_BUCKETS) \<and>
   (0 \<in> set key \<and> (\<forall>b \<in> set (cstr key). b < 128) \<longrightarrow> hash key = Inr (fnv1a (cstr key) mod 10))"
  using hash_iff [of key] hash_bound [of key]
  by (auto simp: hash_def hash_loop_foldl foldl_fnv fnv1a_def MAX_PEER_BUCKETS_def)

theorem hash_is_fnv1a_witness:
  "hash (char_array 36 ''13'') = Inr (fnv1a (lit ''13'') mod 10)"
proof -
  have "0 \<in> set (char_array 36 ''13'')" and "cstr (char_array 36 ''13'') = lit ''13''"
    and "\<forall>b \<in> set (lit ''13''). b < 128"
    by (simp_all add: eval)
  then show ?thesis using hash_is_fnv1a [of "char_array 36 ''13''"] by simp
qed

text \<open>
  C4. Refinement of the peer table: on a well-formed table and a terminated key, \<open>set_peer\<close> either
  appends the peer to the list of the hashed slot and leaves every other slot's list alone, keeping
  the table well formed, or ends the process with status 1. It never faults.
\<close>

theorem set_peer_refines:
  assumes "wf_table t" and "hash key = Inr h"
  shows "(\<exists>t'. set_peer alc t key x = Inr t' \<and> wf_table t' \<and>
            peers_at t' = (peers_at t)(unat h := peers_at t (unat h) @ [x])) \<or>
         set_peer alc t key x = Inl (Exit 1)"
  using set_peer_ok [OF assms] set_peer_stops [OF assms] by (cases "set_peer alc t key x") auto

theorem set_peer_refines_witness:
  "\<exists>t'. set_peer zero_alloc zero_table (char_array 36 ''13'') zero_peer = Inr t' \<and> wf_table t' \<and>
      peers_at t' = (peers_at zero_table)(9 := [zero_peer])"
  using set_peer_refines [OF wf_zero_table hash_13, of zero_alloc zero_peer]
    set_peer_zero_table [OF hash_13, of zero_peer]
  by (auto simp: peers_at_zero_table MAX_PEER_BUCKETS_def)

text \<open>
  What \<open>get_peer_bucket\<close> returns on any table whose hashed slot is not null, whatever the header
  of that slot holds: the hashed slot when its key is at most the hash, or is the largest 32-bit
  number (the search increments it to 0 and starts over), and a null pointer otherwise. The search
  loop always ends.
\<close>

theorem get_peer_bucket_exact:
  assumes "hash key = Inr h" and "slot t (unat h) = Inr b"
  shows "get_peer_bucket t key =
    Inr (if da_key b \<le> h \<or> da_key b = - 1 then Some (unat h) else None)"
proof -
  have "h < 10"
    using hash_bound [OF assms(1)] by (simp add: MAX_PEER_BUCKETS_def word_less_nat_alt)
  then show ?thesis using assms by (simp add: get_peer_bucket_def key_search_iff)
qed

theorem get_peer_bucket_exact_witness:
  "get_peer_bucket (replicate 10 (Some ((bucket_of [zero_peer])\<lparr>da_key := 0xFFFFFFFF\<rparr>)))
     (char_array 36 ''13'') = Inr (Some 9)"
proof -
  let ?b = "(bucket_of [zero_peer])\<lparr>da_key := 0xFFFFFFFF\<rparr>"
  have "slot (replicate 10 (Some ?b)) (unat (9 :: u32)) = Inr ?b" by (simp add: slot_def)
  from get_peer_bucket_exact [OF hash_13 this] show ?thesis by simp
qed

text \<open>
  C8. Round trip: a peer stored under a key is found again. After a successful \<open>set_peer\<close>,
  \<open>get_peer_bucket\<close> on any key with the same bytes before the NUL returns the slot whose last peer
  is the stored one; the lists of all other slots are unchanged.
\<close>

theorem get_after_set_peer:
  assumes "wf_table t" and "hash key = Inr h" and "set_peer alc t key x = Inr t'"
    and "0 \<in> set key'" and "cstr key' = cstr key"
  shows "get_peer_bucket t' key' = Inr (Some (unat h)) \<and> last (peers_at t' (unat h)) = x \<and>
    (\<forall>j. j \<noteq> unat h \<longrightarrow> peers_at t' j = peers_at t j)"
proof -
  have "0 \<in> set key" using assms(2) hash_iff by blast
  then have "hash key' = Inr h" using hash_cstr [of key' key] assms(2,4,5) by simp
  then have k': "slot_of key' = Inr (unat h)" and k: "slot_of key = Inr (unat h)"
    using assms(2) by (simp_all add: slot_of_def)
  then show ?thesis
    using pt.look_after_put [OF assms(1) k assms(3)] pt.look_alias [OF assms(1) k k' assms(3)]
      pt.put_elsewhere [OF assms(1) k assms(3)] by simp
qed

theorem get_after_set_peer_witness:
  "\<exists>t'. set_peer zero_alloc zero_table (char_array 36 ''13'') zero_peer = Inr t' \<and>
     get_peer_bucket t' (char_array 16 ''13'') = Inr (Some 9) \<and> last (peers_at t' 9) = zero_peer"
proof -
  obtain t' where t': "set_peer zero_alloc zero_table (char_array 36 ''13'') zero_peer = Inr t'"
    using set_peer_zero_table [OF hash_13] by blast
  have "0 \<in> set (char_array 16 ''13'')" and "cstr (char_array 16 ''13'') = cstr (char_array 36 ''13'')"
    by (simp_all add: eval)
  from get_after_set_peer [OF wf_zero_table hash_13 t' this] t' show ?thesis by auto
qed

text \<open>
  Two info hashes whose hash values are equal share one bucket, although the comment in
  \<open>set_peer\<close> promises a different bucket for the second one: on a well-formed table the peer stored
  under the first key is found under the second.
\<close>

theorem colliding_keys_share_bucket:
  assumes "wf_table t" and "hash key = Inr h" and "hash key' = Inr h"
    and "set_peer alc t key x = Inr t'"
  shows "get_peer_bucket t' key' = get_peer_bucket t' key \<and>
    get_peer_bucket t' key' = Inr (Some (unat h)) \<and> x \<in> set (peers_at t' (unat h))"
proof -
  have k: "slot_of key = Inr (unat h)" and k': "slot_of key' = Inr (unat h)"
    using assms(2,3) by (simp_all add: slot_of_def)
  show ?thesis
    using pt.look_alias [OF assms(1) k k' assms(4)] pt.look_after_put [OF assms(1) k assms(4)] by simp
qed

theorem colliding_keys_share_bucket_witness:
  "\<exists>t'. set_peer zero_alloc zero_table (char_array 36 ''13'') zero_peer = Inr t' \<and>
     get_peer_bucket t' (char_array 36 ''19'') = Inr (Some 9) \<and> zero_peer \<in> set (peers_at t' 9)"
proof -
  obtain t' where t': "set_peer zero_alloc zero_table (char_array 36 ''13'') zero_peer = Inr t'"
    using set_peer_zero_table [OF hash_13] by blast
  from colliding_keys_share_bucket [OF wf_zero_table hash_13 hash_19 t'] t' show ?thesis by auto
qed

text \<open>
  \<open>init_peer_table\<close> makes a well-formed table of ten empty buckets when every allocation
  succeeds and the new memory has the \<open>active\<close> flags clear: the code itself does not clear them.
\<close>

theorem init_peer_table_wf:
  assumes "length t = MAX_PEER_BUCKETS"
    and "\<forall>i < MAX_PEER_BUCKETS. \<exists>m. mem i = Some m \<and> \<not> da_active m \<and> alc i 80 \<noteq> None"
  shows "wf_table (init_peer_table mem alc t) \<and>
    (\<forall>i < MAX_PEER_BUCKETS. peers_at (init_peer_table mem alc t) i = [])"
  using wf_table_init [OF assms(1), of mem alc] assms(2) by blast

theorem init_peer_table_wf_witness:
  "wf_table (init_peer_table zero_mem (\<lambda>_. zero_alloc) (replicate 10 None))"
  using init_peer_table_wf [of "replicate 10 None" zero_mem "\<lambda>_. zero_alloc"]
  by (simp add: MAX_PEER_BUCKETS_def zero_mem_def)

text \<open>
  With other memory contents the table loses peers: when the hashed slot's indeterminate header
  reads as active with a key that is not its index, and the next slot reads as active too,
  \<open>set_peer\<close> returns normally and stores nothing, however many other buckets are free.
\<close>

theorem set_peer_drops_on_stale_header:
  assumes "hash key = Inr h" and "unat h + 1 < MAX_PEER_BUCKETS"
    and "slot t (unat h) = Inr b" "da_active b" "da_key b \<noteq> h"
    and "slot t (unat h + 1) = Inr c" "da_active c"
  shows "set_peer alc t key x = Inr t"
  using assms by (simp add: set_peer_def)

definition junk_mem :: "nat \<Rightarrow> peer_bucket_t option" where
  "junk_mem i = Some \<lparr>da_active = True, da_key = 77, da_cap = 0, da_len = 0, da_data = []\<rparr>"

theorem set_peer_drops_on_stale_header_witness:
  "let t = init_peer_table junk_mem (\<lambda>_. zero_alloc) (replicate 10 None)
   in hash (char_array 36 ''12'') = Inr 0 \<and>
      set_peer zero_alloc t (char_array 36 ''12'') zero_peer = Inr t"
proof -
  let ?t = "init_peer_table junk_mem (\<lambda>_. zero_alloc) (replicate 10 None)"
  have h: "hash (char_array 36 ''12'') = Inr 0"
    by (simp add: hash_def HASH_OFFSET_def PRIME_def MAX_PEER_BUCKETS_def eval)
  have s: "\<exists>b. slot ?t i = Inr b \<and> da_active b \<and> da_key b = 77" if "i < 10" for i
  proof -
    obtain d where "new_peer_array (junk_mem i) zero_alloc = Some d" "da_active d" "da_key d = 77"
      using new_peer_array_Some [of zero_alloc] by (force simp: junk_mem_def)
    then show ?thesis using slot_init [of "replicate 10 None" i] that by (simp add: MAX_PEER_BUCKETS_def)
  qed
  obtain b c where "slot ?t 0 = Inr b" "da_active b" "da_key b = 77" "slot ?t 1 = Inr c" "da_active c"
    using s [of 0] s [of 1] by auto
  then have "set_peer zero_alloc ?t (char_array 36 ''12'') zero_peer = Inr ?t"
    by (intro set_peer_drops_on_stale_header [OF h, of ?t b c])
       (simp_all add: MAX_PEER_BUCKETS_def)
  then show ?thesis using h by (simp add: Let_def)
qed

end
