(* ===== verification/Nodes.thy ===== *)
theory Nodes
  imports Peers "HOL-Library.Multiset"
begin

text \<open>
  \<open>nodes.h\<close> and \<open>nodes.c\<close> without the two functions that send messages: nodes, growable arrays of
  nodes, the bootstrap of the neighbor list from the descriptor's origins, the XOR distance and
  the insertion sort of the neighbors by distance.
\<close>

subsection \<open>Data\<close>

definition ID_SIZE :: nat where
  "ID_SIZE = 36"

record node_t =
  n_id :: "u8 list"
  n_ip :: "u8 list"
  n_port :: u16
  n_distance :: u32
  n_peer_table :: peer_table

record origin =
  o_port :: u16
  o_ip :: "u8 list"

type_synonym node_array = "node_t darray"

text \<open>36 + 16 + 2 bytes, 2 of padding, 4 of distance, 4 of padding and ten pointers.\<close>

definition sizeof_node :: nat where
  "sizeof_node = 144"

definition zero_node :: node_t where
  "zero_node = \<lparr>n_id = replicate ID_SIZE 0, n_ip = replicate INET_ADDRSTRLEN 0, n_port = 0,
     n_distance = 0, n_peer_table = replicate MAX_PEER_BUCKETS None\<rparr>"

definition zero_origin :: origin where
  "zero_origin = \<lparr>o_port = 0, o_ip = replicate INET_ADDRSTRLEN 0\<rparr>"

subsection \<open>Growable arrays of nodes\<close>

definition new_node_array :: "node_array option \<Rightarrow> node_t allocator \<Rightarrow> node_array option" where
  "new_node_array mem alc =
     (case mem of
        None \<Rightarrow> None
      | Some dyn_arr \<Rightarrow>
          (case malloc_block alc (of_nat sizeof_node * INITIAL_CAP) sizeof_node of
             None \<Rightarrow> None
           | Some arr \<Rightarrow> Some (dyn_arr\<lparr>da_data := arr, da_len := 0, da_cap := INITIAL_CAP\<rparr>)))"

definition resize_node_array :: "node_t allocator \<Rightarrow> node_array \<Rightarrow> node_array outcome" where
  "resize_node_array alc d_arr =
     (case realloc_block alc (da_cap d_arr * of_nat sizeof_node * 2) sizeof_node (da_data d_arr) of
        None \<Rightarrow> Inl (Exit 1)
      | Some ptr \<Rightarrow> Inr (d_arr\<lparr>da_data := ptr, da_cap := da_cap d_arr * 2\<rparr>))"

definition push_node :: "node_t allocator \<Rightarrow> node_array \<Rightarrow> node_t \<Rightarrow> node_array outcome" where
  "push_node alc d_arr x =
     bind_res (if da_len d_arr = da_cap d_arr then resize_node_array alc d_arr else Inr d_arr)
       (\<lambda>d. if unat (da_len d) < length (da_data d)
            then Inr (d\<lparr>da_data := (da_data d)[unat (da_len d) := x], da_len := da_len d + 1\<rparr>)
            else Inl OOB_write)"

definition pop_node :: "node_array \<Rightarrow> node_t \<Rightarrow> (node_array \<times> node_t) outcome" where
  "pop_node d_arr peer_buf =
     (if da_len d_arr < 1 then Inr (d_arr, peer_buf)
      else (let i = unat (da_len d_arr - 1)
            in if i < length (da_data d_arr)
               then Inr (d_arr\<lparr>da_data := (da_data d_arr)[i := zero_node], da_len := da_len d_arr - 1\<rparr>,
                         da_data d_arr ! i)
               else Inl OOB_read))"

interpretation na: doubling_array sizeof_node zero_node new_node_array resize_node_array push_node pop_node
  by unfold_locales
    (simp_all add: sizeof_node_def new_node_array_def resize_node_array_def push_node_def pop_node_def)

abbreviation wf_nodes :: "node_array \<Rightarrow> bool" where
  "wf_nodes \<equiv> wf_array sizeof_node"

subsection \<open>Bootstrapping\<close>

text \<open>
  The origins live in allocated blocks; a pointer to one is a block number and an offset. The
  argument \<open>nodes\<close> is an array of such pointers, and \<open>(*nodes)[i]\<close> is the origin \<open>i\<close> places after
  the one that the first of them points to.
\<close>

type_synonym origin_ptr = "nat \<times> nat"
type_synonym origin_store = "origin list list"

definition load_origin :: "origin_store \<Rightarrow> origin_ptr \<Rightarrow> origin outcome" where
  "load_origin st p =
     (if fst p < length st \<and> snd p < length (st ! fst p) then Inr (st ! fst p ! snd p)
      else Inl OOB_read)"

definition store_origin :: "origin_store \<Rightarrow> origin_ptr \<Rightarrow> origin \<Rightarrow> origin_store outcome" where
  "store_origin st p x =
     (if fst p < length st \<and> snd p < length (st ! fst p)
      then Inr (st[fst p := (st ! fst p)[snd p := x]])
      else Inl OOB_write)"

definition load_ptr :: "origin_ptr list \<Rightarrow> nat \<Rightarrow> origin_ptr outcome" where
  "load_ptr nodes i = (if i < length nodes then Inr (nodes ! i) else Inl OOB_read)"

definition bootstrap_one ::
    "node_t allocator \<Rightarrow> origin_ptr list \<Rightarrow> origin_store \<times> node_array \<Rightarrow> nat \<Rightarrow>
       (origin_store \<times> node_array) outcome" where
  "bootstrap_one alc nodes s i =
     (case s of (st, dst) \<Rightarrow>
     bind_res (load_ptr nodes i) (\<lambda>current_node_origin.
     bind_res (load_ptr nodes 0) (\<lambda>first.
     bind_res (load_origin st (fst first, snd first + i)) (\<lambda>src.
     let new_node = zero_node\<lparr>n_id := char_array ID_SIZE ''Assign an ID'', n_distance := 0,
                              n_port := o_port src\<rparr> in
     bind_res (load_origin st current_node_origin) (\<lambda>cur.
     bind_res (strcpy (o_ip cur) (n_ip new_node)) (\<lambda>ip.
     bind_res (store_origin st current_node_origin (cur\<lparr>o_ip := ip\<rparr>)) (\<lambda>st'.
     bind_res (push_node alc dst new_node) (\<lambda>dst'. Inr (st', dst')))))))))"

text \<open>
  The loop that prints the neighbors reads \<open>(*dst->data)[i].id\<close> and then \<open>(*dst->data[i]).port\<close>.
  In the second expression \<open>dst->data[i]\<close> is the \<open>i\<close>-th array of \<open>INITIAL_CAP\<close> nodes, so the port
  read is that of element \<open>2 * i\<close>.
\<close>

definition print_neighbor :: "node_array \<Rightarrow> nat \<Rightarrow> unit outcome" where
  "print_neighbor dst i =
     (if i < length (da_data dst) then
        bind_res (c_str (n_id (da_data dst ! i))) (\<lambda>_.
        if unat INITIAL_CAP * i < length (da_data dst) then Inr () else Inl OOB_read)
      else Inl OOB_read)"

definition bootstrap_neigbors ::
    "node_t allocator \<Rightarrow> origin_store \<Rightarrow> origin_ptr list \<Rightarrow> nat \<Rightarrow> node_array \<Rightarrow>
       (origin_store \<times> node_array) outcome" where
  "bootstrap_neigbors alc st nodes n_count dst =
     bind_res (fold_res (bootstrap_one alc nodes) (st, dst) [0..<n_count]) (\<lambda>s.
     bind_res (fold_res (\<lambda>_ i. print_neighbor (snd s) i) () [0..<n_count]) (\<lambda>_. Inr s))"

subsection \<open>XOR distance and sorting\<close>

definition XORdistance :: "u8 list \<Rightarrow> node_t \<Rightarrow> node_t outcome" where
  "XORdistance info_hash node =
     bind_res (strlen info_hash) (\<lambda>n.
     fold_res (\<lambda>node i.
         if i < length (n_id node)
         then Inr (node\<lparr>n_distance := n_distance node + (scast (info_hash ! i) XOR scast (n_id node ! i))\<rparr>)
         else Inl OOB_read)
       node [0..<n])"

text \<open>The inner loop of \<open>compare_hash\<close>: the node at \<open>j\<close> moves down past nodes of larger distance.\<close>

fun sink :: "node_t list \<Rightarrow> nat \<Rightarrow> node_t list" where
  "sink xs 0 = xs"
| "sink xs (Suc j) =
     (if n_distance (xs ! Suc j) < n_distance (xs ! j)
      then sink (xs[Suc j := xs ! j, j := xs ! Suc j]) j
      else xs)"

definition compare_hash :: "node_array \<Rightarrow> nat \<Rightarrow> u8 list \<Rightarrow> node_array outcome" where
  "compare_hash neighbors n_count info_hash =
     bind_res
       (fold_res (\<lambda>xs i. if i < length xs
                        then bind_res (XORdistance info_hash (xs ! i)) (\<lambda>nd. Inr (xs[i := nd]))
                        else Inl OOB_write)
          (da_data neighbors) [0..<n_count])
       (\<lambda>xs. Inr (neighbors\<lparr>da_data := fold (\<lambda>i ys. sink ys i) [0..<n_count] xs\<rparr>))"

subsection \<open>Facts about the XOR distance\<close>

definition xor_byte :: "u8 \<Rightarrow> u8 \<Rightarrow> u32" where
  "xor_byte a b = scast a XOR scast b"

definition xor_sum :: "u8 list \<Rightarrow> u8 list \<Rightarrow> u32" where
  "xor_sum as bs = sum_list (map2 xor_byte as bs)"

definition xor_node :: "u8 list \<Rightarrow> node_t \<Rightarrow> node_t" where
  "xor_node info_hash nd = nd\<lparr>n_distance := n_distance nd + xor_sum (cstr info_hash) (n_id nd)\<rparr>"

lemma map2_take_snoc:
  "n < length xs \<Longrightarrow> n < length ys \<Longrightarrow>
     map2 f (take (Suc n) xs) ys = map2 f (take n xs) ys @ [f (xs ! n) (ys ! n)]"
proof (induction n arbitrary: xs ys)
  case 0
  then show ?case by (cases xs; cases ys) auto
next
  case (Suc n)
  then show ?case by (cases xs; cases ys) auto
qed

lemma cstr_take: "cstr xs = take (length (cstr xs)) xs"
  by (induction xs) auto

lemma XORdistance_loop:
  assumes "n \<le> length xs" "n \<le> length (n_id nd)"
  shows "fold_res (\<lambda>node i.
         if i < length (n_id node)
         then Inr (node\<lparr>n_distance := n_distance node + (scast (xs ! i) XOR scast (n_id node ! i))\<rparr>)
         else Inl OOB_read) nd [0..<n]
    = Inr (nd\<lparr>n_distance := n_distance nd + xor_sum (take n xs) (n_id nd)\<rparr>)"
  using assms
proof (induction n)
  case 0
  then show ?case by (simp add: xor_sum_def)
next
  case (Suc n)
  then show ?case
    by (simp add: fold_res_append xor_sum_def xor_byte_def map2_take_snoc add.assoc)
qed

lemma XORdistance_eq:
  assumes "0 \<in> set info_hash" "length (cstr info_hash) \<le> length (n_id nd)"
  shows "XORdistance info_hash nd = Inr (xor_node info_hash nd)"
proof -
  have "strlen info_hash = Inr (length (cstr info_hash))"
    using assms(1) by (simp add: strlen_def c_str_def)
  moreover have "length (cstr info_hash) \<le> length info_hash"
    using cstr_less_length [OF assms(1)] by simp
  ultimately show ?thesis
    using XORdistance_loop [of "length (cstr info_hash)" info_hash nd] assms(2)
    by (simp add: XORdistance_def xor_node_def flip: cstr_take)
qed

lemma xor_cancel_nat:
  fixes a b c :: nat
  shows "(a XOR b) XOR (b XOR c) = a XOR c" "a XOR b = 0 \<longleftrightarrow> a = b"
proof -
  show c: "(a XOR b) XOR (b XOR c) = a XOR c" for a b c :: nat
    by (rule bit_eqI) (auto simp: bit_simps)
  show "a XOR b = 0 \<longleftrightarrow> a = b"
    using c [of a b 0] by (metis xor.right_neutral xor_self_eq xor.left_neutral)
qed

lemma xor_le_add_nat:
  fixes a b :: nat
  shows "a XOR b \<le> a + b"
proof (induction a arbitrary: b rule: less_induct)
  case (less a)
  show ?case
  proof (cases "a = 0")
    case False
    then have "(a div 2) XOR (b div 2) \<le> a div 2 + b div 2" by (intro less.IH) simp
    moreover have "(of_bool (odd a \<noteq> odd b) :: nat) \<le> a mod 2 + b mod 2" by (auto simp: odd_iff_mod_2_eq_one)
    moreover have "a + b = 2 * (a div 2 + b div 2) + (a mod 2 + b mod 2)" by presburger
    moreover have "e + 2 * x \<le> s" if "x \<le> p + q" "e \<le> m" "s = 2 * (p + q) + m" for e x p q m s :: nat
      using that by simp
    ultimately show ?thesis by (subst xor_rec) blast
  qed simp
qed

lemma xor_byte_ascii:
  assumes "a < 128" "b < 128"
  shows "unat (xor_byte a b) = unat a XOR unat b"
proof -
  have "unat a < 2 ^ LENGTH(8)" "unat b < 2 ^ LENGTH(8)" by (rule unsigned_less)+
  then have "take_bit 32 (unat a) = unat a" "take_bit 32 (unat b) = unat b"
    by (simp_all add: take_bit_nat_eq_self)
  then show ?thesis
    by (simp add: xor_byte_def scast_ascii assms unsigned_xor_eq unsigned_ucast_eq)
qed

lemma xor_nat_bound:
  fixes a b :: nat
  shows "a < 2 ^ n \<Longrightarrow> b < 2 ^ n \<Longrightarrow> a XOR b < 2 ^ n"
  by (metis take_bit_nat_eq_self take_bit_nat_less_exp take_bit_xor)


lemma xor_byte_bound: "a < 128 \<Longrightarrow> b < 128 \<Longrightarrow> unat (xor_byte a b) < 128"
  using xor_nat_bound [of "unat a" 7 "unat b"]
  by (simp add: xor_byte_ascii word_less_nat_alt)

lemma unat_sum_list_bound:
  fixes ws :: "u32 list"
  assumes "\<forall>w \<in> set ws. unat w < 128" "length ws \<le> 2 ^ 16"
  shows "unat (sum_list ws) = (\<Sum>w\<leftarrow>ws. unat w)" "(\<Sum>w\<leftarrow>ws. unat w) \<le> 127 * length ws"
proof -
  show b: "(\<Sum>w\<leftarrow>ws. unat w) \<le> 127 * length ws"
    using assms(1) by (induction ws) auto
  have "unat (sum_list ws) = (\<Sum>w\<leftarrow>ws. unat w) mod 2 ^ 32"
    by (induction ws) (simp_all add: unat_word_ariths mod_simps)
  moreover have "(\<Sum>w\<leftarrow>ws. unat w) < 2 ^ 32" using b assms(2) by simp
  ultimately show "unat (sum_list ws) = (\<Sum>w\<leftarrow>ws. unat w)" by simp
qed

definition ascii :: "u8 list \<Rightarrow> bool" where
  "ascii bs \<longleftrightarrow> list_all (\<lambda>b. b < 128) bs"

lemma unat_xor_sum:
  assumes "ascii as" "ascii bs" "length as \<le> ID_SIZE"
  shows "unat (xor_sum as bs) = (\<Sum>(a, b)\<leftarrow>zip as bs. unat a XOR unat b)"
    and "unat (xor_sum as bs) \<le> 127 * length as"
proof -
  let ?ws = "map2 xor_byte as bs"
  have ab: "a < 128 \<and> b < 128" if "(a, b) \<in> set (zip as bs)" for a b
    using that assms(1,2) by (auto simp: ascii_def list_all_iff dest: set_zip_leftD set_zip_rightD)
  have w: "\<forall>w \<in> set ?ws. unat w < 128" using ab by (auto intro!: xor_byte_bound)
  have l: "length ?ws \<le> 2 ^ 16" "length ?ws \<le> length as" using assms(3) by (auto simp: ID_SIZE_def)
  note s = unat_sum_list_bound [OF w l(1)]
  have "(\<Sum>w\<leftarrow>?ws. unat w) = (\<Sum>(a, b)\<leftarrow>zip as bs. unat a XOR unat b)"
    using ab by (auto intro!: arg_cong [where f = sum_list] simp: xor_byte_ascii comp_def)
  then show "unat (xor_sum as bs) = (\<Sum>(a, b)\<leftarrow>zip as bs. unat a XOR unat b)"
    using s(1) by (simp add: xor_sum_def)
  have "unat (xor_sum as bs) \<le> 127 * length ?ws" using s by (simp only: xor_sum_def)
  then show "unat (xor_sum as bs) \<le> 127 * length as" using l(2) by (meson le_trans mult_le_mono2)
qed

lemma xor_sum_zero_iff:
  assumes "ascii as" "ascii bs" "length as = length bs" "length as \<le> ID_SIZE"
  shows "xor_sum as bs = 0 \<longleftrightarrow> as = bs"
proof -
  have "(\<Sum>(a, b)\<leftarrow>zip as bs. unat a XOR unat b) = 0 \<longleftrightarrow> as = bs"
    using assms(3) by (induction as bs rule: list_induct2)
      (auto simp: xor_cancel_nat word_unat_eq_iff)
  then show ?thesis
    using unat_xor_sum(1) [OF assms(1,2,4)] by (metis unat_0_iff)
qed

lemma xor_sum_sym: "length as = length bs \<Longrightarrow> xor_sum as bs = xor_sum bs as"
  by (induction as bs rule: list_induct2) (simp_all add: xor_sum_def xor_byte_def xor.commute)

lemma xor_triangle_nat:
  fixes a b c :: nat
  shows "a XOR c \<le> (a XOR b) + (b XOR c)"
  using xor_le_add_nat [of "a XOR b" "b XOR c"] by (simp only: xor_cancel_nat)

lemma xor_sum_triangle:
  assumes "ascii as" "ascii bs" "ascii cs" "length as = length bs" "length bs = length cs"
    "length as \<le> ID_SIZE"
  shows "unat (xor_sum as cs) \<le> unat (xor_sum as bs) + unat (xor_sum bs cs)"
proof -
  have "(\<Sum>(a, b)\<leftarrow>zip as cs. unat a XOR unat b) \<le>
      (\<Sum>(a, b)\<leftarrow>zip as bs. unat a XOR unat b) + (\<Sum>(a, b)\<leftarrow>zip bs cs. unat a XOR unat b)"
    using assms(4,5)
  proof (induction as bs cs rule: list_induct3)
    case (Cons a as b bs c cs)
    then show ?case using xor_triangle_nat [of "unat a" "unat c" "unat b"] by simp
  qed simp
  then show ?thesis using assms by (simp add: unat_xor_sum(1))
qed

subsection \<open>Facts about the sort\<close>

definition insert_after :: "node_t \<Rightarrow> node_t list \<Rightarrow> node_t list" where
  "insert_after x ys =
     takeWhile (\<lambda>y. n_distance y \<le> n_distance x) ys @ x #
     dropWhile (\<lambda>y. n_distance y \<le> n_distance x) ys"

lemma sink_insert:
  "sorted (map n_distance ys) \<Longrightarrow> sink (ys @ x # zs) (length ys) = insert_after x ys @ zs"
proof (induction ys arbitrary: zs rule: rev_induct)
  case Nil
  then show ?case by (simp add: insert_after_def)
next
  case (snoc y ys)
  then have s: "sorted (map n_distance ys)" and le: "\<forall>v \<in> set ys. n_distance v \<le> n_distance y"
    by (auto simp: sorted_append)
  show ?case
  proof (cases "n_distance x < n_distance y")
    case True
    have "sink ((ys @ [y]) @ x # zs) (length (ys @ [y])) = sink (ys @ x # (y # zs)) (length ys)"
      using True by (simp add: nth_append list_update_append)
    also have "\<dots> = insert_after x ys @ y # zs" by (rule snoc.IH [OF s])
    also have "\<dots> = insert_after x (ys @ [y]) @ zs"
      using linorder_not_le [THEN iffD2, OF True] by (simp add: insert_after_def takeWhile_append dropWhile_append)
    finally show ?thesis .
  next
    case False
    then have "\<forall>v \<in> set ys. n_distance v \<le> n_distance x" using le by fastforce
    then have "insert_after x (ys @ [y]) = ys @ [y, x]"
      using False by (simp add: insert_after_def takeWhile_append dropWhile_append)
    then show ?thesis using False by (simp add: nth_append)
  qed
qed

lemma mset_insert_after: "mset (insert_after x ys) = mset (ys @ [x])"
proof -
  have "mset (takeWhile P ys) + mset (dropWhile P ys) = mset ys" for P
    by (metis mset_append takeWhile_dropWhile_id)
  then show ?thesis by (simp add: insert_after_def)
qed

lemma sorted_insert_after:
  assumes "sorted (map n_distance ys)"
  shows "sorted (map n_distance (insert_after x ys))"
  using assms
proof (induction ys)
  case (Cons y ys)
  then show ?case
    by (cases "n_distance y \<le> n_distance x")
       (auto simp: insert_after_def dest: set_takeWhileD set_dropWhileD)
qed (simp add: insert_after_def)

lemma filter_insert_after:
  assumes "sorted (map n_distance ys)"
  shows "filter (\<lambda>v. k = n_distance v) (insert_after x ys) = filter (\<lambda>v. k = n_distance v) (ys @ [x])"
  using assms
proof (induction ys)
  case (Cons y ys)
  show ?case
  proof (cases "n_distance y \<le> n_distance x")
    case True
    then have i: "insert_after x (y # ys) = y # insert_after x ys" by (simp add: insert_after_def)
    have "sorted (map n_distance ys)" using Cons.prems by simp
    from Cons.IH [OF this] show ?thesis by (simp only: i append_Cons filter.simps)
  next
    case False
    then have "\<forall>v \<in> set (y # ys). n_distance v \<noteq> n_distance x" using Cons.prems by fastforce
    then have "k = n_distance x \<Longrightarrow> filter (\<lambda>v. k = n_distance v) (y # ys) = []"
      by (auto simp: filter_empty_conv)
    then show ?thesis using False by (auto simp: insert_after_def)
  qed
qed (simp add: insert_after_def)

lemma sort_prefix:
  assumes "n \<le> length xs"
  shows "fold (\<lambda>i ys. sink ys i) [0..<n] xs = sort_key n_distance (take n xs) @ drop n xs"
  using assms
proof (induction n)
  case (Suc n)
  let ?s = "sort_key n_distance (take n xs)"
  have "fold (\<lambda>i ys. sink ys i) [0..<Suc n] xs = sink (?s @ drop n xs) n"
    using Suc by simp
  also have "\<dots> = sink (?s @ xs ! n # drop (Suc n) xs) (length ?s)"
    using Suc.prems by (simp add: Cons_nth_drop_Suc)
  also have "\<dots> = insert_after (xs ! n) ?s @ drop (Suc n) xs"
    by (rule sink_insert) simp
  also have "insert_after (xs ! n) ?s = sort_key n_distance (take (Suc n) xs)"
  proof (rule sym, rule properties_for_sort_key)
    show "mset (insert_after (xs ! n) ?s) = mset (take (Suc n) xs)"
      using Suc.prems by (simp add: mset_insert_after take_Suc_conv_app_nth)
    show "filter (\<lambda>v. n_distance k = n_distance v) (insert_after (xs ! n) ?s) =
        filter (\<lambda>v. n_distance k = n_distance v) (take (Suc n) xs)" for k
      using Suc.prems filter_insert_after [of ?s "n_distance k" "xs ! n"]
        sort_key_stable [where f = n_distance and k = "n_distance k" and xs = "take n xs"]
      by (simp add: take_Suc_conv_app_nth eq_commute)
    show "sorted (map n_distance (insert_after (xs ! n) ?s))"
      by (rule sorted_insert_after) simp
  qed
  finally show ?case .
qed simp

lemma distance_pass:
  assumes "0 \<in> set info_hash" "\<forall>nd \<in> set xs. length (cstr info_hash) \<le> length (n_id nd)" "n \<le> length xs"
  shows "fold_res (\<lambda>xs i. if i < length xs
            then bind_res (XORdistance info_hash (xs ! i)) (\<lambda>nd. Inr (xs[i := nd]))
            else Inl OOB_write) xs [0..<n]
    = Inr (map (xor_node info_hash) (take n xs) @ drop n xs)"
  using assms(3)
proof (induction n)
  case (Suc n)
  then have "length (cstr info_hash) \<le> length (n_id (xs ! n))" using assms(2) by simp
  then have "XORdistance info_hash (xs ! n) = Inr (xor_node info_hash (xs ! n))"
    by (rule XORdistance_eq [OF assms(1)])
  then show ?case
    using Suc
    by (simp add: fold_res_append nth_append list_update_append min_def take_Suc_conv_app_nth
        flip: Cons_nth_drop_Suc)
qed simp

lemma compare_hash_eq:
  assumes "0 \<in> set info_hash" "n \<le> length (da_data na)"
    and "\<forall>nd \<in> set (da_data na). length (cstr info_hash) \<le> length (n_id nd)"
  shows "compare_hash na n info_hash =
    Inr (na\<lparr>da_data := sort_key n_distance (map (xor_node info_hash) (take n (da_data na)))
                       @ drop n (da_data na)\<rparr>)"
proof -
  let ?xs = "map (xor_node info_hash) (take n (da_data na)) @ drop n (da_data na)"
  have "fold (\<lambda>i ys. sink ys i) [0..<n] ?xs = sort_key n_distance (take n ?xs) @ drop n ?xs"
    by (rule sort_prefix) (use assms(2) in simp)
  then show ?thesis
    using assms by (simp add: compare_hash_def distance_pass)
qed

lemma xor_sum_take: "xor_sum as (take (length as) bs) = xor_sum as bs"
proof (induction as arbitrary: bs)
  case (Cons a as)
  then show ?case by (cases bs) (simp_all add: xor_sum_def)
qed (simp add: xor_sum_def)

subsection \<open>Facts about bootstrapping\<close>

definition boot_node :: "u16 \<Rightarrow> node_t" where
  "boot_node p = zero_node\<lparr>n_id := char_array ID_SIZE ''Assign an ID'', n_port := p\<rparr>"

definition erase_ip :: "origin \<Rightarrow> origin" where
  "erase_ip x = x\<lparr>o_ip := 0 # tl (o_ip x)\<rparr>"

lemma cstr_replicate_zero [simp]: "cstr (replicate n 0) = []"
  by (cases n) auto

lemma strcpy_zeros: "dst \<noteq> [] \<Longrightarrow> 0 < n \<Longrightarrow> strcpy dst (replicate n 0) = Inr (0 # tl dst)"
  by (simp add: drop_Suc)

lemma bootstrap_one_eq:
  assumes "i < length nodes" "load_origin st (fst (nodes ! 0), snd (nodes ! 0) + i) = Inr src"
    and "load_origin st (nodes ! i) = Inr cur" "o_ip cur \<noteq> []"
  shows "bootstrap_one alc nodes (st, dst) i =
    bind_res (push_node alc dst (boot_node (o_port src)))
      (\<lambda>dst'. Inr (st[fst (nodes ! i) := (st ! fst (nodes ! i))[snd (nodes ! i) := erase_ip cur]], dst'))"
proof -
  have "store_origin st (nodes ! i) x =
      Inr (st[fst (nodes ! i) := (st ! fst (nodes ! i))[snd (nodes ! i) := x]])" for x
    using assms(3) by (simp add: load_origin_def store_origin_def split: if_splits)
  moreover have "nodes \<noteq> []" using assms(1) by auto
  ultimately show ?thesis
    using assms strcpy_zeros [of "o_ip cur" 16]
    by (simp add: bootstrap_one_def load_ptr_def zero_node_def boot_node_def erase_ip_def
        INET_ADDRSTRLEN_def Let_def del: strcpy_eq_Inr)
qed

lemma bootstrap_one_pushes:
  assumes "bootstrap_one alc nodes (st, dst) i = Inr (st', dst')"
  shows "\<exists>p. push_node alc dst (boot_node p) = Inr dst'"
  using assms
  by (auto simp: bootstrap_one_def bind_res_eq_Inr Let_def boot_node_def zero_node_def
      simp del: strcpy_eq_Inr)

lemma bootstrap_loop_pushes:
  assumes "fold_res (bootstrap_one alc nodes) (st, dst) is = Inr (st', dst')"
  shows "\<exists>ps. length ps = length is \<and> fold_res (push_node alc) dst (map boot_node ps) = Inr dst'"
  using assms
proof (induction "is" arbitrary: st dst)
  case (Cons i "is")
  then obtain st1 dst1 where s1: "bootstrap_one alc nodes (st, dst) i = Inr (st1, dst1)"
    and r: "fold_res (bootstrap_one alc nodes) (st1, dst1) is = Inr (st', dst')"
    by (auto simp: bind_res_eq_Inr)
  obtain p where "push_node alc dst (boot_node p) = Inr dst1"
    using bootstrap_one_pushes [OF s1] by blast
  moreover obtain ps where "length ps = length is"
    "fold_res (push_node alc) dst1 (map boot_node ps) = Inr dst'"
    using Cons.IH [OF r] by blast
  ultimately show ?case by (intro exI [of _ "p # ps"]) simp
qed simp

lemma bootstrap_contents:
  assumes "wf_nodes dst" "bootstrap_neigbors alc st nodes n dst = Inr (st', dst')"
  obtains ps where "length ps = n" "elems dst' = elems dst @ map boot_node ps" "wf_nodes dst'"
    "fold_res (push_node alc) dst (map boot_node ps) = Inr dst'"
    "fold_res (\<lambda>_ i. print_neighbor dst' i) () [0..<n] = Inr ()"
proof -
  from assms(2) obtain u where l: "fold_res (bootstrap_one alc nodes) (st, dst) [0..<n] = Inr (st', dst')"
    and p: "fold_res (\<lambda>_ i. print_neighbor dst' i) () [0..<n] = Inr u"
    by (auto simp: bootstrap_neigbors_def bind_res_eq_Inr)
  from bootstrap_loop_pushes [OF l] obtain ps where ps: "length ps = n"
    "fold_res (push_node alc) dst (map boot_node ps) = Inr dst'" by auto
  then show thesis using that [of ps] na.arr.push_all [OF assms(1) ps(2)] p by simp
qed

lemma load_after_store:
  assumes "load_origin st q = Inr x"
  shows "load_origin (st[fst q := (st ! fst q)[snd q := y]]) q' = (if q' = q then Inr y else load_origin st q')"
  using assms by (cases q; cases q') (auto simp: load_origin_def nth_list_update split: if_splits)

lemma bootstrap_one_ok:
  assumes "bootstrap_one alc nodes (st, dst) i = Inr (st1, dst1)"
  obtains src cur where "i < length nodes" "load_origin st (fst (nodes ! 0), snd (nodes ! 0) + i) = Inr src"
    "load_origin st (nodes ! i) = Inr cur" "push_node alc dst (boot_node (o_port src)) = Inr dst1"
    "st1 = st[fst (nodes ! i) := (st ! fst (nodes ! i))[snd (nodes ! i) := erase_ip cur]]"
proof -
  obtain src cur where l: "i < length nodes" "load_origin st (fst (nodes ! 0), snd (nodes ! 0) + i) = Inr src"
    "load_origin st (nodes ! i) = Inr cur" "o_ip cur \<noteq> []"
    using assms by (auto simp: bootstrap_one_def load_ptr_def bind_res_eq_Inr Let_def zero_node_def INET_ADDRSTRLEN_def
        split: if_splits)
  then show thesis
    using assms bootstrap_one_eq [OF l, of alc dst] by (intro that [of src cur]) (auto simp: bind_res_eq_Inr)
qed

text \<open>After \<open>n\<close> rounds the first \<open>n\<close> origins are erased and their neighbors in the block are pushed.\<close>

definition erased :: "origin_ptr list \<Rightarrow> origin_store \<Rightarrow> origin_store \<Rightarrow> bool" where
  "erased ps st st' \<longleftrightarrow>
     (\<forall>q. load_origin st' q = (if q \<in> set ps then map_sum id erase_ip (load_origin st q) else load_origin st q))"

lemma erase_ip_simps [simp]: "o_port (erase_ip x) = o_port x" "erase_ip (erase_ip x) = erase_ip x" "cstr (o_ip (erase_ip x)) = []"
  by (simp_all add: erase_ip_def)

lemma erasedD:
  "erased ps st st' \<Longrightarrow> load_origin st' q = (if q \<in> set ps then map_sum id erase_ip (load_origin st q) else load_origin st q)"
  unfolding erased_def by blast

lemma erased_port:
  assumes "erased ps st st'" "load_origin st' q = Inr x"
  obtains y where "load_origin st q = Inr y" "o_port y = o_port x"
  using assms(2) erasedD [OF assms(1), of q] that by (cases "load_origin st q") (auto split: if_splits)

lemma bootstrap_loop_exact:
  assumes "fold_res (bootstrap_one alc nodes) (st, dst) [0..<n] = Inr (st', dst')"
  shows "\<exists>ports. length ports = n \<and> fold_res (push_node alc) dst (map boot_node ports) = Inr dst' \<and> n \<le> length nodes \<and>
    (\<forall>i < n. \<exists>x. load_origin st (fst (nodes ! 0), snd (nodes ! 0) + i) = Inr x \<and> ports ! i = o_port x) \<and>
    (\<forall>q \<in> set (take n nodes). \<exists>x. load_origin st q = Inr x) \<and> erased (take n nodes) st st'"
  using assms
proof (induction n arbitrary: st' dst')
  case 0
  then show ?case by (simp add: erased_def)
next
  case (Suc n)
  then obtain st1 dst1 where f: "fold_res (bootstrap_one alc nodes) (st, dst) [0..<n] = Inr (st1, dst1)"
    and one: "bootstrap_one alc nodes (st1, dst1) n = Inr (st', dst')"
    by (auto simp: fold_res_append bind_res_eq_Inr)
  obtain ports where ports: "length ports = n" "fold_res (push_node alc) dst (map boot_node ports) = Inr dst1"
    "\<forall>i < n. \<exists>x. load_origin st (fst (nodes ! 0), snd (nodes ! 0) + i) = Inr x \<and> ports ! i = o_port x"
    "\<forall>q \<in> set (take n nodes). \<exists>x. load_origin st q = Inr x" "erased (take n nodes) st st1"
    using Suc.IH [OF f] by blast
  obtain src cur where o: "n < length nodes" "load_origin st1 (fst (nodes ! 0), snd (nodes ! 0) + n) = Inr src"
    "load_origin st1 (nodes ! n) = Inr cur" "push_node alc dst1 (boot_node (o_port src)) = Inr dst'"
    "st' = st1[fst (nodes ! n) := (st1 ! fst (nodes ! n))[snd (nodes ! n) := erase_ip cur]]"
    by (rule bootstrap_one_ok [OF one])
  obtain x where x: "load_origin st (fst (nodes ! 0), snd (nodes ! 0) + n) = Inr x" "o_port x = o_port src"
    by (rule erased_port [OF ports(5) o(2)])
  obtain y where y: "load_origin st (nodes ! n) = Inr y" by (rule erased_port [OF ports(5) o(3)])
  then have cur: "erase_ip cur = erase_ip y" using erasedD [OF ports(5), of "nodes ! n"] o(3) by (auto split: if_splits)
  have "load_origin st' q = (if q \<in> set (take (Suc n) nodes) then map_sum id erase_ip (load_origin st q) else load_origin st q)" for q
  proof (cases "q = nodes ! n")
    case True
    then show ?thesis using o(1) y cur load_after_store [OF o(3), of "erase_ip cur" q] o(5) by (simp add: take_Suc_conv_app_nth)
  next
    case False
    then show ?thesis using o(1) load_after_store [OF o(3), of "erase_ip cur" q] o(5) erasedD [OF ports(5), of q]
      by (simp add: take_Suc_conv_app_nth)
  qed
  then have "erased (take (Suc n) nodes) st st'" by (simp add: erased_def)
  moreover have "\<forall>i < Suc n. \<exists>z. load_origin st (fst (nodes ! 0), snd (nodes ! 0) + i) = Inr z \<and> (ports @ [o_port src]) ! i = o_port z"
    using ports(1,3) x by (simp add: less_Suc_eq nth_append)
  moreover have "\<forall>q \<in> set (take (Suc n) nodes). \<exists>z. load_origin st q = Inr z"
    using ports(4) y o(1) by (auto simp: take_Suc_conv_app_nth)
  moreover have "fold_res (push_node alc) dst (map boot_node (ports @ [o_port src])) = Inr dst'"
    using ports(2) o(4) by (simp add: fold_res_append)
  ultimately show ?case using ports(1) o(1) by (intro exI [of _ "ports @ [o_port src]"]) simp
qed

lemma print_neighbors_bound:
  assumes "fold_res (\<lambda>_ i. print_neighbor dst i) () [0..<n] = Inr ()" "0 < n"
  shows "2 * (n - 1) < length (da_data dst)"
proof -
  obtain m where n: "n = Suc m" using assms(2) by (cases n) auto
  from assms(1) have "print_neighbor dst m = Inr ()"
    unfolding n by (auto simp: fold_res_append bind_res_eq_Inr)
  then show ?thesis
    unfolding n by (auto simp: print_neighbor_def INITIAL_CAP_def bind_res_eq_Inr split: if_splits)
qed

lemma bootstrap_two_fails:
  assumes "wf_nodes dst" "elems dst = []" "da_cap dst = INITIAL_CAP" "2 \<le> n"
  shows "bootstrap_neigbors alc st nodes n dst \<noteq> Inr r"
proof
  assume "bootstrap_neigbors alc st nodes n dst = Inr r"
  then have "bootstrap_neigbors alc st nodes n dst = Inr (fst r, snd r)" by simp
  then obtain ps where ps: "length ps = n"
      "fold_res (push_node alc) dst (map boot_node ps) = Inr (snd r)"
      "fold_res (\<lambda>_ i. print_neighbor (snd r) i) () [0..<n] = Inr ()"
    using bootstrap_contents [OF assms(1)] by blast
  have "na.tight dst" using assms(3) by (simp add: na.tight_def INITIAL_CAP_def)
  then have f: "wf_nodes (snd r)" "elems (snd r) = map boot_node ps" "na.tight (snd r)"
    using na.push_all_frame [OF assms(1) _ ps(2)] assms(2) by auto
  have len: "unat (da_len (snd r)) = n"
    using f(1,2) ps(1) by (metis length_elems length_map)
  have "2 * (n - 1) < unat (da_cap (snd r))"
    using print_neighbors_bound [OF ps(3)] assms(4) f(1) by (simp add: wf_array_def)
  then show False using f(3) len assms(4) by (auto simp: na.tight_def)
qed

lemma push_node_succeeds:
  assumes "wf_nodes d" "da_len d \<noteq> da_cap d"
  shows "\<exists>d'. push_node alc d x = Inr d'"
  using na.push_room [OF assms] by simp

text \<open>Concrete arrays of nodes, and an allocator that grants every request with zero nodes.\<close>

definition nodes_of :: "node_t list \<Rightarrow> node_array" where
  "nodes_of ns =
     \<lparr>da_active = False, da_key = 0, da_cap = of_nat (length ns), da_len = of_nat (length ns), da_data = ns\<rparr>"

definition no_nodes :: node_array where
  "no_nodes =
     \<lparr>da_active = False, da_key = 0, da_cap = INITIAL_CAP, da_len = 0, da_data = [zero_node, zero_node]\<rparr>"

definition zero_node_alloc :: "node_t allocator" where
  "zero_node_alloc n = Some (\<lambda>_. zero_node)"

lemma wf_nodes_of:
  assumes "2 \<le> length ns" "length ns < 2 ^ 32"
  shows "wf_nodes (nodes_of ns)" "elems (nodes_of ns) = ns" "unat (da_len (nodes_of ns)) = length ns"
proof -
  have u: "unat (of_nat (length ns) :: u64) = length ns"
    using assms(2) by (simp add: unat_of_nat)
  then show "elems (nodes_of ns) = ns" "unat (da_len (nodes_of ns)) = length ns"
    by (simp_all add: elems_def nodes_of_def)
  have "2 \<le> unat (of_nat (length ns) :: u64)" using u assms(1) by simp
  then show "wf_nodes (nodes_of ns)"
    using u assms by (simp add: nodes_of_def wf_array_def sizeof_node_def PTRDIFF_MAX_def word_less_nat_alt)
qed

lemma wf_no_nodes: "wf_nodes no_nodes" "elems no_nodes = []" "da_cap no_nodes = INITIAL_CAP"
  by (simp_all add: no_nodes_def wf_array_def elems_def INITIAL_CAP_def sizeof_node_def PTRDIFF_MAX_def)

subsection \<open>Properties\<close>

text \<open>
  C10. \<open>compare_hash\<close> is a stable sort by distance: on a terminated info hash no longer than the node
  ids, and a count within the allocated block, it returns, adds the XOR distance to each of the
  first \<open>n_count\<close> nodes, and leaves them in the order of the reference \<open>sort_key\<close>; the rest of the
  block and the header of the array are untouched.
\<close>

theorem compare_hash_sorts:
  assumes "0 \<in> set info_hash" and "n \<le> length (da_data neighbors)"
    and "\<forall>nd \<in> set (da_data neighbors). length (cstr info_hash) \<le> length (n_id nd)"
  shows "\<exists>sorted_neighbors. compare_hash neighbors n info_hash =
      Inr (neighbors\<lparr>da_data := sorted_neighbors @ drop n (da_data neighbors)\<rparr>) \<and>
    sorted_neighbors = sort_key n_distance (map (xor_node info_hash) (take n (da_data neighbors))) \<and>
    sorted (map n_distance sorted_neighbors) \<and>
    mset sorted_neighbors = mset (map (xor_node info_hash) (take n (da_data neighbors)))"
  using compare_hash_eq [OF assms] by simp

theorem compare_hash_sorts_witness:
  "let a = zero_node\<lparr>n_id := char_array 36 ''55''\<rparr>; b = zero_node\<lparr>n_id := char_array 36 ''12''\<rparr>
   in \<exists>s. compare_hash (nodes_of [a, b]) 2 (char_array 36 ''13'') = Inr ((nodes_of [a, b])\<lparr>da_data := s\<rparr>) \<and>
      map n_distance s = [1, 10]"
proof -
  let ?a = "zero_node\<lparr>n_id := char_array 36 ''55''\<rparr>" and ?b = "zero_node\<lparr>n_id := char_array 36 ''12''\<rparr>"
  let ?h = "char_array 36 ''13''" and ?ns = "nodes_of [?a, ?b]"
  have c: "0 \<in> set ?h" "cstr ?h = [0x31, 0x33]" by (simp_all add: eval)
  have "xor_sum [0x31, 0x33] (n_id ?a) = 10" "xor_sum [0x31, 0x33] (n_id ?b) = 1"
    by (simp_all add: eval xor_sum_def xor_byte_def)
  moreover have "\<not> (10 :: u32) \<le> 1" by (simp add: word_le_nat_alt)
  ultimately have s: "map n_distance (sort_key n_distance (map (xor_node ?h) [?a, ?b])) = [1, 10]"
    by (simp add: xor_node_def c zero_node_def)
  have "\<forall>nd \<in> set (da_data ?ns). length (cstr ?h) \<le> length (n_id nd)"
    by (simp add: nodes_of_def c length_char_array)
  from compare_hash_sorts [OF c(1) _ this, of 2] s show ?thesis by (auto simp: nodes_of_def)
qed

text \<open>
  One call of \<open>XORdistance\<close> on 7-bit text returns, adds to the node's distance a number of at
  most 127 per byte of the info hash (so the 32-bit sum does not wrap), and adds zero exactly when
  the node id starts with the info hash.
\<close>

theorem XORdistance_adds:
  assumes "0 \<in> set info_hash" and "length info_hash = ID_SIZE" and "ascii (cstr info_hash)"
    and "length (n_id node) = ID_SIZE" and "ascii (n_id node)"
  shows "\<exists>d. XORdistance info_hash node = Inr (node\<lparr>n_distance := n_distance node + d\<rparr>) \<and>
    unat d \<le> 127 * length (cstr info_hash) \<and>
    (d = 0) = (take (length (cstr info_hash)) (n_id node) = cstr info_hash)"
proof -
  let ?k = "length (cstr info_hash)"
  have k: "?k \<le> ID_SIZE" using cstr_less_length [OF assms(1)] assms(2) by simp
  have z: "xor_sum (cstr info_hash) (n_id node) = xor_sum (cstr info_hash) (take ?k (n_id node))"
    by (simp add: xor_sum_take)
  have a: "ascii (take ?k (n_id node))"
    using assms(5) by (auto simp: ascii_def list_all_iff dest: in_set_takeD)
  have "(xor_sum (cstr info_hash) (n_id node) = 0) = (take ?k (n_id node) = cstr info_hash)"
    unfolding z using xor_sum_zero_iff [OF assms(3) a _ k] assms(4) k by auto
  then show ?thesis
    using XORdistance_eq [OF assms(1), of node] unat_xor_sum(2) [OF assms(3,5) k] assms(4) k
    by (auto simp: xor_node_def)
qed

theorem XORdistance_adds_witness:
  "\<exists>d. XORdistance (char_array 36 ''13'') (zero_node\<lparr>n_id := char_array 36 ''12''\<rparr>) =
      Inr (zero_node\<lparr>n_id := char_array 36 ''12'', n_distance := d\<rparr>) \<and> unat d \<le> 254 \<and> d \<noteq> 0"
proof -
  let ?h = "char_array 36 ''13''" and ?n = "zero_node\<lparr>n_id := char_array 36 ''12''\<rparr>"
  have c: "0 \<in> set ?h" "cstr ?h = [0x31, 0x33]" by (simp_all add: eval)
  have "ascii (cstr ?h)" "ascii (n_id ?n)" by (simp_all add: ascii_def c eval)
  then obtain d where d: "XORdistance ?h ?n = Inr (?n\<lparr>n_distance := n_distance ?n + d\<rparr>)"
    "unat d \<le> 127 * length (cstr ?h)" "(d = 0) = (take (length (cstr ?h)) (n_id ?n) = cstr ?h)"
    using XORdistance_adds [OF c(1) _ _ _ _, of ?n] by (auto simp: length_char_array ID_SIZE_def)
  have "take (length (cstr ?h)) (n_id ?n) \<noteq> cstr ?h" by (simp add: c eval)
  then have "d \<noteq> 0" "unat d \<le> 254" using d(2,3) c(2) by auto
  then show ?thesis using d(1) by (intro exI [of _ d]) (simp add: zero_node_def)
qed

definition fresh_distance :: "u8 list \<Rightarrow> u8 list \<Rightarrow> u32 outcome" where
  "fresh_distance info_hash ident =
     map_sum id n_distance (XORdistance info_hash (zero_node\<lparr>n_id := ident\<rparr>))"

lemma fresh_distance_eq:
  assumes "0 \<in> set a" "0 \<in> set b" "length a = ID_SIZE" "length b = ID_SIZE"
    "length (cstr a) = length (cstr b)"
  shows "fresh_distance a b = Inr (xor_sum (cstr a) (cstr b))"
proof -
  have "xor_sum (cstr a) b = xor_sum (cstr a) (take (length (cstr a)) b)"
    by (simp add: xor_sum_take)
  also have "take (length (cstr a)) b = cstr b" by (simp only: assms(5) cstr_take [symmetric])
  finally show ?thesis
    using XORdistance_eq [OF assms(1), of "zero_node\<lparr>n_id := b\<rparr>"] cstr_less_length [OF assms(1)] assms(3,4)
    by (simp add: fresh_distance_def xor_node_def zero_node_def)
qed

text \<open>
  Between three 7-bit identifiers of one length, the distance that \<open>XORdistance\<close> adds to a fresh
  node is a metric: symmetric, and subject to the triangle inequality.
\<close>

theorem XORdistance_metric:
  assumes "\<forall>x \<in> {a, b, c}. 0 \<in> set x \<and> length x = ID_SIZE \<and> ascii (cstr x) \<and>
      length (cstr x) = length (cstr a)"
  shows "\<exists>ab bc ac. fresh_distance a b = Inr ab \<and> fresh_distance b a = Inr ab \<and>
    fresh_distance b c = Inr bc \<and> fresh_distance a c = Inr ac \<and> unat ac \<le> unat ab + unat bc"
proof -
  have k: "length (cstr a) \<le> ID_SIZE" using assms cstr_less_length [of a] by auto
  have "xor_sum (cstr b) (cstr a) = xor_sum (cstr a) (cstr b)"
    by (rule xor_sum_sym) (use assms in simp)
  moreover have "unat (xor_sum (cstr a) (cstr c)) \<le>
      unat (xor_sum (cstr a) (cstr b)) + unat (xor_sum (cstr b) (cstr c))"
    by (rule xor_sum_triangle) (use assms k in auto)
  ultimately show ?thesis using assms by (simp add: fresh_distance_eq)
qed

theorem XORdistance_metric_witness:
  "\<exists>ab bc ac. fresh_distance (char_array 36 ''13'') (char_array 36 ''55'') = Inr ab \<and>
    fresh_distance (char_array 36 ''55'') (char_array 36 ''13'') = Inr ab \<and>
    fresh_distance (char_array 36 ''55'') (char_array 36 ''12'') = Inr bc \<and>
    fresh_distance (char_array 36 ''13'') (char_array 36 ''12'') = Inr ac \<and> unat ac \<le> unat ab + unat bc"
proof (rule XORdistance_metric)
  show "\<forall>x \<in> {char_array 36 ''13'', char_array 36 ''55'', char_array 36 ''12''}.
      0 \<in> set x \<and> length x = ID_SIZE \<and> ascii (cstr x) \<and> length (cstr x) = length (cstr (char_array 36 ''13''))"
    by (simp add: eval ascii_def ID_SIZE_def)
qed

text \<open>
  C40. When \<open>bootstrap_neigbors\<close> returns, it has appended one neighbor per origin it was told to visit. The
  i-th carries the port of the origin \<open>i\<close> places after the one that the first pointer designates, whatever the
  other pointers designate, and an empty address: the copy goes from the new node to the origin. So every
  origin that one of the first \<open>n\<close> pointers designates loses its address, its first byte being overwritten with
  a NUL, and keeps its port; all other origins are as they were.
\<close>

theorem bootstrap_loses_addresses:
  assumes "wf_nodes dst" and "bootstrap_neigbors alc st nodes n dst = Inr (st', dst')"
  shows "wf_nodes dst' \<and> length (elems dst') = length (elems dst) + n \<and> take (length (elems dst)) (elems dst') = elems dst \<and>
    (\<forall>i < n. \<exists>x. load_origin st (fst (nodes ! 0), snd (nodes ! 0) + i) = Inr x \<and>
       elems dst' ! (length (elems dst) + i) = boot_node (o_port x)) \<and>
    (\<forall>nd \<in> set (drop (length (elems dst)) (elems dst')). cstr (n_ip nd) = []) \<and>
    (\<forall>q \<in> set (take n nodes). \<exists>x. load_origin st q = Inr x \<and> load_origin st' q = Inr (x\<lparr>o_ip := 0 # tl (o_ip x)\<rparr>)) \<and>
    (\<forall>q. q \<notin> set (take n nodes) \<longrightarrow> load_origin st' q = load_origin st q)"
proof -
  have "fold_res (bootstrap_one alc nodes) (st, dst) [0..<n] = Inr (st', dst')"
    using assms(2) by (auto simp: bootstrap_neigbors_def bind_res_eq_Inr)
  then obtain ports where ports: "length ports = n" "fold_res (push_node alc) dst (map boot_node ports) = Inr dst'"
    "\<forall>i < n. \<exists>x. load_origin st (fst (nodes ! 0), snd (nodes ! 0) + i) = Inr x \<and> ports ! i = o_port x"
    "\<forall>q \<in> set (take n nodes). \<exists>x. load_origin st q = Inr x" "erased (take n nodes) st st'"
    using bootstrap_loop_exact by blast
  have e: "wf_nodes dst'" "elems dst' = elems dst @ map boot_node ports"
    using na.arr.push_all [OF assms(1) ports(2)] by simp_all
  have "cstr (n_ip (boot_node p)) = []" for p by (simp add: boot_node_def zero_node_def)
  moreover have "\<forall>i < n. \<exists>x. load_origin st (fst (nodes ! 0), snd (nodes ! 0) + i) = Inr x \<and>
      elems dst' ! (length (elems dst) + i) = boot_node (o_port x)"
    using ports(1,3) by (force simp: e(2) nth_append)
  moreover have "\<forall>q \<in> set (take n nodes). \<exists>x. load_origin st q = Inr x \<and> load_origin st' q = Inr (erase_ip x)"
    using ports(4,5) by (fastforce simp: erased_def)
  moreover have "\<forall>q. q \<notin> set (take n nodes) \<longrightarrow> load_origin st' q = load_origin st q"
    using ports(5) by (simp add: erased_def)
  ultimately show ?thesis using e ports(1) by (auto simp: erase_ip_def)
qed

theorem bootstrap_loses_addresses_witness:
  "let r = [[\<lparr>o_port = 3001, o_ip = char_array 16 ''localhost''\<rparr>]];
       out = bootstrap_neigbors zero_node_alloc r [(0, 0)] 1 no_nodes
   in \<exists>st' dst'. out = Inr (st', dst') \<and> elems dst' ! 0 = boot_node 3001 \<and> length (elems dst') = 1 \<and>
        cstr (n_ip (elems dst' ! 0)) = [] \<and>
        load_origin st' (0, 0) = Inr \<lparr>o_port = 3001, o_ip = 0 # tl (char_array 16 ''localhost'')\<rparr>"
proof -
  let ?o = "\<lparr>o_port = 3001, o_ip = char_array 16 ''localhost''\<rparr>"
  let ?out = "bootstrap_neigbors zero_node_alloc [[?o]] [(0, 0)] 1 no_nodes"
  have o: "load_origin [[?o]] (0, 0) = Inr ?o" by (simp add: load_origin_def)
  obtain d where p: "push_node zero_node_alloc no_nodes (boot_node 3001) = Inr d"
    using push_node_succeeds [of no_nodes] wf_no_nodes(1) by (auto simp: no_nodes_def INITIAL_CAP_def)
  note w = na.push_wf [OF wf_no_nodes(1) p]
  have e: "elems d = [boot_node 3001]" using w(2) wf_no_nodes(2) by simp
  have l: "length (da_data d) = 2"
    using w(1,6) by (simp add: wf_array_def no_nodes_def INITIAL_CAP_def)
  have "da_data d ! 0 = boot_node 3001"
    using e elems_nth [of 0 d] w(3) by (simp add: no_nodes_def)
  then have "print_neighbor d 0 = Inr ()"
    using l by (simp add: print_neighbor_def boot_node_def ID_SIZE_def eval)
  then have out: "?out = Inr ([[erase_ip ?o]], d)"
    using bootstrap_one_eq [of 0 "[(0, 0)]" "[[?o]]" ?o ?o zero_node_alloc no_nodes] o p
    by (simp add: bootstrap_neigbors_def char_array_def lit_def)
  have "length (elems d) = 1 \<and> elems d ! 0 = boot_node 3001 \<and> (\<forall>nd \<in> set (elems d). cstr (n_ip nd) = []) \<and>
      load_origin [[erase_ip ?o]] (0, 0) = Inr \<lparr>o_port = 3001, o_ip = 0 # tl (char_array 16 ''localhost'')\<rparr>"
    using bootstrap_loses_addresses [OF wf_no_nodes(1) out, unfolded wf_no_nodes(2)] o
    by (elim conjE) (intro conjI, simp_all)
  then show ?thesis using out nth_mem [of 0 "elems d"] unfolding Let_def by fastforce
qed

text \<open>
  Bootstrapping a fresh neighbor array from two or more origins never returns, wherever the
  origins are stored and whatever the allocator answers: if no earlier access faults, the loop that
  prints the neighbors reads the port of element \<open>2 * (n - 1)\<close>, which lies outside the block.
\<close>

theorem bootstrap_two_never_returns:
  assumes "wf_nodes dst" and "elems dst = []" and "da_cap dst = INITIAL_CAP" and "2 \<le> n"
  shows "\<nexists>r. bootstrap_neigbors alc st nodes n dst = Inr r"
  using bootstrap_two_fails [OF assms] by blast

theorem bootstrap_two_never_returns_witness:
  "\<nexists>r. bootstrap_neigbors zero_node_alloc [[zero_origin, zero_origin]] [(0, 0), (0, 1)] 2 no_nodes = Inr r"
  by (rule bootstrap_two_never_returns [OF wf_no_nodes]) simp

end
