(* ===== verification/Rpc_Msg.thy ===== *)
theory Rpc_Msg
  imports Nodes
begin

text \<open>
  The message format of \<open>remote_procedure.h\<close>: the enumerations, \<open>rpc_msg\<close> with its union of call
  and reply bodies as raw bytes (both views read and write the same bytes), and the images of
  \<open>origin\<close> and \<open>peer_t\<close> in a payload. Offsets are those of the x86-64 ABI.
\<close>

subsection \<open>Enumerations\<close>

datatype METHOD = GET_PEERS | JOIN | LEECH | SEED
datatype MSG_STATUS = ERR | OK
datatype MSG_TYPE = REPLY | CALL

primrec method_code :: "METHOD \<Rightarrow> u32" where
  "method_code GET_PEERS = 0"
| "method_code JOIN = 1"
| "method_code LEECH = 2"
| "method_code SEED = 3"

text \<open>\<open>ERR\<close> is the \<open>int\<close> -1, here in two's complement.\<close>

primrec status_code :: "MSG_STATUS \<Rightarrow> u32" where
  "status_code ERR = 0xFFFFFFFF"
| "status_code OK = 0"

primrec type_code :: "MSG_TYPE \<Rightarrow> u32" where
  "type_code REPLY = 0"
| "type_code CALL = 1"

text \<open>\<open>METHOD\<close> is ordered as its constants are numbered.\<close>

instantiation METHOD :: linorder
begin

definition less_eq_METHOD :: "METHOD \<Rightarrow> METHOD \<Rightarrow> bool" where
  "less_eq_METHOD a b = (method_code a \<le> method_code b)"

definition less_METHOD :: "METHOD \<Rightarrow> METHOD \<Rightarrow> bool" where
  "less_METHOD a b = (method_code a < method_code b)"

instance
proof
  fix a b :: METHOD
  show "a \<le> b \<Longrightarrow> b \<le> a \<Longrightarrow> a = b"
    by (cases a; cases b) (simp_all add: less_eq_METHOD_def word_le_nat_alt)
qed (auto simp: less_eq_METHOD_def less_METHOD_def)

end

text \<open>
  \<open>htons\<close> and \<open>ntohs\<close> take and return 16 bits: an enumeration value is truncated on the way in and
  zero-extended on the way out.
\<close>

definition htons_enum :: "u32 \<Rightarrow> u32" where
  "htons_enum w = ucast (htons (ucast w))"

definition ntohs_enum :: "u32 \<Rightarrow> u32" where
  "ntohs_enum w = ucast (ntohs (ucast w))"

subsection \<open>Messages\<close>

definition MAX_PAYLOAD_SIZE :: nat where
  "MAX_PAYLOAD_SIZE = 1024"

definition CORRELATAION_ID_SIZE :: nat where
  "CORRELATAION_ID_SIZE = 16"

definition sizeof_body :: nat where
  "sizeof_body = 1032"

definition sizeof_origin :: nat where
  "sizeof_origin = 18"

record rpc_msg =
  m_segment_count :: u64
  m_msg_type :: u32
  m_origin :: origin
  m_segment_number :: u16
  m_body :: "u8 list"
  m_correlation_id :: "u8 list"

text \<open>\<open>call_body\<close>: 1024 bytes of payload, then the method; four more bytes belong to the union.\<close>

definition cbody_payload :: "u8 list \<Rightarrow> u8 list" where
  "cbody_payload body = take MAX_PAYLOAD_SIZE body"

definition cbody_method :: "u8 list \<Rightarrow> u32" where
  "cbody_method body = of_le32 (take 4 (drop MAX_PAYLOAD_SIZE body))"

definition set_cbody_method :: "u32 \<Rightarrow> u8 list \<Rightarrow> u8 list" where
  "set_cbody_method w body =
     take MAX_PAYLOAD_SIZE body @ le32 w @ drop (MAX_PAYLOAD_SIZE + 4) body"

definition call_body :: "u8 list \<Rightarrow> u32 \<Rightarrow> u8 list" where
  "call_body payload method = payload @ le32 method @ replicate 4 0"

text \<open>\<open>reply_body\<close>: the method, the status, then 1024 bytes of payload.\<close>

definition rbody_method :: "u8 list \<Rightarrow> u32" where
  "rbody_method body = of_le32 (take 4 body)"

definition rbody_status :: "u8 list \<Rightarrow> u32" where
  "rbody_status body = of_le32 (take 4 (drop 4 body))"

definition rbody_payload :: "u8 list \<Rightarrow> u8 list" where
  "rbody_payload body = drop 8 body"

definition reply_body :: "u32 \<Rightarrow> u32 \<Rightarrow> u8 list \<Rightarrow> u8 list" where
  "reply_body method status payload = le32 method @ le32 status @ payload"

definition zero_msg :: rpc_msg where
  "zero_msg = \<lparr>m_segment_count = 0, m_msg_type = 0, m_origin = zero_origin, m_segment_number = 0,
     m_body = replicate sizeof_body 0, m_correlation_id = replicate CORRELATAION_ID_SIZE 0\<rparr>"

subsection \<open>Payload images of structs\<close>

definition origin_bytes :: "origin \<Rightarrow> u8 list" where
  "origin_bytes x = le16 (o_port x) @ o_ip x"

definition origin_of_bytes :: "u8 list \<Rightarrow> origin" where
  "origin_of_bytes bs = \<lparr>o_port = of_le16 (take 2 bs), o_ip = take INET_ADDRSTRLEN (drop 2 bs)\<rparr>"

definition peer_bytes :: "peer_t \<Rightarrow> u8 list" where
  "peer_bytes p = p_ip p @ le16 (p_port p) @ p_job_id p @ [0, 0] @ le32 (p_state p)"

definition peer_of_bytes :: "u8 list \<Rightarrow> peer_t" where
  "peer_of_bytes bs =
     \<lparr>p_ip = take 16 bs, p_port = of_le16 (take 2 (drop 16 bs)),
      p_job_id = take 16 (drop 18 bs), p_state = of_le32 (take 4 (drop 36 bs))\<rparr>"

definition peers_of_bytes :: "nat \<Rightarrow> u8 list \<Rightarrow> peer_t list" where
  "peers_of_bytes n bs = map (\<lambda>i. peer_of_bytes (drop (sizeof_peer * i) bs)) [0..<n]"

definition wf_origin :: "origin \<Rightarrow> bool" where
  "wf_origin x \<longleftrightarrow> length (o_ip x) = INET_ADDRSTRLEN \<and> 0 \<in> set (o_ip x)"

definition wf_peer :: "peer_t \<Rightarrow> bool" where
  "wf_peer p \<longleftrightarrow> length (p_ip p) = INET_ADDRSTRLEN \<and> 0 \<in> set (p_ip p) \<and> length (p_job_id p) = 16"

definition wf_msg :: "rpc_msg \<Rightarrow> bool" where
  "wf_msg m \<longleftrightarrow> length (m_body m) = sizeof_body \<and> wf_origin (m_origin m) \<and>
     length (m_correlation_id m) = CORRELATAION_ID_SIZE \<and> 0 \<in> set (m_correlation_id m)"

subsection \<open>Round trips\<close>

lemma ntohs_method [simp]: "ntohs_enum (htons_enum (method_code m)) = method_code m"
  by (cases m) (simp_all add: ntohs_enum_def htons_enum_def eval)

lemma ntohs_type [simp]: "ntohs_enum (htons_enum (type_code t)) = type_code t"
  by (cases t) (simp_all add: ntohs_enum_def htons_enum_def eval)

lemma htons_status [simp]: "htons_enum (status_code s) = 0 \<longleftrightarrow> s = OK"
  by (cases s) (simp_all add: htons_enum_def eval)

text \<open>
  A reply carries its method in network order, and no receiver converts it back: only
  \<open>GET_PEERS\<close>, whose code is zero, still reads as itself.
\<close>

lemma htons_method_zero [simp]: "htons_enum (method_code m) = 0 \<longleftrightarrow> m = GET_PEERS"
  by (cases m) (simp_all add: htons_enum_def eval)

lemma htons_method_not_small:
  "htons_enum (method_code m) = method_code m' \<Longrightarrow> m = GET_PEERS \<and> m' = GET_PEERS"
  by (cases m; cases m') (simp_all add: htons_enum_def eval)

lemma length_origin_bytes: "length (o_ip x) = INET_ADDRSTRLEN \<Longrightarrow> length (origin_bytes x) = sizeof_origin"
  by (simp add: origin_bytes_def INET_ADDRSTRLEN_def sizeof_origin_def)

lemma origin_of_origin_bytes:
  "length (o_ip x) = INET_ADDRSTRLEN \<Longrightarrow> origin_of_bytes (origin_bytes x @ rest) = x"
  by (simp add: origin_bytes_def origin_of_bytes_def INET_ADDRSTRLEN_def)

lemma length_peer_bytes: "wf_peer p \<Longrightarrow> length (peer_bytes p) = sizeof_peer"
  by (simp add: wf_peer_def peer_bytes_def sizeof_peer_def INET_ADDRSTRLEN_def)

lemma peer_of_peer_bytes: "wf_peer p \<Longrightarrow> peer_of_bytes (peer_bytes p @ rest) = p"
  by (simp add: wf_peer_def peer_bytes_def peer_of_bytes_def INET_ADDRSTRLEN_def)

lemma length_peers_bytes:
  "list_all wf_peer ps \<Longrightarrow> length (concat (map peer_bytes ps)) = sizeof_peer * length ps"
  by (induction ps) (simp_all add: length_peer_bytes)

lemma peers_of_peers_bytes:
  "list_all wf_peer ps \<Longrightarrow> peers_of_bytes (length ps) (concat (map peer_bytes ps) @ rest) = ps"
proof (induction ps)
  case (Cons p ps)
  let ?bs = "concat (map peer_bytes ps) @ rest"
  have p: "wf_peer p" using Cons.prems by simp
  have d: "drop (sizeof_peer * Suc i) (peer_bytes p @ ?bs) = drop (sizeof_peer * i) ?bs" for i
    using length_peer_bytes [OF p] by (simp add: add.commute)
  have "peers_of_bytes (Suc (length ps)) (peer_bytes p @ ?bs) =
      peer_of_bytes (peer_bytes p @ ?bs) # map (\<lambda>i. peer_of_bytes (drop (sizeof_peer * Suc i) (peer_bytes p @ ?bs))) [0..<length ps]"
    by (simp add: peers_of_bytes_def upt_conv_Cons map_Suc_upt [symmetric] comp_def del: upt_Suc mult_Suc_right)
  also have "\<dots> = p # ps"
    using Cons by (simp only: d peer_of_peer_bytes [OF p]) (simp add: peers_of_bytes_def)
  finally show ?case by simp
qed (simp add: peers_of_bytes_def)

lemma take_drop_take: "i + m \<le> k \<Longrightarrow> take m (drop i (take k bs)) = take m (drop i bs)"
  by (simp add: drop_take)

lemma peer_of_bytes_take:
  "i + 40 \<le> k \<Longrightarrow> peer_of_bytes (drop i (take k bs)) = peer_of_bytes (drop i bs)"
  using take_drop_take [of i 16 k bs] take_drop_take [of "16 + i" 2 k bs]
    take_drop_take [of "18 + i" 16 k bs] take_drop_take [of "36 + i" 4 k bs]
  by (simp add: peer_of_bytes_def del: take_drop)

lemma peers_of_bytes_take:
  assumes "sizeof_peer * n \<le> k"
  shows "peers_of_bytes n (take k bs) = peers_of_bytes n bs"
proof -
  have "sizeof_peer * i + 40 \<le> k" if "i < n" for i
  proof -
    have "sizeof_peer * Suc i \<le> sizeof_peer * n" using that by (intro mult_le_mono2) simp
    then show ?thesis using assms by (simp add: sizeof_peer_def)
  qed
  then show ?thesis by (simp add: peers_of_bytes_def peer_of_bytes_take)
qed

subsection \<open>Facts about the union\<close>

lemma length_bodies [simp]:
  "length p = MAX_PAYLOAD_SIZE \<Longrightarrow> length (call_body p w) = sizeof_body"
  "length p = MAX_PAYLOAD_SIZE \<Longrightarrow> length (reply_body v w p) = sizeof_body"
  "length b = sizeof_body \<Longrightarrow> length (set_cbody_method w b) = sizeof_body"
  by (simp_all add: call_body_def reply_body_def set_cbody_method_def MAX_PAYLOAD_SIZE_def sizeof_body_def)

lemma call_body_fields [simp]:
  assumes "length p = MAX_PAYLOAD_SIZE"
  shows "cbody_payload (call_body p w) = p" "cbody_method (call_body p w) = w"
    "set_cbody_method v (call_body p w) = call_body p v"
  using assms by (simp_all add: cbody_payload_def cbody_method_def call_body_def set_cbody_method_def)

lemma reply_body_fields:
  assumes "length p = MAX_PAYLOAD_SIZE"
  shows "rbody_method (set_cbody_method u (reply_body v w p)) = v"
    and "rbody_status (set_cbody_method u (reply_body v w p)) = w"
    and "n \<le> 1016 \<Longrightarrow> take n (rbody_payload (set_cbody_method u (reply_body v w p))) = take n p"
  using assms
  by (simp_all add: rbody_method_def rbody_status_def rbody_payload_def reply_body_def
      set_cbody_method_def MAX_PAYLOAD_SIZE_def drop_take)

lemma length_rbody_payload: "length b = sizeof_body \<Longrightarrow> length (rbody_payload b) = MAX_PAYLOAD_SIZE"
  by (simp add: rbody_payload_def sizeof_body_def MAX_PAYLOAD_SIZE_def)

end
