(* ===== verification/Transport.thy ===== *)
theory Transport
  imports Rpc_Msg
begin

text \<open>
  The UDP socket as the code sees it, and the contract that \<open>call_rpc\<close> and \<open>reply_rpc\<close> share: each
  renders one datagram and hands it to \<open>sendto\<close>.
\<close>

subsection \<open>The socket\<close>

record sockaddr_in =
  sin_port :: u16
  sin_addr :: u32

type_synonym datagram = "sockaddr_in \<times> rpc_msg"

text \<open>
  \<open>outbox\<close> holds the datagrams the kernel accepted, in order; \<open>sends\<close> counts the calls of \<open>sendto\<close>,
  and \<open>send_ok\<close> says which of them succeed, which is the environment's choice.
\<close>

record net =
  outbox :: "datagram list"
  sends :: nat
  send_ok :: "nat \<Rightarrow> bool"

definition sizeof_msg :: int where
  "sizeof_msg = 1080"

definition sendto :: "net \<Rightarrow> datagram \<Rightarrow> int \<times> net" where
  "sendto n d =
     (if send_ok n (sends n)
      then (sizeof_msg, n\<lparr>outbox := outbox n @ [d], sends := Suc (sends n)\<rparr>)
      else (- 1, n\<lparr>sends := Suc (sends n)\<rparr>))"

text \<open>
  The destination address: zeroed, then port and family set, then \<open>inet_pton\<close>, whose failure the
  code does not look at, so that any other text than dotted digits leaves the address 0.
\<close>

definition dest_of :: "origin \<Rightarrow> sockaddr_in outcome" where
  "dest_of x =
     bind_res (c_str (o_ip x)) (\<lambda>s.
     Inr \<lparr>sin_port = htons (o_port x), sin_addr = (case inet_pton s of None \<Rightarrow> 0 | Some a \<Rightarrow> a)\<rparr>)"

definition ip_addr :: "origin \<Rightarrow> sockaddr_in" where
  "ip_addr x =
     \<lparr>sin_port = htons (o_port x),
      sin_addr = (case inet_pton (cstr (o_ip x)) of None \<Rightarrow> 0 | Some a \<Rightarrow> a)\<rparr>"

lemma dest_of_eq [simp]: "0 \<in> set (o_ip x) \<Longrightarrow> dest_of x = Inr (ip_addr x)"
  by (simp add: dest_of_def ip_addr_def c_str_def)

subsection \<open>The sender's contract\<close>

locale sender =
  fixes render :: "'r \<Rightarrow> datagram outcome"
    and send :: "net \<Rightarrow> 'r \<Rightarrow> (int \<times> net) outcome"
  assumes send_render:
      "render r = Inr d \<Longrightarrow>
         send n r = Inr (if send_ok n (sends n) then 0 else - 1, snd (sendto n d))"
    and send_fault: "render r = Inl e \<Longrightarrow> send n r = Inl e"
begin

lemma send_Inr:
  assumes "send n r = Inr (i, n')"
  obtains d where "render r = Inr d" "n' = snd (sendto n d)"
    "i = (if send_ok n (sends n) then 0 else - 1)"
  using assms send_render [of r _ n] send_fault [of r _ n] by (cases "render r") auto

text \<open>One call adds one datagram and returns 0, or adds none and returns -1.\<close>

lemma send_effect:
  assumes "send n r = Inr (i, n')"
  shows "send_ok n' = send_ok n \<and> sends n' = Suc (sends n) \<and>
    ((i = 0 \<and> (\<exists>d. render r = Inr d \<and> outbox n' = outbox n @ [d])) \<or> (i = - 1 \<and> outbox n' = outbox n))"
  using assms by (elim send_Inr) (auto simp: sendto_def)

lemma send_up:
  assumes "render r = Inr d" "\<forall>k. send_ok n k"
  shows "send n r = Inr (0, n\<lparr>outbox := outbox n @ [d], sends := Suc (sends n)\<rparr>)"
  using send_render [OF assms(1), of n] assms(2) by (simp add: sendto_def)

text \<open>A loop that sends one request after the other and ignores the results.\<close>

lemma send_loop:
  assumes "list_all2 (\<lambda>r d. render r = Inr d) rs ds"
  shows "\<exists>n'. fold_res (\<lambda>n r. bind_res (send n r) (\<lambda>res. Inr (snd res))) n rs = Inr n' \<and>
    send_ok n' = send_ok n \<and> sends n' = sends n + length rs \<and>
    ((\<forall>k. send_ok n k) \<longrightarrow> outbox n' = outbox n @ ds)"
  using assms
proof (induction rs ds arbitrary: n rule: list_all2_induct)
  case (Cons r rs d ds)
  let ?n = "snd (sendto n d)"
  obtain n' where n': "fold_res (\<lambda>n r. bind_res (send n r) (\<lambda>res. Inr (snd res))) ?n rs = Inr n'"
    "send_ok n' = send_ok ?n" "sends n' = sends ?n + length rs"
    "(\<forall>k. send_ok ?n k) \<longrightarrow> outbox n' = outbox ?n @ ds"
    using Cons.IH by blast
  have "send_ok ?n = send_ok n" "sends ?n = Suc (sends n)"
    "(\<forall>k. send_ok n k) \<longrightarrow> outbox ?n = outbox n @ [d]"
    by (auto simp: sendto_def)
  then show ?case using n' Cons.hyps(1) by (simp add: send_render)
qed simp

end

end
