(* ===== verification/Rpc_Send.thy ===== *)
theory Rpc_Send
  imports Transport
begin

text \<open>
  The senders: \<open>call_rpc\<close> and \<open>reply_rpc\<close> of \<open>remote_procedure.c\<close>, and the two functions of
  \<open>nodes.c\<close> that use them, \<open>join_peers\<close> and \<open>get_peers\<close>. The socket descriptor argument is the
  \<open>net\<close> state; a null payload of size 0 is the empty list.
\<close>

subsection \<open>Calls and replies\<close>

definition call_datagram :: "METHOD \<Rightarrow> u8 list \<Rightarrow> nat \<Rightarrow> origin \<Rightarrow> origin \<Rightarrow> datagram outcome" where
  "call_datagram method payload payload_sz send_to host =
     bind_res (memcpy (replicate MAX_PAYLOAD_SIZE 0) 0 payload payload_sz) (\<lambda>pl.
     bind_res (strcpy (o_ip zero_origin) (o_ip host)) (\<lambda>ip.
     let msg = zero_msg\<lparr>m_correlation_id := char_array CORRELATAION_ID_SIZE ''random value'',
                        m_msg_type := htons_enum (type_code CALL),
                        m_body := call_body pl (htons_enum (method_code method)),
                        m_origin := \<lparr>o_port = htons (o_port host), o_ip = ip\<rparr>\<rparr> in
     bind_res (dest_of send_to) (\<lambda>dest. Inr (dest, msg))))"

definition call_rpc ::
    "net \<Rightarrow> METHOD \<Rightarrow> u8 list \<Rightarrow> nat \<Rightarrow> origin \<Rightarrow> origin \<Rightarrow> (int \<times> net) outcome" where
  "call_rpc n method payload payload_sz send_to host =
     bind_res (call_datagram method payload payload_sz send_to host) (\<lambda>d.
     case sendto n d of (n_sent, n') \<Rightarrow> if n_sent = - 1 then Inr (n_sent, n') else Inr (0, n'))"

definition reply_datagram ::
    "METHOD \<Rightarrow> u8 list \<Rightarrow> nat \<Rightarrow> origin \<Rightarrow> u8 list \<Rightarrow> MSG_STATUS \<Rightarrow> datagram outcome" where
  "reply_datagram method payload payload_sz reply_to correlation_id msg_status =
     bind_res (dest_of reply_to) (\<lambda>dest.
     bind_res (memcpy (replicate MAX_PAYLOAD_SIZE 0) 0 payload payload_sz) (\<lambda>pl.
     bind_res (strcpy (m_correlation_id zero_msg) correlation_id) (\<lambda>cid.
     Inr (dest,
       zero_msg\<lparr>m_msg_type := htons_enum (type_code REPLY),
                m_body := reply_body (htons_enum (method_code method))
                            (htons_enum (status_code msg_status)) pl,
                m_correlation_id := cid\<rparr>))))"

definition reply_rpc ::
    "net \<Rightarrow> METHOD \<Rightarrow> u8 list \<Rightarrow> nat \<Rightarrow> origin \<Rightarrow> u8 list \<Rightarrow> MSG_STATUS \<Rightarrow> (int \<times> net) outcome" where
  "reply_rpc n method payload payload_sz reply_to correlation_id msg_status =
     bind_res (reply_datagram method payload payload_sz reply_to correlation_id msg_status) (\<lambda>d.
     case sendto n d of (n_sent, n') \<Rightarrow> if n_sent = - 1 then Inr (n_sent, n') else Inr (0, n'))"

interpretation call: sender
  "\<lambda>(m, p, k, dst, host). call_datagram m p k dst host"
  "\<lambda>n (m, p, k, dst, host). call_rpc n m p k dst host"
  by unfold_locales (auto simp: call_rpc_def sendto_def sizeof_msg_def)

interpretation reply: sender
  "\<lambda>(m, p, k, dst, cid, st). reply_datagram m p k dst cid st"
  "\<lambda>n (m, p, k, dst, cid, st). reply_rpc n m p k dst cid st"
  by unfold_locales (auto simp: reply_rpc_def sendto_def sizeof_msg_def)

subsection \<open>Joining the peers of a bucket\<close>

text \<open>
  Before its loop \<open>join_peers\<close> prints the ports of the elements 0 and 1 of the bucket's block,
  whether the bucket holds two peers or not.
\<close>

definition join_one :: "peer_bucket_t \<Rightarrow> origin \<Rightarrow> net \<Rightarrow> nat \<Rightarrow> net outcome" where
  "join_one bucket host n i =
     (if i < length (da_data bucket) then
        let cur_peer = da_data bucket ! i in
        bind_res (c_str (p_ip cur_peer)) (\<lambda>_.
        bind_res (strcpy (o_ip zero_origin) (p_ip cur_peer)) (\<lambda>ip.
        bind_res (call_rpc n JOIN [] 0 \<lparr>o_port = p_port cur_peer, o_ip = ip\<rparr> host) (\<lambda>res.
        Inr (snd res))))
      else Inl OOB_read)"

definition join_peers :: "net \<Rightarrow> node_t \<Rightarrow> u8 list \<Rightarrow> (int \<times> net) outcome" where
  "join_peers n node info_hash =
     bind_res (get_peer_bucket (n_peer_table node) info_hash) (\<lambda>found.
     case found of
       None \<Rightarrow> Inr (0, n)
     | Some i \<Rightarrow>
         bind_res (slot (n_peer_table node) i) (\<lambda>bucket.
         if da_len bucket = 0 then Inr (1, n)
         else
           bind_res (guard_res (1 < length (da_data bucket)) OOB_read) (\<lambda>_.
           bind_res (strcpy (o_ip zero_origin) (n_ip node)) (\<lambda>ip.
           bind_res (fold_res (join_one bucket \<lparr>o_port = n_port node, o_ip = ip\<rparr>) n
                       [0..<unat (da_len bucket)]) (\<lambda>n'.
           Inr (0, n'))))))"

subsection \<open>Asking the neighbors\<close>

text \<open>The loop returns from its body: it ends at the first neighbor that is not \<open>reply_to\<close>.\<close>

fun ask_neighbors ::
    "net \<Rightarrow> node_array \<Rightarrow> u8 list \<Rightarrow> origin \<Rightarrow> origin \<Rightarrow> nat list \<Rightarrow> (int \<times> net) outcome" where
  "ask_neighbors n sorted_neighbors payload host reply_to [] = Inr (0, n)"
| "ask_neighbors n sorted_neighbors payload host reply_to (i # is) =
     (if i < length (da_data sorted_neighbors) then
        let nb = da_data sorted_neighbors ! i in
        bind_res (strcmp (n_ip nb) (o_ip reply_to)) (\<lambda>c.
        if c = 0 \<and> n_port nb = o_port reply_to
        then ask_neighbors n sorted_neighbors payload host reply_to is
        else bind_res (strcpy (o_ip zero_origin) (n_ip nb)) (\<lambda>ip.
          call_rpc n GET_PEERS payload MAX_PAYLOAD_SIZE \<lparr>o_port = n_port nb, o_ip = ip\<rparr> host))
      else Inl OOB_read)"

definition get_peers ::
    "u8 list \<Rightarrow> net \<Rightarrow> node_t \<Rightarrow> node_array \<Rightarrow> u8 list \<Rightarrow> origin \<Rightarrow> origin \<Rightarrow> (int \<times> net) outcome" where
  "get_peers stack n node sorted_neighbors info_hash src_addr reply_to =
     bind_res (strcpy (o_ip zero_origin) (n_ip node)) (\<lambda>host_ip.
     bind_res (strcpy (o_ip zero_origin) (o_ip src_addr)) (\<lambda>src_ip.
     let host = \<lparr>o_port = n_port node, o_ip = host_ip\<rparr>;
         src = \<lparr>o_port = htons (o_port src_addr), o_ip = src_ip\<rparr> in
     bind_res (memcpy stack 0 (origin_bytes src) sizeof_origin) (\<lambda>p.
     bind_res (memcpy p sizeof_origin info_hash ID_SIZE) (\<lambda>payload.
     ask_neighbors n sorted_neighbors payload host reply_to [0..<unat (da_len sorted_neighbors)]))))"

subsection \<open>Facts about rendering\<close>

definition pad :: "u8 list \<Rightarrow> u8 list" where
  "pad s = cstr s @ replicate (INET_ADDRSTRLEN - length (cstr s)) 0"

lemma cstr_cstr_zeros [simp]: "cstr (cstr s @ replicate n 0) = cstr s"
  by (induction s) (auto simp: cstr_def)

lemma pad_simps [simp]:
  assumes "0 \<in> set s" "length s = INET_ADDRSTRLEN"
  shows "length (pad s) = INET_ADDRSTRLEN" "0 \<in> set (pad s)"
  using cstr_less_length [OF assms(1)] assms(2) by (auto simp: pad_def)

lemma cstr_pad [simp]: "cstr (pad s) = cstr s"
  by (simp add: pad_def)

lemma strcpy_pad:
  assumes "0 \<in> set s" "length s = INET_ADDRSTRLEN"
  shows "strcpy (o_ip zero_origin) s = Inr (pad s)"
proof -
  have k: "length (cstr s) < INET_ADDRSTRLEN" using cstr_less_length [OF assms(1)] assms(2) by simp
  then have "0 # drop (Suc (length (cstr s))) (replicate INET_ADDRSTRLEN 0) =
      replicate (INET_ADDRSTRLEN - length (cstr s)) (0 :: u8)"
    by (simp add: Suc_diff_Suc flip: replicate_Suc)
  then show ?thesis using assms k by (simp add: zero_origin_def pad_def)
qed

definition canon :: "origin \<Rightarrow> origin" where
  "canon x = \<lparr>o_port = o_port x, o_ip = pad (o_ip x)\<rparr>"

lemma canon_simps [simp]: "o_port (canon x) = o_port x" "o_ip (canon x) = pad (o_ip x)"
  by (simp_all add: canon_def)

lemma wf_canon [simp]: "wf_origin x \<Longrightarrow> wf_origin (canon x)"
  by (simp add: wf_origin_def)

lemma ip_addr_canon [simp]: "ip_addr (canon x) = ip_addr x"
  by (simp add: ip_addr_def)

lemma pad_pad [simp]: "pad (pad s) = pad s"
  by (simp add: pad_def [of "pad s"]) (simp add: pad_def)

definition call_msg :: "METHOD \<Rightarrow> u8 list \<Rightarrow> origin \<Rightarrow> rpc_msg" where
  "call_msg method pl host =
     \<lparr>m_segment_count = 0, m_msg_type = htons_enum (type_code CALL),
      m_origin = \<lparr>o_port = htons (o_port host), o_ip = pad (o_ip host)\<rparr>, m_segment_number = 0,
      m_body = call_body pl (htons_enum (method_code method)),
      m_correlation_id = char_array CORRELATAION_ID_SIZE ''random value''\<rparr>"

definition reply_msg :: "METHOD \<Rightarrow> u8 list \<Rightarrow> u8 list \<Rightarrow> MSG_STATUS \<Rightarrow> rpc_msg" where
  "reply_msg method pl cid status =
     \<lparr>m_segment_count = 0, m_msg_type = htons_enum (type_code REPLY), m_origin = zero_origin,
      m_segment_number = 0,
      m_body = reply_body (htons_enum (method_code method)) (htons_enum (status_code status)) pl,
      m_correlation_id = cid\<rparr>"

definition fill :: "u8 list \<Rightarrow> nat \<Rightarrow> u8 list" where
  "fill p k = take k p @ replicate (MAX_PAYLOAD_SIZE - k) 0"

lemma length_fill: "k \<le> length p \<Longrightarrow> k \<le> MAX_PAYLOAD_SIZE \<Longrightarrow> length (fill p k) = MAX_PAYLOAD_SIZE"
  by (simp add: fill_def)

lemma fill_all: "length p = MAX_PAYLOAD_SIZE \<Longrightarrow> fill p MAX_PAYLOAD_SIZE = p"
  by (simp add: fill_def)

lemma memcpy_fill:
  "memcpy (replicate MAX_PAYLOAD_SIZE 0) 0 p k =
     (if MAX_PAYLOAD_SIZE < k then Inl OOB_write else if length p < k then Inl OOB_read
      else Inr (fill p k))"
  by (simp add: memcpy_def fill_def)

lemma call_datagram_eq:
  assumes "wf_origin host" "0 \<in> set (o_ip dst)" "k \<le> length p" "k \<le> MAX_PAYLOAD_SIZE"
  shows "call_datagram m p k dst host = Inr (ip_addr dst, call_msg m (fill p k) host)"
proof -
  have "strcpy (o_ip zero_origin) (o_ip host) = Inr (pad (o_ip host))"
    using assms(1) by (intro strcpy_pad) (auto simp: wf_origin_def)
  then show ?thesis
    using assms
    by (simp add: call_datagram_def memcpy_fill call_msg_def zero_msg_def Let_def del: strcpy_eq_Inr)
qed

definition pad_id :: "u8 list \<Rightarrow> u8 list" where
  "pad_id s = cstr s @ replicate (CORRELATAION_ID_SIZE - length (cstr s)) 0"

lemma reply_datagram_eq:
  assumes "0 \<in> set (o_ip dst)" "0 \<in> set cid" "length cid = CORRELATAION_ID_SIZE"
    "k \<le> length p" "k \<le> MAX_PAYLOAD_SIZE"
  shows "reply_datagram m p k dst cid st = Inr (ip_addr dst, reply_msg m (fill p k) (pad_id cid) st)"
proof -
  have "pad_id cid = pad cid"
    by (simp add: pad_def pad_id_def INET_ADDRSTRLEN_def CORRELATAION_ID_SIZE_def)
  moreover have "m_correlation_id zero_msg = o_ip zero_origin"
    by (simp add: zero_msg_def zero_origin_def INET_ADDRSTRLEN_def CORRELATAION_ID_SIZE_def)
  moreover have "strcpy (o_ip zero_origin) cid = Inr (pad cid)"
    using assms(2,3) by (intro strcpy_pad) (auto simp: INET_ADDRSTRLEN_def CORRELATAION_ID_SIZE_def)
  ultimately show ?thesis
    using assms
    by (simp add: reply_datagram_def memcpy_fill reply_msg_def zero_msg_def Let_def del: strcpy_eq_Inr)
qed

lemma datagram_overflow:
  assumes "MAX_PAYLOAD_SIZE < k"
  shows "call_datagram m p k dst host = Inl OOB_write"
    and "0 \<in> set (o_ip dst) \<Longrightarrow> reply_datagram m p k dst cid st = Inl OOB_write"
  using assms by (simp_all add: call_datagram_def reply_datagram_def memcpy_fill)

subsection \<open>Facts about \<open>join_peers\<close>\<close>

definition peer_origin :: "peer_t \<Rightarrow> origin" where
  "peer_origin p = \<lparr>o_port = p_port p, o_ip = pad (p_ip p)\<rparr>"

definition node_origin :: "node_t \<Rightarrow> origin" where
  "node_origin nd = \<lparr>o_port = n_port nd, o_ip = pad (n_ip nd)\<rparr>"

definition wf_ip :: "u8 list \<Rightarrow> bool" where
  "wf_ip s \<longleftrightarrow> length s = INET_ADDRSTRLEN \<and> 0 \<in> set s"

lemma wf_peer_ip: "wf_peer p \<Longrightarrow> wf_ip (p_ip p)"
  by (simp add: wf_peer_def wf_ip_def)

lemma wf_pad [simp]: "wf_ip s \<Longrightarrow> wf_origin \<lparr>o_port = q, o_ip = pad s\<rparr>"
  by (simp add: wf_ip_def wf_origin_def)

definition join_request :: "origin \<Rightarrow> peer_t \<Rightarrow> METHOD \<times> u8 list \<times> nat \<times> origin \<times> origin" where
  "join_request host p = (JOIN, [], 0, peer_origin p, host)"

definition join_datagram :: "origin \<Rightarrow> peer_t \<Rightarrow> datagram" where
  "join_datagram host p = (ip_addr (peer_origin p), call_msg JOIN (fill [] 0) host)"

lemma join_loop_eq:
  assumes "wf_bucket b" "list_all wf_peer (elems b)"
  shows "fold_res (join_one b host) n [0..<unat (da_len b)] =
    fold_res (\<lambda>n r. bind_res (case r of (m, p, k, dst, host) \<Rightarrow> call_rpc n m p k dst host)
        (\<lambda>res. Inr (snd res))) n (map (join_request host) (elems b))"
proof -
  have len: "unat (da_len b) = length (elems b)" using assms(1) by simp
  have "join_one b host n i = bind_res (call_rpc n JOIN [] 0 (peer_origin (elems b ! i)) host) (\<lambda>res. Inr (snd res))"
    if "i < length (elems b)" for n i
  proof -
    have "i < length (da_data b)" using that by (simp add: elems_def)
    moreover have "elems b ! i = da_data b ! i" using that len by (simp add: elems_nth)
    moreover have "wf_ip (p_ip (elems b ! i))"
      using assms(2) that by (auto simp: list_all_length wf_peer_ip)
    ultimately show ?thesis
      using strcpy_pad [of "p_ip (elems b ! i)"]
      by (simp add: join_one_def Let_def peer_origin_def wf_ip_def c_str_def del: strcpy_eq_Inr)
  qed
  then have "fold_res (join_one b host) n [0..<length (elems b)] =
    fold_res (\<lambda>n i. bind_res (call_rpc n JOIN [] 0 (peer_origin (elems b ! i)) host) (\<lambda>res. Inr (snd res)))
      n [0..<length (elems b)]"
    by (intro fold_res_cong) simp
  also have "\<dots> = fold_res (\<lambda>n p. bind_res (call_rpc n JOIN [] 0 (peer_origin p) host) (\<lambda>res. Inr (snd res)))
      n (map ((!) (elems b)) [0..<length (elems b)])"
    by (simp only: fold_res_map)
  also have "map ((!) (elems b)) [0..<length (elems b)] = elems b" by (rule map_nth)
  finally show ?thesis by (simp add: len fold_res_map join_request_def)
qed

lemma join_peers_eq:
  assumes wf: "wf_table (n_peer_table node)" and h: "hash key = Inr h"
    and ip: "wf_ip (n_ip node)" and ps: "list_all wf_peer (peers_at (n_peer_table node) (unat h))"
    and ne: "peers_at (n_peer_table node) (unat h) \<noteq> []"
  shows "\<exists>n'. join_peers n node key = Inr (0, n') \<and> send_ok n' = send_ok n \<and>
    sends n' = sends n + length (peers_at (n_peer_table node) (unat h)) \<and>
    ((\<forall>k. send_ok n k) \<longrightarrow> outbox n' =
       outbox n @ map (join_datagram (node_origin node)) (peers_at (n_peer_table node) (unat h)))"
proof -
  let ?ps = "peers_at (n_peer_table node) (unat h)"
  obtain b where b: "slot (n_peer_table node) (unat h) = Inr b" "wf_bucket b" "?ps = elems b"
    by (rule wf_table_slot [OF wf hash_bound [OF h]]) simp
  have g: "get_peer_bucket (n_peer_table node) key = Inr (Some (unat h))"
    by (rule get_peer_bucket_present [OF wf h ne])
  have len: "unat (da_len b) = length ?ps" using b by simp
  have pos: "da_len b \<noteq> 0" using len ne by auto
  have two: "1 < length (da_data b)" using b(2) by (simp add: wf_array_def)
  have host: "wf_origin (node_origin node)" using ip by (simp add: node_origin_def)
  have r: "list_all2 (\<lambda>r d. (case r of (m, p, k, dst, host) \<Rightarrow> call_datagram m p k dst host) = Inr d)
      (map (join_request (node_origin node)) ?ps) (map (join_datagram (node_origin node)) ?ps)"
    using ps host
    by (auto simp: list_all2_map1 list_all2_map2 list_all_iff join_request_def join_datagram_def
        call_datagram_eq peer_origin_def wf_peer_def intro!: list_all2_same [THEN iffD2])
  have "join_peers n node key =
      bind_res (fold_res (join_one b (node_origin node)) n [0..<unat (da_len b)]) (\<lambda>n'. Inr (0, n'))"
    using g b(1) pos two ip strcpy_pad [of "n_ip node"]
    by (simp add: join_peers_def node_origin_def wf_ip_def del: strcpy_eq_Inr)
  then show ?thesis
    using call.send_loop [OF r, of n] ps b(3) join_loop_eq [OF b(2), of "node_origin node" n] by auto
qed

lemma join_peers_empty:
  assumes "wf_table (n_peer_table node)" "hash info_hash = Inr h"
    and "peers_at (n_peer_table node) (unat h) = []" "get_peer_bucket (n_peer_table node) info_hash \<noteq> Inr None"
  shows "join_peers n node info_hash = Inr (1, n)"
proof -
  obtain b where b: "slot (n_peer_table node) (unat h) = Inr b" "wf_bucket b" "[] = elems b"
    using wf_table_slot [OF assms(1) hash_bound [OF assms(2)]] assms(3) by metis
  have "da_len b = 0" using b(2,3) by (metis length_elems list.size(3) unat_eq_zero)
  moreover have "get_peer_bucket (n_peer_table node) info_hash = Inr (Some (unat h))"
    using assms(2,4) b(1) by (auto simp: get_peer_bucket_def split: if_splits)
  ultimately show ?thesis using b(1) by (simp add: join_peers_def)
qed

subsection \<open>Facts about \<open>get_peers\<close>\<close>

definition is_origin :: "origin \<Rightarrow> node_t \<Rightarrow> bool" where
  "is_origin x nd \<longleftrightarrow> cstr (n_ip nd) = cstr (o_ip x) \<and> n_port nd = o_port x"

definition first_asked :: "origin \<Rightarrow> node_t list \<Rightarrow> node_t option" where
  "first_asked reply_to nodes = find (\<lambda>nd. \<not> is_origin reply_to nd) nodes"

definition get_peers_payload :: "u8 list \<Rightarrow> u8 list \<Rightarrow> origin \<Rightarrow> u8 list" where
  "get_peers_payload stack info_hash src =
     origin_bytes \<lparr>o_port = htons (o_port src), o_ip = pad (o_ip src)\<rparr> @ take ID_SIZE info_hash @
     drop (sizeof_origin + ID_SIZE) stack"

lemma ask_neighbors_eq:
  assumes wf: "wf_nodes nbs" and ips: "list_all (\<lambda>nd. wf_ip (n_ip nd)) (elems nbs)"
    and rt: "wf_origin reply_to" and ids: "\<forall>i \<in> set is. i < length (elems nbs)"
  shows "ask_neighbors n nbs payload host reply_to is =
    (case first_asked reply_to (map ((!) (elems nbs)) is) of
       None \<Rightarrow> Inr (0, n)
     | Some nd \<Rightarrow> call_rpc n GET_PEERS payload MAX_PAYLOAD_SIZE (node_origin nd) host)"
  using ids
proof (induction "is")
  case Nil
  then show ?case by (simp add: first_asked_def)
next
  case (Cons i "is")
  let ?nd = "elems nbs ! i"
  have i: "i < length (da_data nbs)" "da_data nbs ! i = ?nd" "i < length (elems nbs)"
    using Cons.prems by (auto simp: elems_def)
  then have ip: "wf_ip (n_ip ?nd)" using ips by (simp add: list_all_length)
  then obtain c where c: "strcmp (n_ip ?nd) (o_ip reply_to) = Inr c"
    "c = 0 \<longleftrightarrow> cstr (n_ip ?nd) = cstr (o_ip reply_to)"
    using strcmp_terminated [of "n_ip ?nd" "o_ip reply_to"] rt
    by (auto simp: wf_ip_def wf_origin_def)
  show ?case
  proof (cases "is_origin reply_to ?nd")
    case True
    then show ?thesis
      using Cons i c by (simp add: Let_def is_origin_def first_asked_def)
  next
    case False
    then have f: "first_asked reply_to (map ((!) (elems nbs)) (i # is)) = Some ?nd"
      by (simp add: first_asked_def)
    have "strcpy (o_ip zero_origin) (n_ip ?nd) = Inr (pad (n_ip ?nd))"
      using ip by (intro strcpy_pad) (auto simp: wf_ip_def)
    then have "ask_neighbors n nbs payload host reply_to (i # is) =
        call_rpc n GET_PEERS payload MAX_PAYLOAD_SIZE (node_origin ?nd) host"
      using False i(1,2) c
      by (auto simp add: Let_def is_origin_def node_origin_def simp del: strcpy_eq_Inr)
    then show ?thesis by (simp only: f option.case)
  qed
qed

lemma length_get_peers_payload:
  "wf_origin src \<Longrightarrow> length info_hash = ID_SIZE \<Longrightarrow> length stack = MAX_PAYLOAD_SIZE \<Longrightarrow>
     length (get_peers_payload stack info_hash src) = MAX_PAYLOAD_SIZE"
  by (simp add: get_peers_payload_def origin_bytes_def wf_origin_def INET_ADDRSTRLEN_def
      MAX_PAYLOAD_SIZE_def ID_SIZE_def sizeof_origin_def)

lemma get_peers_eq:
  assumes nbs: "wf_nodes nbs" "list_all (\<lambda>nd. wf_ip (n_ip nd)) (elems nbs)"
    and rt: "wf_origin reply_to" and src: "wf_origin src" and ip: "wf_ip (n_ip node)"
    and hash: "length info_hash = ID_SIZE" and st: "length stack = MAX_PAYLOAD_SIZE"
  shows "get_peers stack n node nbs info_hash src reply_to =
    (case first_asked reply_to (elems nbs) of
       None \<Rightarrow> Inr (0, n)
     | Some nd \<Rightarrow> call_rpc n GET_PEERS (get_peers_payload stack info_hash src) MAX_PAYLOAD_SIZE
                    (node_origin nd) (node_origin node))"
proof -
  let ?src = "\<lparr>o_port = htons (o_port src), o_ip = pad (o_ip src)\<rparr>"
  have ob: "length (origin_bytes ?src) = sizeof_origin"
    using src by (intro length_origin_bytes) (simp add: wf_origin_def)
  have p: "memcpy stack 0 (origin_bytes ?src) sizeof_origin =
      Inr (origin_bytes ?src @ drop sizeof_origin stack)"
    using st ob by (simp add: memcpy_def sizeof_origin_def MAX_PAYLOAD_SIZE_def)
  have q: "memcpy (origin_bytes ?src @ drop sizeof_origin stack) sizeof_origin info_hash ID_SIZE =
      Inr (get_peers_payload stack info_hash src)"
    using st ob hash
    by (simp add: memcpy_def sizeof_origin_def MAX_PAYLOAD_SIZE_def ID_SIZE_def get_peers_payload_def)
  have len: "unat (da_len nbs) = length (elems nbs)" using nbs(1) by simp
  have m: "map ((!) (elems nbs)) [0..<length (elems nbs)] = elems nbs" by (rule map_nth)
  have "strcpy (o_ip zero_origin) (n_ip node) = Inr (pad (n_ip node))"
    and "strcpy (o_ip zero_origin) (o_ip src) = Inr (pad (o_ip src))"
    using ip src by (auto intro!: strcpy_pad simp: wf_ip_def wf_origin_def simp del: strcpy_eq_Inr)
  then show ?thesis
    using ask_neighbors_eq [OF nbs rt, of "[0..<length (elems nbs)]"] p q
    by (simp add: get_peers_def Let_def len m node_origin_def [of node] del: strcpy_eq_Inr
        split: option.split)
qed

lemma call_rpc_get_peers:
  assumes "wf_ip (n_ip nd)" "wf_ip (n_ip node)" "wf_origin src" "length info_hash = ID_SIZE"
    "length stack = MAX_PAYLOAD_SIZE"
  shows "call_rpc n GET_PEERS (get_peers_payload stack info_hash src) MAX_PAYLOAD_SIZE
      (node_origin nd) (node_origin node) =
    Inr (if send_ok n (sends n) then 0 else - 1,
         snd (sendto n (ip_addr (node_origin nd),
           call_msg GET_PEERS (get_peers_payload stack info_hash src) (node_origin node))))"
proof -
  note l = length_get_peers_payload [OF assms(3-5)]
  have o: "wf_origin (node_origin nd)" "wf_origin (node_origin node)"
    using assms(1,2) by (simp_all add: node_origin_def)
  have "call_datagram GET_PEERS (get_peers_payload stack info_hash src) MAX_PAYLOAD_SIZE
      (node_origin nd) (node_origin node) =
    Inr (ip_addr (node_origin nd),
      call_msg GET_PEERS (get_peers_payload stack info_hash src) (node_origin node))"
    using call_datagram_eq [OF o(2), of "node_origin nd" MAX_PAYLOAD_SIZE] o l
    by (simp add: fill_all wf_origin_def)
  then show ?thesis
    using call.send_render [of "(GET_PEERS, get_peers_payload stack info_hash src, MAX_PAYLOAD_SIZE,
        node_origin nd, node_origin node)"] by simp
qed

subsection \<open>Concrete addresses\<close>

definition host_at :: "string \<Rightarrow> u16 \<Rightarrow> origin" where
  "host_at ip port = \<lparr>o_port = port, o_ip = char_array INET_ADDRSTRLEN ip\<rparr>"

definition node_at :: "string \<Rightarrow> u16 \<Rightarrow> node_t" where
  "node_at ip port = zero_node\<lparr>n_ip := char_array INET_ADDRSTRLEN ip, n_port := port\<rparr>"

definition online :: net where
  "online = \<lparr>outbox = [], sends = 0, send_ok = \<lambda>_. True\<rparr>"

lemma wf_char_array:
  assumes "length s < INET_ADDRSTRLEN"
  shows "wf_ip (char_array INET_ADDRSTRLEN s)"
  using assms by (simp add: wf_ip_def length_char_array) (simp add: char_array_def)

lemma wf_host_at [simp]: "length ip < INET_ADDRSTRLEN \<Longrightarrow> wf_origin (host_at ip port)"
  using wf_char_array [of ip] by (simp add: host_at_def wf_origin_def wf_ip_def)

lemma wf_node_at [simp]: "length ip < INET_ADDRSTRLEN \<Longrightarrow> wf_ip (n_ip (node_at ip port))"
  by (simp add: node_at_def wf_char_array)

lemma node_at_simps [simp]:
  "n_port (node_at ip port) = port" "o_port (host_at ip port) = port"
  by (simp_all add: node_at_def host_at_def)

lemma online_simps [simp]: "outbox online = []" "sends online = 0" "send_ok online k"
  by (simp_all add: online_def)

subsection \<open>Properties\<close>

text \<open>
  \<open>call_rpc\<close> with a payload of at most \<open>MAX_PAYLOAD_SIZE\<close> bytes returns: it returns 0 after
  handing the kernel exactly one datagram for \<open>send_to\<close> whose fields are those of the request, or
  -1 after handing it none. With a larger \<open>payload_sz\<close>, which nothing in the function rejects, it
  writes past \<open>c_body.payload\<close>.
\<close>

theorem call_rpc_sends:
  assumes "wf_origin host" and "wf_origin send_to" and "k \<le> length payload"
  shows "call_rpc n method payload k send_to host =
    (if MAX_PAYLOAD_SIZE < k then Inl OOB_write
     else if send_ok n (sends n)
     then Inr (0, n\<lparr>outbox := outbox n @ [(ip_addr send_to, call_msg method (fill payload k) host)],
                    sends := Suc (sends n)\<rparr>)
     else Inr (- 1, n\<lparr>sends := Suc (sends n)\<rparr>))"
proof (cases "MAX_PAYLOAD_SIZE < k")
  case True
  then show ?thesis using call.send_fault [of "(method, payload, k, send_to, host)"] by (simp add: datagram_overflow)
next
  case False
  then have "call_datagram method payload k send_to host =
      Inr (ip_addr send_to, call_msg method (fill payload k) host)"
    using assms by (intro call_datagram_eq) (auto simp: wf_origin_def)
  then show ?thesis
    using call.send_render [of "(method, payload, k, send_to, host)"] False by (simp add: sendto_def)
qed

theorem call_rpc_sends_witness:
  "\<exists>n'. call_rpc online GET_PEERS (replicate 54 7) 54 (host_at ''127.0.0.1'' 3001) (host_at ''127.0.0.1'' 3000) = Inr (0, n') \<and>
     outbox n' = [(ip_addr (host_at ''127.0.0.1'' 3001), call_msg GET_PEERS (fill (replicate 54 7) 54) (host_at ''127.0.0.1'' 3000))] \<and>
   call_rpc online GET_PEERS (replicate 1025 7) 1025 (host_at ''127.0.0.1'' 3001) (host_at ''127.0.0.1'' 3000) = Inl OOB_write"
  using call_rpc_sends [of "host_at ''127.0.0.1'' 3000" "host_at ''127.0.0.1'' 3001" 54 "replicate 54 7" online GET_PEERS]
    call_rpc_sends [of "host_at ''127.0.0.1'' 3000" "host_at ''127.0.0.1'' 3001" 1025 "replicate 1025 7" online GET_PEERS]
  by (simp add: INET_ADDRSTRLEN_def MAX_PAYLOAD_SIZE_def)

text \<open>
  \<open>reply_rpc\<close> likewise: one datagram for \<open>reply_to\<close> that carries method, status, payload and the
  correlation id of the call, or none and -1, or a write past \<open>r_body.payload\<close>.
\<close>

theorem reply_rpc_sends:
  assumes "wf_origin reply_to" and "0 \<in> set cid" and "length cid = CORRELATAION_ID_SIZE"
    and "k \<le> length payload"
  shows "reply_rpc n method payload k reply_to cid status =
    (if MAX_PAYLOAD_SIZE < k then Inl OOB_write
     else if send_ok n (sends n)
     then Inr (0, n\<lparr>outbox := outbox n @
                      [(ip_addr reply_to, reply_msg method (fill payload k) (pad_id cid) status)],
                    sends := Suc (sends n)\<rparr>)
     else Inr (- 1, n\<lparr>sends := Suc (sends n)\<rparr>))"
proof (cases "MAX_PAYLOAD_SIZE < k")
  case True
  have "reply_datagram method payload k reply_to cid status = Inl OOB_write"
    using True assms(1) by (intro datagram_overflow) (auto simp: wf_origin_def)
  then show ?thesis
    using reply.send_fault [of "(method, payload, k, reply_to, cid, status)"] True by simp
next
  case False
  then have "reply_datagram method payload k reply_to cid status =
      Inr (ip_addr reply_to, reply_msg method (fill payload k) (pad_id cid) status)"
    using assms by (intro reply_datagram_eq) (auto simp: wf_origin_def)
  then show ?thesis
    using reply.send_render [of "(method, payload, k, reply_to, cid, status)"] False by (simp add: sendto_def)
qed

theorem reply_rpc_sends_witness:
  "reply_rpc (online\<lparr>send_ok := \<lambda>_. False\<rparr>) JOIN [] 0 (host_at ''127.0.0.1'' 3001) (char_array 16 ''random value'') OK =
     Inr (- 1, online\<lparr>send_ok := \<lambda>_. False, sends := 1\<rparr>)"
proof -
  have "0 \<in> set (char_array 16 ''random value'')" "length (char_array 16 ''random value'') = CORRELATAION_ID_SIZE"
    by (simp_all add: eval CORRELATAION_ID_SIZE_def)
  from reply_rpc_sends [OF wf_host_at this, where k = 0 and payload = "[]"] show ?thesis
    by (simp add: INET_ADDRSTRLEN_def)
qed

text \<open>
  C12. \<open>get_peers\<close> contacts one neighbor at most, although its comment announces that it iterates over
  the neighbor list: with every send accepted, the only datagram goes to the first neighbor of the
  array that is not \<open>reply_to\<close>, and carries the requester's origin and the info hash in its payload;
  no datagram is sent exactly when every neighbor is \<open>reply_to\<close>.
\<close>

theorem get_peers_asks_one:
  assumes "wf_nodes neighbors" and "list_all (\<lambda>nd. wf_ip (n_ip nd)) (elems neighbors)"
    and "wf_origin reply_to" and "wf_origin src" and "wf_ip (n_ip node)"
    and "length info_hash = ID_SIZE" and "length stack = MAX_PAYLOAD_SIZE" and "\<forall>k. send_ok n k"
  shows "\<exists>n'. get_peers stack n node neighbors info_hash src reply_to = Inr (0, n') \<and>
    (case first_asked reply_to (elems neighbors) of
       None \<Rightarrow> n' = n \<and> list_all (is_origin reply_to) (elems neighbors)
     | Some nd \<Rightarrow> nd \<in> set (elems neighbors) \<and> \<not> is_origin reply_to nd \<and>
         (\<exists>payload. outbox n' = outbox n @ [(ip_addr (node_origin nd), call_msg GET_PEERS payload (node_origin node))] \<and>
            canon src = (origin_of_bytes (take sizeof_origin payload))\<lparr>o_port := o_port src\<rparr> \<and>
            ntohs (o_port (origin_of_bytes (take sizeof_origin payload))) = o_port src \<and>
            take ID_SIZE (drop sizeof_origin payload) = info_hash))"
proof (cases "first_asked reply_to (elems neighbors)")
  case None
  then have "list_all (is_origin reply_to) (elems neighbors)"
    by (auto simp: first_asked_def find_None_iff list_all_iff)
  then show ?thesis using None get_peers_eq [OF assms(1-7), of n] by simp
next
  case (Some nd)
  then have nd: "nd \<in> set (elems neighbors)" "\<not> is_origin reply_to nd"
    by (auto simp: first_asked_def find_Some_iff)
  then have ip: "wf_ip (n_ip nd)" using assms(2) by (auto simp: list_all_iff)
  let ?p = "get_peers_payload stack info_hash src"
  let ?o = "\<lparr>o_port = htons (o_port src), o_ip = pad (o_ip src)\<rparr>"
  have l: "length (origin_bytes ?o) = sizeof_origin"
    using assms(4) by (intro length_origin_bytes) (simp add: wf_origin_def)
  have "origin_of_bytes (take sizeof_origin ?p) = ?o"
    using origin_of_origin_bytes [of ?o "[]"] l assms(4) by (simp add: get_peers_payload_def wf_origin_def)
  moreover have "take ID_SIZE (drop sizeof_origin ?p) = info_hash"
    using l assms(6) by (simp add: get_peers_payload_def)
  ultimately show ?thesis
    using Some nd get_peers_eq [OF assms(1-7), of n] call_rpc_get_peers [OF ip assms(5,4,6,7), of n] assms(8)
    by (intro exI [of _ "snd (sendto n (ip_addr (node_origin nd), call_msg GET_PEERS ?p (node_origin node)))"])
       (auto simp: canon_def sendto_def intro!: exI [of _ ?p])
qed

theorem get_peers_asks_one_witness:
  "\<exists>n'. get_peers (replicate 1024 0) online (node_at ''127.0.0.1'' 3000)
      (nodes_of [node_at ''127.0.0.1'' 3001, node_at ''127.0.0.1'' 3002, node_at ''127.0.0.1'' 3003])
      (char_array 36 ''13'') (host_at ''127.0.0.1'' 4000) (host_at ''127.0.0.1'' 3001) = Inr (0, n') \<and>
    map fst (outbox n') = [ip_addr (node_origin (node_at ''127.0.0.1'' 3002))]"
proof -
  let ?ns = "[node_at ''127.0.0.1'' 3001, node_at ''127.0.0.1'' 3002, node_at ''127.0.0.1'' 3003]"
  let ?r = "host_at ''127.0.0.1'' 3001"
  have f: "first_asked ?r ?ns = Some (node_at ''127.0.0.1'' 3002)"
    by (simp add: first_asked_def is_origin_def) (simp add: node_at_def host_at_def)
  have "wf_nodes (nodes_of ?ns)" "elems (nodes_of ?ns) = ?ns" by (simp_all add: wf_nodes_of)
  then show ?thesis
    using get_peers_asks_one [of "nodes_of ?ns" ?r "host_at ''127.0.0.1'' 4000" "node_at ''127.0.0.1'' 3000"
        "char_array 36 ''13''" "replicate 1024 0" online] f
    by (auto simp: INET_ADDRSTRLEN_def ID_SIZE_def MAX_PAYLOAD_SIZE_def length_char_array)
qed

text \<open>
  C13. \<open>join_peers\<close> on a well-formed table: it fails with 1 and sends nothing when the bucket of the
  info hash exists and is empty, and otherwise sends one \<open>JOIN\<close> call to each peer of the bucket in
  bucket order, and returns 0 even when the kernel accepts none of them.
\<close>

theorem join_peers_calls_all:
  assumes "wf_table (n_peer_table node)" and "hash info_hash = Inr h" and "wf_ip (n_ip node)"
    and "list_all wf_peer (peers_at (n_peer_table node) (unat h))"
    and "get_peer_bucket (n_peer_table node) info_hash \<noteq> Inr None"
  shows "\<exists>r n'. join_peers n node info_hash = Inr (r, n') \<and> (r = 0 \<or> r = 1) \<and>
    (r = 1 \<longleftrightarrow> peers_at (n_peer_table node) (unat h) = []) \<and>
    sends n' = sends n + length (peers_at (n_peer_table node) (unat h)) \<and>
    ((\<forall>k. send_ok n k) \<longrightarrow> outbox n' =
       outbox n @ map (join_datagram (node_origin node)) (peers_at (n_peer_table node) (unat h)))"
proof (cases "peers_at (n_peer_table node) (unat h) = []")
  case False
  then show ?thesis using join_peers_eq [OF assms(1-4) False, of n] by auto
next
  case True
  then have "join_peers n node info_hash = Inr (1, n)" by (rule join_peers_empty [OF assms(1,2) _ assms(5)])
  then show ?thesis using True by simp
qed

theorem join_peers_calls_all_witness:
  "\<exists>t n'. set_peer zero_alloc zero_table (char_array 36 ''13'') zero_peer = Inr t \<and>
     join_peers online ((node_at ''127.0.0.1'' 3000)\<lparr>n_peer_table := t\<rparr>) (char_array 36 ''13'') = Inr (0, n') \<and>
     outbox n' = [join_datagram (node_origin (node_at ''127.0.0.1'' 3000)) zero_peer]"
proof -
  obtain t where t: "set_peer zero_alloc zero_table (char_array 36 ''13'') zero_peer = Inr t"
    using set_peer_zero_table [OF hash_13] by blast
  let ?nd = "(node_at ''127.0.0.1'' 3000)\<lparr>n_peer_table := t\<rparr>"
  have w: "wf_table t" "peers_at t 9 = [zero_peer]"
    using set_peer_ok [OF wf_zero_table hash_13 t] by (simp_all add: peers_at_zero_table MAX_PEER_BUCKETS_def)
  have z: "wf_peer zero_peer" by (simp add: wf_peer_def zero_peer_def INET_ADDRSTRLEN_def)
  have "get_peer_bucket t (char_array 36 ''13'') = Inr (Some 9)"
    using get_peer_bucket_present [OF w(1) hash_13] w(2) by simp
  then obtain r n' where r: "join_peers online ?nd (char_array 36 ''13'') = Inr (r, n')" "r = 0 \<or> r = 1"
    "r = 1 \<longleftrightarrow> peers_at t 9 = []" "outbox n' = map (join_datagram (node_origin ?nd)) (peers_at t 9)"
    using join_peers_calls_all [of ?nd "char_array 36 ''13''" 9 online] w z hash_13 wf_node_at [of "''127.0.0.1''" 3000]
    by (auto simp: INET_ADDRSTRLEN_def)
  have "node_origin ?nd = node_origin (node_at ''127.0.0.1'' 3000)" by (simp add: node_origin_def)
  then show ?thesis using r w(2) t by auto
qed

end
