(* ===== verification/Rpc_Recv.thy ===== *)
theory Rpc_Recv
  imports Rpc_Send
begin

text \<open>
  \<open>recv_rpc\<close>: the handler of one received message, split into the branches of its two switch
  statements. The state it works on is the node with its peer table, the message buffer, the
  \<open>wait\<close> flag of the caller's loop and the socket. \<open>alc\<close> answers the reallocations of this call, and
  \<open>stack\<close> is what an uninitialised 1024-byte buffer on the stack holds.
\<close>

subsection \<open>State\<close>

record rpc_ctx =
  x_node :: node_t
  x_msg :: rpc_msg
  x_wait :: bool
  x_net :: net

abbreviation x_table :: "rpc_ctx \<Rightarrow> peer_table" where
  "x_table c \<equiv> n_peer_table (x_node c)"

definition set_table :: "rpc_ctx \<Rightarrow> peer_table \<Rightarrow> rpc_ctx" where
  "set_table c t = c\<lparr>x_node := (x_node c)\<lparr>n_peer_table := t\<rparr>\<rparr>"

text \<open>
  Lines 102 to 106: every header field is converted in place. \<open>ntohl\<close> is applied to the 64-bit
  count and to the 16-bit number, and the method is converted through the call view of the union
  whatever the type of the message.
\<close>

definition decode_header :: "rpc_msg \<Rightarrow> rpc_msg" where
  "decode_header m =
     m\<lparr>m_body := set_cbody_method (ntohs_enum (cbody_method (m_body m))) (m_body m),
       m_segment_count := ucast (ntohl (ucast (m_segment_count m))),
       m_segment_number := ucast (ntohl (ucast (m_segment_number m))),
       m_msg_type := ntohs_enum (m_msg_type m)\<rparr>"

subsection \<open>Calls\<close>

text \<open>The reply to a \<open>GET_PEERS\<close> call whose bucket is to be sent: its length, then its peers.\<close>

definition send_bucket ::
    "u8 list \<Rightarrow> net \<Rightarrow> peer_bucket_t \<Rightarrow> origin \<Rightarrow> u8 list \<Rightarrow> (int \<times> net) outcome" where
  "send_bucket stack n bucket src_addr correlation_id =
     (let buffer = stack[0 := ucast (da_len bucket)];
          size = unat (of_nat sizeof_peer * da_len bucket) in
      bind_res (memcpy buffer 1 (concat (map peer_bytes (da_data bucket))) size) (\<lambda>buffer.
      reply_rpc n GET_PEERS buffer (size + 1) src_addr correlation_id OK))"

definition recv_get_peers_call ::
    "u8 list \<Rightarrow> u8 list \<Rightarrow> node_array \<Rightarrow> origin \<Rightarrow> rpc_ctx \<Rightarrow> (int \<times> rpc_ctx) outcome" where
  "recv_get_peers_call stack hash_key sorted_neighbors reply_to c =
     (let payload = cbody_payload (m_body (x_msg c));
          cid = m_correlation_id (x_msg c);
          info_hash = take ID_SIZE (drop sizeof_origin payload) in
      bind_res (c_str info_hash) (\<lambda>_.
      bind_res (strcmp info_hash [0]) (\<lambda>cmp.
      if cmp < 0 then
        bind_res (reply_rpc (x_net c) GET_PEERS [0] 1 reply_to cid ERR) (\<lambda>(_, n).
        Inr (0, c\<lparr>x_net := n\<rparr>))
      else
        bind_res (get_peer_bucket (x_table c) info_hash) (\<lambda>found.
        case found of
          None \<Rightarrow>
            bind_res (reply_rpc (x_net c) GET_PEERS [0] 1 reply_to cid OK) (\<lambda>(r, n).
            Inr (r, c\<lparr>x_net := n\<rparr>))
        | Some i \<Rightarrow>
            bind_res (slot (x_table c) i) (\<lambda>bucket.
            let src = origin_of_bytes (take sizeof_origin payload);
                src_addr = src\<lparr>o_port := ntohs (o_port src)\<rparr> in
            bind_res (c_str (o_ip src_addr)) (\<lambda>_.
            if da_len bucket = 0 \<and> 0 < da_len sorted_neighbors then
              bind_res (get_peers stack (x_net c) (x_node c) sorted_neighbors hash_key src_addr reply_to)
                (\<lambda>(_, n). Inr (0, c\<lparr>x_net := n, x_wait := True\<rparr>))
            else
              bind_res (send_bucket stack (x_net c) bucket src_addr cid)
                (\<lambda>(_, n). Inr (0, c\<lparr>x_net := n, x_wait := False\<rparr>))))))))"

definition recv_join_call ::
    "peer_t allocator \<Rightarrow> u8 list \<Rightarrow> origin \<Rightarrow> rpc_ctx \<Rightarrow> (int \<times> rpc_ctx) outcome" where
  "recv_join_call alc hash_key reply_to c =
     bind_res (strcpy (p_ip zero_peer) (o_ip reply_to)) (\<lambda>ip.
     let new_peer = zero_peer\<lparr>p_port := o_port reply_to, p_state := peer_state_code PASSIVE_ST,
                              p_ip := ip\<rparr> in
     bind_res (reply_rpc (x_net c) JOIN [] 0 reply_to (m_correlation_id (x_msg c)) OK) (\<lambda>(r, n).
     if r < 0 then Inr (1, c\<lparr>x_net := n\<rparr>)
     else
       bind_res (set_peer alc (x_table c) hash_key new_peer) (\<lambda>t.
       Inr (0, set_table (c\<lparr>x_net := n\<rparr>) t))))"

subsection \<open>Replies\<close>

definition recv_get_peers_reply ::
    "peer_t allocator \<Rightarrow> u8 list \<Rightarrow> u8 list \<Rightarrow> rpc_ctx \<Rightarrow> (int \<times> rpc_ctx) outcome" where
  "recv_get_peers_reply alc stack hash_key c =
     (let body = m_body (x_msg c); payload = rbody_payload body; len = unat (payload ! 0) in
      if rbody_status body \<noteq> status_code OK then Inr (- 1, c)
      else if len = 0 then Inr (0, c)
      else
        bind_res (memcpy (take (sizeof_peer * MAX_PEER_BUCKETS) stack) 0 (drop 1 payload)
                    (sizeof_peer * len)) (\<lambda>p_buf.
        bind_res (fold_res (\<lambda>t p. set_peer alc t hash_key p) (x_table c) (peers_of_bytes len p_buf)) (\<lambda>t.
        bind_res (get_peer_bucket t hash_key) (\<lambda>found.
        case found of
          None \<Rightarrow> Inr (- 1, set_table c t)
        | Some i \<Rightarrow>
            bind_res (slot t i) (\<lambda>bucket.
            bind_res (print_peers_from_bucket bucket) (\<lambda>_.
            if INITIAL_CAP \<le> da_len bucket then
              bind_res (join_peers (x_net c) (x_node (set_table c t)) hash_key) (\<lambda>(r, n).
              if r \<noteq> 0 then Inl (Exit r)
              else Inr (0, (set_table c t)\<lparr>x_net := n, x_wait := False\<rparr>))
            else Inr (0, set_table c t)))))))"

definition recv_join_reply :: "u8 list \<Rightarrow> rpc_ctx \<Rightarrow> (int \<times> rpc_ctx) outcome" where
  "recv_join_reply hash_key c =
     (if rbody_status (m_body (x_msg c)) \<noteq> status_code OK then Inr (- 1, c)
      else bind_res (c_str hash_key) (\<lambda>_. Inr (0, c)))"

subsection \<open>The handler\<close>

definition recv_rpc ::
    "peer_t allocator \<Rightarrow> u8 list \<Rightarrow> u8 list \<Rightarrow> node_array \<Rightarrow> rpc_ctx \<Rightarrow> (int \<times> rpc_ctx) outcome" where
  "recv_rpc alc stack hash_key sorted_neighbors c =
     bind_res (strcpy (o_ip zero_origin) (o_ip (m_origin (x_msg c)))) (\<lambda>ip.
     let reply_to = \<lparr>o_port = ntohs (o_port (m_origin (x_msg c))), o_ip = ip\<rparr>;
         msg = decode_header (x_msg c);
         c' = c\<lparr>x_msg := msg\<rparr> in
     if m_msg_type msg = type_code CALL then
       (let method = cbody_method (m_body msg) in
        if method = method_code GET_PEERS
        then recv_get_peers_call stack hash_key sorted_neighbors reply_to c'
        else if method = method_code JOIN then recv_join_call alc hash_key reply_to c'
        else Inr (0, c'))
     else
       (let method = rbody_method (m_body msg) in
        if method = method_code GET_PEERS then recv_get_peers_reply alc stack hash_key c'
        else if method = method_code JOIN then recv_join_reply hash_key c'
        else Inr (0, c')))"

subsection \<open>Facts about decoding\<close>

definition caller :: "rpc_msg \<Rightarrow> origin" where
  "caller m = \<lparr>o_port = ntohs (o_port (m_origin m)), o_ip = pad (o_ip (m_origin m))\<rparr>"

lemma wf_caller [simp]: "wf_msg m \<Longrightarrow> wf_origin (caller m)"
  by (simp add: caller_def wf_msg_def wf_origin_def)

lemma set_table_simps [simp]:
  "x_table (set_table c t) = t" "x_msg (set_table c t) = x_msg c" "x_net (set_table c t) = x_net c"
  "x_wait (set_table c t) = x_wait c" "n_ip (x_node (set_table c t)) = n_ip (x_node c)"
  "n_port (x_node (set_table c t)) = n_port (x_node c)" "n_id (x_node (set_table c t)) = n_id (x_node c)"
  by (simp_all add: set_table_def)

lemma ntohl_short: "ucast (ntohl (ucast (w :: u16)) :: u32) = (0 :: u16)"
proof (rule bit_word_eqI)
  fix n
  assume n: "n < LENGTH(16)"
  have "\<not> bit w k" if "16 \<le> k" for k using bit_imp_le_length [of w k] that by auto
  moreover from n have "n \<in> {0, 1, 2, 3, 4, 5, 6, 7, 8, 9, 10, 11, 12, 13, 14, 15}" by (simp, presburger)
  ultimately show "bit (ucast (ntohl (ucast w :: u32)) :: u16) n \<longleftrightarrow> bit (0 :: u16) n"
    by (auto simp: ntohl_def bit_simps)
qed

lemma ntohl_zero [simp]: "ntohl 0 = 0"
  by (simp add: ntohl_def)

lemma decode_header_simps [simp]:
  "m_segment_number (decode_header m) = 0" "m_origin (decode_header m) = m_origin m"
  "m_correlation_id (decode_header m) = m_correlation_id m"
  "m_msg_type (decode_header m) = ntohs_enum (m_msg_type m)"
  "m_body (decode_header m) = set_cbody_method (ntohs_enum (cbody_method (m_body m))) (m_body m)"
  by (simp_all add: decode_header_def ntohl_short)

lemma recv_rpc_dispatch:
  assumes "wf_origin (m_origin (x_msg c))"
  shows "recv_rpc alc stack hash_key nbs c =
    (let msg = decode_header (x_msg c); c' = c\<lparr>x_msg := msg\<rparr> in
     if m_msg_type msg = type_code CALL then
       (if cbody_method (m_body msg) = method_code GET_PEERS
        then recv_get_peers_call stack hash_key nbs (caller (x_msg c)) c'
        else if cbody_method (m_body msg) = method_code JOIN
        then recv_join_call alc hash_key (caller (x_msg c)) c' else Inr (0, c'))
     else
       (if rbody_method (m_body msg) = method_code GET_PEERS then recv_get_peers_reply alc stack hash_key c'
        else if rbody_method (m_body msg) = method_code JOIN then recv_join_reply hash_key c'
        else Inr (0, c')))"
proof -
  have "strcpy (o_ip zero_origin) (o_ip (m_origin (x_msg c))) = Inr (pad (o_ip (m_origin (x_msg c))))"
    using assms by (intro strcpy_pad) (auto simp: wf_origin_def)
  then show ?thesis by (simp add: recv_rpc_def caller_def Let_def del: strcpy_eq_Inr)
qed

lemma method_code_inj [simp]: "method_code a = method_code b \<longleftrightarrow> a = b"
  by (cases a; cases b) simp_all

lemma type_code_neq [simp]: "type_code REPLY \<noteq> type_code CALL"
  by simp

text \<open>The receiver's view of what \<open>call_rpc\<close> and \<open>reply_rpc\<close> sent.\<close>

definition received_call :: "METHOD \<Rightarrow> u8 list \<Rightarrow> origin \<Rightarrow> rpc_msg" where
  "received_call method pl host =
     (call_msg method pl host)\<lparr>m_msg_type := type_code CALL, m_body := call_body pl (method_code method)\<rparr>"

lemma decode_call_msg:
  "length pl = MAX_PAYLOAD_SIZE \<Longrightarrow> decode_header (call_msg m pl host) = received_call m pl host"
  by (simp add: decode_header_def received_call_def call_msg_def del: type_code.simps)

lemma caller_call_msg [simp]: "caller (call_msg m pl host) = canon host"
  by (simp add: caller_def call_msg_def canon_def)

lemma recv_rpc_call:
  assumes "x_msg c = call_msg m pl host" "length pl = MAX_PAYLOAD_SIZE" "wf_origin host"
  shows "recv_rpc alc stack hash_key nbs c =
    (case m of
       GET_PEERS \<Rightarrow> recv_get_peers_call stack hash_key nbs (canon host) (c\<lparr>x_msg := received_call m pl host\<rparr>)
     | JOIN \<Rightarrow> recv_join_call alc hash_key (canon host) (c\<lparr>x_msg := received_call m pl host\<rparr>)
     | _ \<Rightarrow> Inr (0, c\<lparr>x_msg := received_call m pl host\<rparr>))"
proof -
  have "wf_origin (m_origin (x_msg c))"
    using assms by (simp add: call_msg_def wf_origin_def)
  then show ?thesis
    using assms
    by (simp add: recv_rpc_dispatch decode_call_msg received_call_def Let_def split: METHOD.split)
qed

definition received_reply :: "METHOD \<Rightarrow> u8 list \<Rightarrow> u8 list \<Rightarrow> MSG_STATUS \<Rightarrow> rpc_msg" where
  "received_reply method pl cid status = decode_header (reply_msg method pl cid status)"

lemma received_reply_body:
  assumes "length pl = MAX_PAYLOAD_SIZE"
  shows "rbody_method (m_body (received_reply m pl cid st)) = htons_enum (method_code m)"
    and "rbody_status (m_body (received_reply m pl cid st)) = htons_enum (status_code st)"
    and "n \<le> 1016 \<Longrightarrow> take n (rbody_payload (m_body (received_reply m pl cid st))) = take n pl"
    and "m_msg_type (received_reply m pl cid st) = type_code REPLY"
  using reply_body_fields [OF assms]
  by (simp_all add: received_reply_def reply_msg_def del: type_code.simps)

lemma recv_rpc_reply:
  assumes "x_msg c = reply_msg m pl cid st" "length pl = MAX_PAYLOAD_SIZE"
  shows "recv_rpc alc stack hash_key nbs c =
    (if m = GET_PEERS
     then recv_get_peers_reply alc stack hash_key (c\<lparr>x_msg := received_reply m pl cid st\<rparr>)
     else Inr (0, c\<lparr>x_msg := received_reply m pl cid st\<rparr>))"
proof -
  have o: "wf_origin (m_origin (x_msg c))"
    using assms by (simp add: reply_msg_def wf_origin_def zero_origin_def INET_ADDRSTRLEN_def)
  have "htons_enum (method_code m) \<noteq> method_code JOIN"
    using htons_method_not_small [of m JOIN] by auto
  then show ?thesis
    using received_reply_body [OF assms(2), where m = m and cid = cid and st = st] assms(1)
    by (auto simp: recv_rpc_dispatch [OF o] received_reply_def Let_def simp del: decode_header_simps type_code.simps)
qed

subsection \<open>Facts about sending a bucket\<close>

definition peer_list_bytes :: "peer_t list \<Rightarrow> u8 list" where
  "peer_list_bytes ps = of_nat (length ps) # concat (map peer_bytes ps)"

definition bucket_reply :: "u8 list \<Rightarrow> peer_t list \<Rightarrow> rpc_msg" where
  "bucket_reply cid ps =
     reply_msg GET_PEERS (fill (peer_list_bytes ps) (sizeof_peer * length ps + 1)) cid OK"

lemma length_peer_list_bytes:
  "list_all wf_peer ps \<Longrightarrow> length (peer_list_bytes ps) = sizeof_peer * length ps + 1"
  by (simp add: peer_list_bytes_def length_peers_bytes)

lemma bucket_bytes:
  assumes "wf_bucket b" "list_all wf_peer (elems b)"
  shows "take (sizeof_peer * length (elems b)) (concat (map peer_bytes (da_data b))) =
      concat (map peer_bytes (elems b))"
    and "sizeof_peer * length (elems b) \<le> length (concat (map peer_bytes (da_data b)))"
proof -
  have d: "da_data b = elems b @ drop (unat (da_len b)) (da_data b)" by (simp add: elems_def)
  have l: "length (concat (map peer_bytes (elems b))) = sizeof_peer * length (elems b)"
    by (rule length_peers_bytes [OF assms(2)])
  have c: "concat (map peer_bytes (da_data b)) =
      concat (map peer_bytes (elems b)) @ concat (map peer_bytes (drop (unat (da_len b)) (da_data b)))"
    by (subst d) (simp only: map_append concat_append)
  show "take (sizeof_peer * length (elems b)) (concat (map peer_bytes (da_data b))) =
      concat (map peer_bytes (elems b))"
    unfolding c by (simp flip: l)
  show "sizeof_peer * length (elems b) \<le> length (concat (map peer_bytes (da_data b)))"
    unfolding c by (simp flip: l)
qed

lemma unat_bucket_size:
  assumes "wf_bucket b"
  shows "unat (of_nat sizeof_peer * da_len b) = sizeof_peer * length (elems b)"
proof -
  have "unat (da_len b) * 40 \<le> unat (da_cap b) * 40"
    using assms by (simp add: wf_array_def word_le_nat_alt)
  also have "\<dots> \<le> 2 ^ 63 - 1" using assms by (simp add: wf_array_def sizeof_peer_def PTRDIFF_MAX_def)
  finally have "40 * unat (da_len b) < 2 ^ LENGTH(64)" by simp
  moreover have "length (elems b) = unat (da_len b)" using assms by simp
  ultimately show ?thesis by (simp add: unat_word_ariths sizeof_peer_def)
qed

lemma send_bucket_eq:
  assumes b: "wf_bucket b" "list_all wf_peer (elems b)" and src: "wf_origin src"
    and cid: "0 \<in> set cid" "length cid = CORRELATAION_ID_SIZE" and st: "length stack = MAX_PAYLOAD_SIZE"
  shows "send_bucket stack n b src cid =
    (if 26 \<le> length (elems b) then Inl OOB_write
     else Inr (if send_ok n (sends n) then 0 else - 1,
               snd (sendto n (ip_addr src, bucket_reply (pad_id cid) (elems b)))))"
proof -
  let ?n = "length (elems b)" and ?bs = "concat (map peer_bytes (elems b))"
  let ?buf = "stack[0 := ucast (da_len b)]"
  note sz = unat_bucket_size [OF b(1)]
  have big: "MAX_PAYLOAD_SIZE < 1 + sizeof_peer * ?n \<longleftrightarrow> 26 \<le> ?n"
    by (auto simp: MAX_PAYLOAD_SIZE_def sizeof_peer_def)
  have c: "memcpy ?buf 1 (concat (map peer_bytes (da_data b))) (sizeof_peer * ?n) =
      (if 26 \<le> ?n then Inl OOB_write
       else Inr (take 1 ?buf @ ?bs @ drop (1 + sizeof_peer * ?n) ?buf))"
    using bucket_bytes [OF b] big st by (simp add: memcpy_def)
  show ?thesis
  proof (cases "26 \<le> ?n")
    case True
    then show ?thesis using c sz by (simp add: send_bucket_def Let_def)
  next
    case False
    let ?pl = "take 1 ?buf @ ?bs @ drop (1 + sizeof_peer * ?n) ?buf"
    have len: "length ?bs = sizeof_peer * ?n" by (rule length_peers_bytes [OF b(2)])
    have small: "sizeof_peer * ?n + 1 \<le> MAX_PAYLOAD_SIZE" using False big by simp
    have "length ?pl = MAX_PAYLOAD_SIZE" using st len small by simp
    have "ucast (da_len b) = (of_nat ?n :: u8)"
      using b(1) by (simp add: of_nat_unat)
    moreover have "stack \<noteq> []" using st by (auto simp: MAX_PAYLOAD_SIZE_def)
    ultimately have hd: "take 1 ?buf = [of_nat ?n]" by (cases stack) simp_all
    have "take (sizeof_peer * ?n + 1) ?pl = peer_list_bytes (elems b)"
      unfolding hd using len by (simp add: peer_list_bytes_def)
    then have f: "fill ?pl (sizeof_peer * ?n + 1) = fill (peer_list_bytes (elems b)) (sizeof_peer * ?n + 1)"
      unfolding fill_def using length_peer_list_bytes [OF b(2)] by simp
    have "reply_datagram GET_PEERS ?pl (sizeof_peer * ?n + 1) src cid OK =
        Inr (ip_addr src, bucket_reply (pad_id cid) (elems b))"
      unfolding bucket_reply_def f [symmetric]
      by (rule reply_datagram_eq) (use src cid small \<open>length ?pl = MAX_PAYLOAD_SIZE\<close> in \<open>simp_all add: wf_origin_def\<close>)
    then have "reply_rpc n GET_PEERS ?pl (sizeof_peer * ?n + 1) src cid OK =
        Inr (if send_ok n (sends n) then 0 else - 1,
             snd (sendto n (ip_addr src, bucket_reply (pad_id cid) (elems b))))"
      using reply.send_render [of "(GET_PEERS, ?pl, sizeof_peer * ?n + 1, src, cid, OK)"] by simp
    then show ?thesis using c sz False by (simp add: send_bucket_def Let_def)
  qed
qed

subsection \<open>Facts about the branches\<close>

definition wf_peers :: "peer_table \<Rightarrow> bool" where
  "wf_peers t \<longleftrightarrow> wf_table t \<and> (\<forall>i < MAX_PEER_BUCKETS. list_all wf_peer (peers_at t i))"

lemma wf_peers_at: "wf_peers t \<Longrightarrow> hash key = Inr h \<Longrightarrow> list_all wf_peer (peers_at t (unat h))"
  using hash_bound by (simp add: wf_peers_def)

lemma wf_peers_append:
  assumes "wf_peers t" "wf_table t'" "peers_at t' = (peers_at t)(i := peers_at t i @ ps)"
    "i < MAX_PEER_BUCKETS" "list_all wf_peer ps"
  shows "wf_peers t'"
  using assms by (simp add: wf_peers_def)

definition request_src :: "u8 list \<Rightarrow> origin" where
  "request_src payload =
     (let x = origin_of_bytes (take sizeof_origin payload) in x\<lparr>o_port := ntohs (o_port x)\<rparr>)"

definition request_hash :: "u8 list \<Rightarrow> u8 list" where
  "request_hash payload = take ID_SIZE (drop sizeof_origin payload)"

text \<open>One attempt to hand a datagram to the kernel, with the code's result.\<close>

definition attempt :: "net \<Rightarrow> sockaddr_in \<Rightarrow> rpc_msg \<Rightarrow> int \<times> net" where
  "attempt n dst m = (if send_ok n (sends n) then 0 else - 1, snd (sendto n (dst, m)))"

definition forward ::
    "u8 list \<Rightarrow> net \<Rightarrow> node_t \<Rightarrow> node_t list \<Rightarrow> u8 list \<Rightarrow> origin \<Rightarrow> origin \<Rightarrow> net" where
  "forward stack n node nodes info_hash src reply_to =
     (case first_asked reply_to nodes of
        None \<Rightarrow> n
      | Some nd \<Rightarrow> snd (attempt n (ip_addr (node_origin nd))
            (call_msg GET_PEERS (get_peers_payload stack info_hash src) (node_origin node))))"

lemma get_peers_forward:
  assumes "wf_nodes nbs" "list_all (\<lambda>nd. wf_ip (n_ip nd)) (elems nbs)"
    and "wf_origin reply_to" "wf_origin src" "wf_ip (n_ip node)"
    and "length info_hash = ID_SIZE" "length stack = MAX_PAYLOAD_SIZE"
  shows "\<exists>r. get_peers stack n node nbs info_hash src reply_to =
    Inr (r, forward stack n node (elems nbs) info_hash src reply_to)"
proof (cases "first_asked reply_to (elems nbs)")
  case None
  then show ?thesis by (simp add: get_peers_eq [OF assms] forward_def)
next
  case (Some nd)
  then have "wf_ip (n_ip nd)" using assms(2) by (auto simp: first_asked_def find_Some_iff list_all_length)
  then show ?thesis
    using Some assms call_rpc_get_peers [of nd node src info_hash stack n]
    by (simp add: get_peers_eq [OF assms] forward_def attempt_def)
qed

lemma reply_rpc_attempt:
  assumes "wf_origin dst" "0 \<in> set cid" "length cid = CORRELATAION_ID_SIZE"
    "k \<le> length p" "k \<le> MAX_PAYLOAD_SIZE"
  shows "reply_rpc n m p k dst cid st = Inr (attempt n (ip_addr dst) (reply_msg m (fill p k) (pad_id cid) st))"
  using reply.send_render [of "(m, p, k, dst, cid, st)"] reply_datagram_eq [of dst cid k p m st] assms
  by (simp add: attempt_def wf_origin_def)

lemma fill_bucket_reply_empty: "reply_msg GET_PEERS (fill [0] (Suc 0)) cid OK = bucket_reply cid []"
  by (simp add: bucket_reply_def peer_list_bytes_def)

lemma strcmp_empty: "0 \<in> set xs \<Longrightarrow> \<exists>i. strcmp xs [0] = Inr i \<and> \<not> i < 0"
  by (cases xs) auto

lemma recv_get_peers_call_eq:
  assumes t: "wf_peers (x_table c)" and ip: "wf_ip (n_ip (x_node c))"
    and nbs: "wf_nodes nbs" "list_all (\<lambda>nd. wf_ip (n_ip nd)) (elems nbs)"
    and hk: "length hash_key = ID_SIZE" and st: "length stack = MAX_PAYLOAD_SIZE"
    and rt: "wf_origin reply_to"
    and pl: "cbody_payload (m_body (x_msg c)) = pl" and src: "wf_origin (request_src pl)"
    and cid: "m_correlation_id (x_msg c) = cid" "0 \<in> set cid" "length cid = CORRELATAION_ID_SIZE"
    and h: "hash (request_hash pl) = Inr h"
  shows "recv_get_peers_call stack hash_key nbs reply_to c =
    (if get_peer_bucket (x_table c) (request_hash pl) = Inr None
     then (case attempt (x_net c) (ip_addr reply_to) (bucket_reply (pad_id cid) []) of
             (r, n) \<Rightarrow> Inr (r, c\<lparr>x_net := n\<rparr>))
     else if peers_at (x_table c) (unat h) = [] \<and> elems nbs \<noteq> []
     then Inr (0, c\<lparr>x_net := forward stack (x_net c) (x_node c) (elems nbs) hash_key (request_src pl) reply_to,
                    x_wait := True\<rparr>)
     else if 26 \<le> length (peers_at (x_table c) (unat h)) then Inl OOB_write
     else Inr (0, c\<lparr>x_net := snd (attempt (x_net c) (ip_addr (request_src pl))
                                (bucket_reply (pad_id cid) (peers_at (x_table c) (unat h)))),
                    x_wait := False\<rparr>))"
proof -
  let ?hash = "request_hash pl" and ?src = "request_src pl"
  have z: "0 \<in> set ?hash" using h hash_iff by blast
  then obtain i where i: "strcmp ?hash [0] = Inr i" "\<not> i < 0" using strcmp_empty by blast
  obtain b where b: "slot (x_table c) (unat h) = Inr b" "wf_bucket b" "peers_at (x_table c) (unat h) = elems b"
    using wf_table_slot [OF _ hash_bound [OF h]] t by (metis wf_peers_def)
  have ps: "list_all wf_peer (elems b)" using wf_peers_at [OF t h] b(3) by simp
  have len: "unat (da_len b) = length (elems b)" "unat (da_len nbs) = length (elems nbs)"
    using b(2) nbs(1) by simp_all
  have empty: "da_len b = 0 \<longleftrightarrow> elems b = []" "0 < da_len nbs \<longleftrightarrow> elems nbs \<noteq> []"
    using len by (auto simp: word_less_nat_alt unat_eq_0 [symmetric] simp del: length_elems)
  have c_src: "c_str (o_ip (origin_of_bytes (take sizeof_origin pl))) = Inr (cstr (o_ip ?src))"
    using src by (simp add: wf_origin_def request_src_def Let_def)
  have g: "get_peer_bucket (x_table c) ?hash = Inr (Some (unat h)) \<or> get_peer_bucket (x_table c) ?hash = Inr None"
    using b(1) h by (simp add: get_peer_bucket_def)
  show ?thesis
  proof (cases "get_peer_bucket (x_table c) ?hash = Inr None")
    case True
    then show ?thesis
      using z i pl cid reply_rpc_attempt [OF rt cid(2,3), of 1 "[0]"]
      by (simp add: recv_get_peers_call_def Let_def flip: request_hash_def fill_bucket_reply_empty)
         (simp add: fill_bucket_reply_empty MAX_PAYLOAD_SIZE_def c_str_def split: prod.split)
  next
    case False
    then have g': "get_peer_bucket (x_table c) ?hash = Inr (Some (unat h))" using g by blast
    obtain r where r: "get_peers stack (x_net c) (x_node c) nbs hash_key ?src reply_to =
        Inr (r, forward stack (x_net c) (x_node c) (elems nbs) hash_key ?src reply_to)"
      using get_peers_forward [OF nbs rt src ip hk st] by blast
    show ?thesis
      using z i pl cid g' b(1,3) empty c_src r send_bucket_eq [OF b(2) ps src cid(2,3) st, of "x_net c"]
      by (simp add: recv_get_peers_call_def attempt_def Let_def flip: request_hash_def)
         (simp add: request_src_def c_str_def Let_def)
  qed
qed

definition joiner :: "origin \<Rightarrow> peer_t" where
  "joiner x = zero_peer\<lparr>p_port := o_port x, p_ip := pad (o_ip x)\<rparr>"

lemma wf_joiner [simp]: "wf_origin x \<Longrightarrow> wf_peer (joiner x)"
  by (simp add: joiner_def wf_peer_def wf_origin_def zero_peer_def)

lemma recv_join_call_eq:
  assumes rt: "wf_origin reply_to"
    and cid: "m_correlation_id (x_msg c) = cid" "0 \<in> set cid" "length cid = CORRELATAION_ID_SIZE"
  shows "recv_join_call alc hash_key reply_to c =
    (case attempt (x_net c) (ip_addr reply_to) (reply_msg JOIN (fill [] 0) (pad_id cid) OK) of
       (r, n) \<Rightarrow>
         if r < 0 then Inr (1, c\<lparr>x_net := n\<rparr>)
         else bind_res (set_peer alc (x_table c) hash_key (joiner reply_to)) (\<lambda>t.
              Inr (0, set_table (c\<lparr>x_net := n\<rparr>) t)))"
proof -
  have "strcpy (p_ip zero_peer) (o_ip reply_to) = Inr (pad (o_ip reply_to))"
    using strcpy_pad [of "o_ip reply_to"] rt
    by (simp add: wf_origin_def zero_peer_def zero_origin_def INET_ADDRSTRLEN_def del: strcpy_eq_Inr)
  then show ?thesis
    using reply_rpc_attempt [OF rt cid(2,3), of 0 "[]"] cid(1)
    by (simp add: recv_join_call_def joiner_def Let_def zero_peer_def del: strcpy_eq_Inr split: prod.split)
qed

subsection \<open>Facts about storing a peer list\<close>

lemma wf_peer_of_bytes:
  assumes "i < n" "sizeof_peer * n \<le> length bs"
  shows "length (p_ip (peers_of_bytes n bs ! i)) = INET_ADDRSTRLEN"
    and "length (p_job_id (peers_of_bytes n bs ! i)) = 16"
proof -
  have "sizeof_peer * Suc i \<le> sizeof_peer * n" using assms(1) by (intro mult_le_mono2) simp
  then have "40 * i + 40 \<le> length bs" using assms(2) by (simp add: sizeof_peer_def)
  then show "length (p_ip (peers_of_bytes n bs ! i)) = INET_ADDRSTRLEN"
    "length (p_job_id (peers_of_bytes n bs ! i)) = 16"
    using assms(1) by (simp_all add: peers_of_bytes_def peer_of_bytes_def INET_ADDRSTRLEN_def sizeof_peer_def)
qed

lemma length_peers_of_bytes [simp]: "length (peers_of_bytes n bs) = n"
  by (simp add: peers_of_bytes_def)

definition terminated :: "peer_t \<Rightarrow> bool" where
  "terminated p \<longleftrightarrow> 0 \<in> set (p_ip p)"

lemma wf_peers_of_bytes:
  assumes "sizeof_peer * n \<le> length bs"
  shows "list_all wf_peer (peers_of_bytes n bs) \<longleftrightarrow> list_all terminated (peers_of_bytes n bs)"
  using wf_peer_of_bytes [OF _ assms] by (auto simp: list_all_length wf_peer_def terminated_def)

lemma print_peers_eq:
  assumes "wf_bucket b"
  shows "print_peers_from_bucket b = (if list_all terminated (elems b) then Inr () else Inl OOB_read)"
proof -
  have "fold_res (\<lambda>_ i. if i < length (da_data b)
                     then bind_res (c_str (p_ip (da_data b ! i))) (\<lambda>_. Inr ())
                     else Inl OOB_read) () [0..<k] =
      (if list_all terminated (take k (da_data b)) then Inr () else Inl OOB_read)"
    if "k \<le> length (da_data b)" for k
    using that
  proof (induction k)
    case (Suc k)
    then show ?case
      by (auto simp: fold_res_append take_Suc_conv_app_nth terminated_def c_str_def)
  qed simp
  moreover have "unat (da_len b) \<le> length (da_data b)"
    using assms by (simp add: wf_array_def word_le_nat_alt)
  ultimately show ?thesis by (simp add: print_peers_from_bucket_def elems_def)
qed

lemma reply_peers_copy:
  assumes "sizeof_peer * n < length payload" "n \<le> MAX_PEER_BUCKETS" "length stack = MAX_PAYLOAD_SIZE"
  shows "\<exists>buf. memcpy (take (sizeof_peer * MAX_PEER_BUCKETS) stack) 0 (drop 1 payload) (sizeof_peer * n) = Inr buf \<and>
    peers_of_bytes n buf = peers_of_bytes n (drop 1 payload)"
proof -
  have le: "sizeof_peer * n \<le> sizeof_peer * MAX_PEER_BUCKETS" using assms(2) by simp
  let ?t = "take (sizeof_peer * n) (drop 1 payload)"
  let ?buf = "?t @ drop (sizeof_peer * n) (take (sizeof_peer * MAX_PEER_BUCKETS) stack)"
  have l: "length ?t = sizeof_peer * n" using assms(1) by simp
  have "peers_of_bytes n ?buf = peers_of_bytes n (take (sizeof_peer * n) ?buf)"
    by (rule peers_of_bytes_take [symmetric]) simp
  also have "take (sizeof_peer * n) ?buf = ?t" using l by simp
  also have "peers_of_bytes n ?t = peers_of_bytes n (drop 1 payload)"
    by (rule peers_of_bytes_take) simp
  finally show ?thesis
    using assms(1,3) le
    by (intro exI [of _ ?buf]) (simp add: memcpy_def sizeof_peer_def MAX_PEER_BUCKETS_def MAX_PAYLOAD_SIZE_def)
qed

lemma reply_overflow:
  assumes "rbody_status (m_body (x_msg c)) = status_code OK" "10 < rbody_payload (m_body (x_msg c)) ! 0"
    "length stack = MAX_PAYLOAD_SIZE"
  shows "recv_get_peers_reply alc stack hash_key c = Inl OOB_write"
proof -
  have "10 < unat (rbody_payload (m_body (x_msg c)) ! 0)" using assms(2) by (simp add: word_less_nat_alt)
  then show ?thesis
    using assms(1,3)
    by (simp add: recv_get_peers_reply_def Let_def memcpy_def sizeof_peer_def MAX_PEER_BUCKETS_def
        MAX_PAYLOAD_SIZE_def)
qed

definition reply_peers :: "rpc_msg \<Rightarrow> peer_t list" where
  "reply_peers m =
     (let payload = rbody_payload (m_body m) in peers_of_bytes (unat (payload ! 0)) (drop 1 payload))"

definition store_peers :: "peer_t allocator \<Rightarrow> u8 list \<Rightarrow> peer_table \<Rightarrow> peer_t list \<Rightarrow> peer_table outcome" where
  "store_peers alc key t ps = fold_res (\<lambda>t p. set_peer alc t key p) t ps"

lemma store_peers_ok:
  assumes "wf_table t" "hash key = Inr h" "store_peers alc key t ps = Inr t'"
  shows "wf_table t'" "peers_at t' = (peers_at t)(unat h := peers_at t (unat h) @ ps)"
  using pt.put_all [of t key "unat h" alc ps t'] assms by (simp_all add: store_peers_def slot_of_def)

lemma store_peers_stops:
  assumes "wf_table t" "hash key = Inr h" "store_peers alc key t ps = Inl e"
  shows "e = Exit 1"
  using pt.put_all_stops [of t key "unat h" alc ps e] assms by (simp add: store_peers_def slot_of_def)

lemma store_peers_short:
  assumes "wf_table t" "hash key = Inr h" "store_peers alc key t ps = Inl e"
  shows "cannot_grow alc (length (peers_at t (unat h))) (length ps)"
  using assms
proof (induction ps arbitrary: t)
  case Nil
  then show ?case by (simp add: store_peers_def)
next
  case (Cons p ps)
  show ?case
  proof (cases "set_peer alc t key p")
    case (Inl e')
    then show ?thesis
      using set_peer_stops_iff [OF Cons.prems(1,2)] bucket_stuck_grow [OF Cons.prems(1) hash_bound [OF Cons.prems(2)]] by simp
  next
    case (Inr t1)
    note s = set_peer_ok [OF Cons.prems(1,2) Inr]
    have "store_peers alc key t1 ps = Inl e" using Cons.prems(3) Inr by (simp add: store_peers_def)
    then have "cannot_grow alc (length (peers_at t1 (unat h))) (length ps)"
      using s Cons.prems(2) by (intro Cons.IH) simp_all
    then obtain j where "j < length ps" "refuses sizeof_peer alc (Suc (length (peers_at t (unat h))) + j)"
      using s by (auto simp: cannot_grow_def)
    then show ?thesis unfolding cannot_grow_def by (intro exI [of _ "Suc j"]) simp
  qed
qed

lemma store_peers_succeeds:
  assumes "wf_table t" "hash key = Inr h" "\<forall>n. alc n \<noteq> None"
    and "2 * (length (peers_at t (unat h)) + length ps) * sizeof_peer \<le> PTRDIFF_MAX"
  shows "\<exists>t'. store_peers alc key t ps = Inr t'"
  using assms
proof (induction ps arbitrary: t)
  case Nil
  then show ?case by (simp add: store_peers_def)
next
  case (Cons p ps)
  have "2 * length (peers_at t (unat h)) * sizeof_peer \<le>
      2 * (length (peers_at t (unat h)) + length (p # ps)) * sizeof_peer"
    by (intro mult_le_mono) simp_all
  then have "2 * length (peers_at t (unat h)) * sizeof_peer \<le> PTRDIFF_MAX" using Cons.prems(4) by linarith
  then obtain t1 where t1: "set_peer alc t key p = Inr t1"
    using set_peer_succeeds [OF Cons.prems(1-3)] by blast
  then have "\<exists>t'. store_peers alc key t1 ps = Inr t'"
    using set_peer_ok [OF Cons.prems(1,2) t1] Cons.prems by (intro Cons.IH) simp_all
  then show ?case using t1 by (simp add: store_peers_def)
qed

lemma recv_get_peers_reply_eq:
  assumes t: "wf_peers (x_table c)" and ip: "wf_ip (n_ip (x_node c))"
    and st: "length stack = MAX_PAYLOAD_SIZE" and h: "hash hash_key = Inr h"
    and body: "length (m_body (x_msg c)) = sizeof_body"
    and ok: "rbody_status (m_body (x_msg c)) = status_code OK"
    and len: "reply_peers (x_msg c) \<noteq> []" "length (reply_peers (x_msg c)) \<le> MAX_PEER_BUCKETS"
  obtains e where "store_peers alc hash_key (x_table c) (reply_peers (x_msg c)) = Inl e" "e = Exit 1"
      "recv_get_peers_reply alc stack hash_key c = Inl (Exit 1)"
  | t' where "store_peers alc hash_key (x_table c) (reply_peers (x_msg c)) = Inr t'"
      "wf_table t'" "peers_at t' = (peers_at (x_table c))
         (unat h := peers_at (x_table c) (unat h) @ reply_peers (x_msg c))"
      "\<not> list_all terminated (reply_peers (x_msg c))"
      "recv_get_peers_reply alc stack hash_key c = Inl OOB_read"
  | t' n' where "store_peers alc hash_key (x_table c) (reply_peers (x_msg c)) = Inr t'"
      "wf_peers t'" "peers_at t' = (peers_at (x_table c))
         (unat h := peers_at (x_table c) (unat h) @ reply_peers (x_msg c))"
      "list_all terminated (reply_peers (x_msg c))"
      "2 \<le> length (peers_at t' (unat h)) \<Longrightarrow>
         join_peers (x_net c) (x_node (set_table c t')) hash_key = Inr (0, n')"
      "recv_get_peers_reply alc stack hash_key c =
         Inr (0, if 2 \<le> length (peers_at t' (unat h))
                 then (set_table c t')\<lparr>x_net := n', x_wait := False\<rparr> else set_table c t')"
proof -
  let ?pl = "rbody_payload (m_body (x_msg c))" and ?ps = "reply_peers (x_msg c)"
  let ?n = "unat (?pl ! 0)"
  have wt: "wf_table (x_table c)" using t by (simp add: wf_peers_def)
  have n: "0 < ?n" "?n \<le> MAX_PEER_BUCKETS" using len by (simp_all add: reply_peers_def Let_def)
       (metis length_greater_0_conv length_peers_of_bytes)
  have lp: "length ?pl = MAX_PAYLOAD_SIZE" by (rule length_rbody_payload [OF body])
  have fits: "sizeof_peer * ?n < length ?pl"
    using n(2) lp by (simp add: sizeof_peer_def MAX_PEER_BUCKETS_def MAX_PAYLOAD_SIZE_def)
  obtain buf where buf: "memcpy (take (sizeof_peer * MAX_PEER_BUCKETS) stack) 0 (drop 1 ?pl) (sizeof_peer * ?n) = Inr buf"
    "peers_of_bytes ?n buf = ?ps"
    using reply_peers_copy [OF fits n(2) st] by (auto simp: reply_peers_def Let_def)
  have eq: "recv_get_peers_reply alc stack hash_key c =
      bind_res (store_peers alc hash_key (x_table c) ?ps) (\<lambda>t.
        bind_res (get_peer_bucket t hash_key) (\<lambda>found.
        case found of
          None \<Rightarrow> Inr (- 1, set_table c t)
        | Some i \<Rightarrow>
            bind_res (slot t i) (\<lambda>bucket.
            bind_res (print_peers_from_bucket bucket) (\<lambda>_.
            if INITIAL_CAP \<le> da_len bucket then
              bind_res (join_peers (x_net c) (x_node (set_table c t)) hash_key) (\<lambda>(r, n).
              if r \<noteq> 0 then Inl (Exit r)
              else Inr (0, (set_table c t)\<lparr>x_net := n, x_wait := False\<rparr>))
            else Inr (0, set_table c t)))))"
    using ok n(1) buf by (simp add: recv_get_peers_reply_def Let_def store_peers_def)
  show thesis
  proof (cases "store_peers alc hash_key (x_table c) ?ps")
    case (Inl e)
    then show thesis using that(1) [of e] store_peers_stops [OF wt h Inl] eq by simp
  next
    case (Inr t')
    note s = store_peers_ok [OF wt h Inr]
    obtain b where b: "slot t' (unat h) = Inr b" "wf_bucket b" "peers_at t' (unat h) = elems b"
      by (rule wf_table_slot [OF s(1) hash_bound [OF h]]) simp
    have ne: "peers_at t' (unat h) \<noteq> []" using s(2) len(1) by simp
    have el: "elems b = peers_at (x_table c) (unat h) @ ?ps" using s(2) b(3) by simp
    have old: "list_all terminated (peers_at (x_table c) (unat h))"
      using wf_peers_at [OF t h] by (auto simp: list_all_iff terminated_def wf_peer_def)
    note g = get_peer_bucket_present [OF s(1) h ne]
    have cap: "INITIAL_CAP \<le> da_len b \<longleftrightarrow> 2 \<le> length (peers_at t' (unat h))"
      using b by (simp add: INITIAL_CAP_def word_le_nat_alt)
    show thesis
    proof (cases "list_all terminated ?ps")
      case False
      then show thesis using that(2) [OF Inr s] Inr eq g b(1) print_peers_eq [OF b(2)] el by simp
    next
      case True
      have "list_all wf_peer ?ps"
        using wf_peers_of_bytes [of ?n "drop 1 ?pl"] fits True by (simp add: reply_peers_def Let_def)
      then have wp: "wf_peers t'" by (rule wf_peers_append [OF t s hash_bound [OF h]])
      have pr: "print_peers_from_bucket b = Inr ()" using print_peers_eq [OF b(2)] True old el by simp
      let ?nd = "x_node (set_table c t')"
      obtain n' where j: "join_peers (x_net c) ?nd hash_key = Inr (0, n')"
        using join_peers_eq [of ?nd hash_key h "x_net c"] s(1) h ip ne wf_peers_at [OF wp h] by auto
      show thesis
        by (rule that(3) [OF Inr wp s(2) True, of n']) (use j eq Inr g b(1) pr cap in simp_all)
    qed
  qed
qed

end
