(* ===== verification/Protocol.thy ===== *)
theory Protocol
  imports Rpc_Recv
begin

text \<open>
  What the message handler guarantees: the invariant it keeps on whatever arrives, what it sends,
  and the conversations between two nodes, composed from the senders and the handler.
\<close>

subsection \<open>What the handler keeps, whatever arrives\<close>

definition wf_ctx :: "u8 list \<Rightarrow> rpc_ctx \<Rightarrow> bool" where
  "wf_ctx stack c \<longleftrightarrow> wf_peers (x_table c) \<and> wf_ip (n_ip (x_node c)) \<and>
     length (m_body (x_msg c)) = sizeof_body \<and>
     length (o_ip (m_origin (x_msg c))) = INET_ADDRSTRLEN \<and> length stack = MAX_PAYLOAD_SIZE"

text \<open>The bucket of the info hash grows at its end; the rest of the node stays.\<close>

definition extends :: "nat \<Rightarrow> rpc_ctx \<Rightarrow> rpc_ctx \<Rightarrow> bool" where
  "extends i c c' \<longleftrightarrow> wf_peers (x_table c') \<and> x_node c' = (x_node c)\<lparr>n_peer_table := x_table c'\<rparr> \<and>
     (\<exists>ps. length ps \<le> MAX_PEER_BUCKETS \<and> peers_at (x_table c') = (peers_at (x_table c))(i := peers_at (x_table c) i @ ps))"

lemma extends_same: "wf_peers (x_table c) \<Longrightarrow> x_node c' = x_node c \<Longrightarrow> extends i c c'"
  unfolding extends_def by (auto intro!: exI [of _ "[]"])

lemma extends_x_msg: "x_node d = x_node c \<Longrightarrow> extends i d c' \<Longrightarrow> extends i c c'"
  by (simp add: extends_def)

lemma reply_rpc_result:
  "reply_rpc n m p k dst cid st = Inr (r, n') \<Longrightarrow> r = 0 \<or> r = - 1"
  using reply.send_effect [of n "(m, p, k, dst, cid, st)" r n'] by auto

lemma recv_get_peers_call_keeps:
  "recv_get_peers_call stack hash_key nbs reply_to c = Inr (r, c') \<Longrightarrow>
     x_node c' = x_node c \<and> (r = 0 \<or> r = - 1)"
  unfolding recv_get_peers_call_def
  by (auto simp: Let_def outcome_simps split: if_splits option.splits prod.splits dest: reply_rpc_result)

lemma recv_join_call_keeps:
  assumes t: "wf_peers (x_table c)" and h: "hash hash_key = Inr h"
    and r: "recv_join_call alc hash_key reply_to c = Inr (r, c')"
  shows "extends (unat h) c c' \<and> (r = 0 \<or> r = 1)"
proof -
  obtain ip n where ip: "strcpy (p_ip zero_peer) (o_ip reply_to) = Inr ip"
    and cases: "(r = 1 \<and> c' = c\<lparr>x_net := n\<rparr>) \<or>
      (\<exists>t'. set_peer alc (x_table c) hash_key
          (zero_peer\<lparr>p_port := o_port reply_to, p_state := peer_state_code PASSIVE_ST, p_ip := ip\<rparr>) = Inr t' \<and>
        r = 0 \<and> c' = set_table (c\<lparr>x_net := n\<rparr>) t')"
    using r unfolding recv_join_call_def
    by (auto simp: Let_def bind_res_eq_Inr split: if_splits prod.splits simp del: strcpy_eq_Inr)
  let ?p = "zero_peer\<lparr>p_port := o_port reply_to, p_state := peer_state_code PASSIVE_ST, p_ip := ip\<rparr>"
  have "wf_peer ?p"
    using strcpy_result [OF ip] by (simp add: wf_peer_def zero_peer_def INET_ADDRSTRLEN_def)
  moreover have wt: "wf_table (x_table c)" using t by (simp add: wf_peers_def)
  ultimately have "extends (unat h) c (set_table (c\<lparr>x_net := n\<rparr>) t')"
    if "set_peer alc (x_table c) hash_key ?p = Inr t'" for t'
    using set_peer_ok [OF wt h that] wf_peers_append [OF t, of t' "unat h" "[?p]"] hash_bound [OF h]
    by (auto simp: extends_def set_table_def MAX_PEER_BUCKETS_def intro!: exI [of _ "[?p]"])
  then show ?thesis using cases extends_same [OF t, of "c\<lparr>x_net := n\<rparr>"] by auto
qed

lemma recv_get_peers_reply_keeps:
  assumes c: "wf_ctx stack c" and h: "hash hash_key = Inr h"
    and r: "recv_get_peers_reply alc stack hash_key c = Inr (r, c')"
  shows "extends (unat h) c c' \<and> (r = 0 \<or> r = - 1)"
proof -
  have t: "wf_peers (x_table c)" "wf_ip (n_ip (x_node c))" "length stack = MAX_PAYLOAD_SIZE"
    "length (m_body (x_msg c)) = sizeof_body"
    using c by (simp_all add: wf_ctx_def)
  consider "rbody_status (m_body (x_msg c)) \<noteq> status_code OK" | "reply_peers (x_msg c) = []"
    | "rbody_status (m_body (x_msg c)) = status_code OK" "reply_peers (x_msg c) \<noteq> []"
    by blast
  then show ?thesis
  proof cases
    case 1
    then show ?thesis using r extends_same [OF t(1)] by (auto simp: recv_get_peers_reply_def Let_def)
  next
    case 2
    then have "unat (rbody_payload (m_body (x_msg c)) ! 0) = 0"
      by (metis length_peers_of_bytes list.size(3) reply_peers_def)
    then show ?thesis
      using r extends_same [OF t(1)] by (auto simp: recv_get_peers_reply_def Let_def split: if_splits)
  next
    case 3
    have "\<not> 10 < rbody_payload (m_body (x_msg c)) ! 0"
      using reply_overflow [OF 3(1) _ t(3), of alc hash_key] r by auto
    then have le: "length (reply_peers (x_msg c)) \<le> MAX_PEER_BUCKETS"
      by (simp add: reply_peers_def Let_def MAX_PEER_BUCKETS_def word_less_nat_alt)
    show ?thesis
      by (rule recv_get_peers_reply_eq [OF t(1-3) h t(4) 3 le, of alc])
        (use r le in \<open>auto simp: extends_def set_table_def split: if_splits\<close>)
  qed
qed

lemma recv_rpc_extends:
  assumes c: "wf_ctx stack c" and h: "hash hash_key = Inr h"
    and r: "recv_rpc alc stack hash_key nbs c = Inr (r, c')"
  shows "extends (unat h) c c' \<and> r \<in> {- 1, 0, 1}"
proof -
  let ?d = "c\<lparr>x_msg := decode_header (x_msg c)\<rparr>"
  have t: "wf_peers (x_table c)" using c by (simp add: wf_ctx_def)
  have d: "wf_ctx stack ?d" "wf_peers (x_table ?d)" "x_node ?d = x_node c"
    using c by (simp_all add: wf_ctx_def)
  have "0 \<in> set (o_ip (m_origin (x_msg c)))"
    using r by (auto simp: recv_rpc_def bind_res_eq_Inr)
  then have "wf_origin (m_origin (x_msg c))"
    using c by (simp add: wf_ctx_def wf_origin_def)
  from r [unfolded recv_rpc_dispatch [OF this] Let_def] show ?thesis
    by (auto simp: recv_join_reply_def bind_res_eq_Inr split: if_splits intro: extends_same [OF t]
        extends_x_msg [OF d(3)] dest!: recv_get_peers_call_keeps recv_join_call_keeps [OF d(2) h]
        recv_get_peers_reply_keeps [OF d(1) h])
qed

subsection \<open>What the handler sends\<close>

text \<open>A datagram is benign if it is a call, or a reply whose status is \<open>OK\<close>.\<close>

definition benign :: "datagram \<Rightarrow> bool" where
  "benign d \<longleftrightarrow> m_msg_type (snd d) = htons_enum (type_code CALL) \<or>
     rbody_status (m_body (snd d)) = htons_enum (status_code OK)"

definition sent_only :: "(datagram \<Rightarrow> bool) \<Rightarrow> net \<Rightarrow> net \<Rightarrow> bool" where
  "sent_only P n n' \<longleftrightarrow> (\<exists>ds. outbox n' = outbox n @ ds \<and> list_all P ds)"

lemma sent_only_refl [simp]: "sent_only P n n"
  by (simp add: sent_only_def)

lemma sent_only_trans: "sent_only P a b \<Longrightarrow> sent_only P b c \<Longrightarrow> sent_only P a c"
  unfolding sent_only_def by force

lemma call_rpc_benign:
  assumes "call_rpc n m p k dst host = Inr (r, n')"
  shows "sent_only benign n n'"
proof -
  have "benign d" if "call_datagram m p k dst host = Inr d" for d
    using that by (auto simp: call_datagram_def Let_def bind_res_eq_Inr benign_def simp del: strcpy_eq_Inr)
  then show ?thesis
    using call.send_effect [of n "(m, p, k, dst, host)" r n'] assms by (auto simp: sent_only_def)
qed

lemma reply_rpc_benign:
  assumes "reply_rpc n m p k dst cid OK = Inr (r, n')"
  shows "sent_only benign n n'"
proof -
  have "benign d" if "reply_datagram m p k dst cid OK = Inr d" for d
    using that by (auto simp: reply_datagram_def bind_res_eq_Inr benign_def rbody_status_def reply_body_def
        simp del: strcpy_eq_Inr)
  then show ?thesis
    using reply.send_effect [of n "(m, p, k, dst, cid, OK)" r n'] assms by (auto simp: sent_only_def)
qed

lemma ask_neighbors_benign:
  "ask_neighbors n nbs payload host reply_to is = Inr (r, n') \<Longrightarrow> sent_only benign n n'"
  by (induction "is") (auto simp: Let_def bind_res_eq_Inr split: if_splits dest: call_rpc_benign)

lemma get_peers_benign:
  "get_peers stack n node nbs info_hash src reply_to = Inr (r, n') \<Longrightarrow> sent_only benign n n'"
  by (auto simp: get_peers_def Let_def bind_res_eq_Inr dest: ask_neighbors_benign simp del: strcpy_eq_Inr)

lemma join_peers_benign:
  assumes "join_peers n node info_hash = Inr (r, n')"
  shows "sent_only benign n n'"
proof -
  have one: "sent_only benign n n'" if "sent_only benign n m" "join_one b host m i = Inr n'" for b host m i n'
    using that call_rpc_benign sent_only_trans
    by (auto simp: join_one_def Let_def bind_res_eq_Inr split: if_splits simp del: strcpy_eq_Inr)
  have "sent_only benign n n''" if "fold_res (join_one b host) n is = Inr n''" for b host "is" n''
    by (rule fold_res_invariant [OF that, where P = "sent_only benign n"]) (use one in auto)
  then show ?thesis
    using assms
    by (auto simp: join_peers_def bind_res_eq_Inr split: option.splits if_splits simp del: strcpy_eq_Inr)
qed

lemma send_bucket_benign:
  "send_bucket stack n b src cid = Inr (r, n') \<Longrightarrow> sent_only benign n n'"
  by (auto simp: send_bucket_def Let_def bind_res_eq_Inr dest: reply_rpc_benign)

lemma recv_get_peers_call_benign:
  assumes "recv_get_peers_call stack hash_key nbs reply_to c = Inr (r, c')"
  shows "sent_only benign (x_net c) (x_net c')"
proof (cases "strcmp (take ID_SIZE (drop sizeof_origin (cbody_payload (m_body (x_msg c))))) [0]")
  case (Inr i)
  then have "\<not> i < 0" by (auto dest: strcmp_empty_not_negative)
  then show ?thesis
    using assms Inr unfolding recv_get_peers_call_def
    by (auto simp: Let_def bind_res_eq_Inr split: if_splits option.splits
        dest!: reply_rpc_benign get_peers_benign send_bucket_benign)
qed (use assms in \<open>auto simp: recv_get_peers_call_def Let_def bind_res_eq_Inr\<close>)

lemma recv_join_call_benign:
  "recv_join_call alc hash_key reply_to c = Inr (r, c') \<Longrightarrow> sent_only benign (x_net c) (x_net c')"
  unfolding recv_join_call_def
  by (auto simp: Let_def bind_res_eq_Inr split: if_splits dest: reply_rpc_benign simp del: strcpy_eq_Inr)

lemma recv_get_peers_reply_benign:
  "recv_get_peers_reply alc stack hash_key c = Inr (r, c') \<Longrightarrow> sent_only benign (x_net c) (x_net c')"
  unfolding recv_get_peers_reply_def
  by (auto simp: Let_def bind_res_eq_Inr split: if_splits option.splits prod.splits dest!: join_peers_benign)

lemma recv_rpc_benign:
  "recv_rpc alc stack hash_key nbs c = Inr (r, c') \<Longrightarrow> sent_only benign (x_net c) (x_net c')"
  unfolding recv_rpc_def
  by (auto simp: Let_def bind_res_eq_Inr recv_join_reply_def split: if_splits simp del: strcpy_eq_Inr
      dest!: recv_get_peers_call_benign recv_join_call_benign recv_get_peers_reply_benign)

subsection \<open>Conversations\<close>

definition call_id :: "u8 list" where
  "call_id = char_array CORRELATAION_ID_SIZE ''random value''"

lemma call_id_simps [simp]:
  "pad_id call_id = call_id" "0 \<in> set call_id" "length call_id = CORRELATAION_ID_SIZE"
  by (simp_all add: call_id_def pad_id_def CORRELATAION_ID_SIZE_def eval)

lemma received_call_simps [simp]:
  "length pl = MAX_PAYLOAD_SIZE \<Longrightarrow> cbody_payload (m_body (received_call m pl host)) = pl"
  "m_correlation_id (received_call m pl host) = call_id"
  by (simp_all add: received_call_def call_msg_def call_id_def)

lemma request_fields:
  assumes "wf_origin src" "length info_hash = ID_SIZE" "length stack = MAX_PAYLOAD_SIZE"
  shows "request_src (get_peers_payload stack info_hash src) = canon src"
    and "request_hash (get_peers_payload stack info_hash src) = info_hash"
proof -
  let ?o = "\<lparr>o_port = htons (o_port src), o_ip = pad (o_ip src)\<rparr>"
  have l: "length (origin_bytes ?o) = sizeof_origin"
    using assms(1) by (intro length_origin_bytes) (simp add: wf_origin_def)
  then show "request_hash (get_peers_payload stack info_hash src) = info_hash"
    using assms(2) by (simp add: get_peers_payload_def request_hash_def)
  show "request_src (get_peers_payload stack info_hash src) = canon src"
    using origin_of_origin_bytes [of ?o "[]"] l assms(1)
    by (simp add: get_peers_payload_def request_src_def wf_origin_def canon_def Let_def)
qed

lemma wf_request_src:
  assumes "length pl = MAX_PAYLOAD_SIZE" "0 \<in> set (o_ip (request_src pl))"
  shows "wf_origin (request_src pl)"
  using assms by (simp add: wf_origin_def request_src_def origin_of_bytes_def Let_def
      INET_ADDRSTRLEN_def sizeof_origin_def MAX_PAYLOAD_SIZE_def)

lemma reply_peers_bucket:
  assumes "list_all wf_peer ps" "length ps \<le> 25"
  shows "reply_peers (decode_header (bucket_reply cid ps)) = ps"
    and "rbody_payload (m_body (decode_header (bucket_reply cid ps))) ! 0 = of_nat (length ps)"
proof -
  let ?n = "length ps"
  let ?k = "sizeof_peer * ?n + 1" and ?f = "fill (peer_list_bytes ps) (sizeof_peer * length ps + 1)"
  let ?P = "rbody_payload (m_body (decode_header (bucket_reply cid ps)))"
  have k: "?k \<le> 1016" using assms(2) by (simp add: sizeof_peer_def)
  have pl: "length (peer_list_bytes ps) = ?k" by (rule length_peer_list_bytes [OF assms(1)])
  have lf: "length ?f = MAX_PAYLOAD_SIZE"
    using k pl by (intro length_fill) (simp_all add: MAX_PAYLOAD_SIZE_def)
  have t: "take ?k ?P = peer_list_bytes ps"
    using received_reply_body(3) [OF lf k, of GET_PEERS cid OK] pl
    by (simp add: received_reply_def bucket_reply_def fill_def)
  have z: "?P ! 0 = take ?k ?P ! 0" by simp
  then show hd: "?P ! 0 = of_nat ?n" unfolding t by (simp add: peer_list_bytes_def)
  have u: "unat (of_nat ?n :: u8) = ?n" using assms(2) by (simp add: unat_of_nat)
  have "take (sizeof_peer * ?n) (drop 1 ?P) = drop 1 (take ?k ?P)" by (simp add: drop_take)
  also have "\<dots> = concat (map peer_bytes ps)" unfolding t by (simp add: peer_list_bytes_def)
  finally have "peers_of_bytes ?n (take (sizeof_peer * ?n) (drop 1 ?P)) = ps"
    using peers_of_peers_bytes [OF assms(1), of "[]"] by simp
  then have "peers_of_bytes ?n (drop 1 ?P) = ps" by (simp only: peers_of_bytes_take [OF order_refl])
  then show "reply_peers (decode_header (bucket_reply cid ps)) = ps"
    using hd u by (simp add: reply_peers_def Let_def)
qed

lemma recv_rpc_bucket_reply:
  assumes "x_msg c = bucket_reply cid ps" "list_all wf_peer ps" "length ps \<le> 25"
  shows "recv_rpc alc stack hash_key nbs c =
    recv_get_peers_reply alc stack hash_key (c\<lparr>x_msg := decode_header (bucket_reply cid ps)\<rparr>)"
    and "rbody_status (m_body (decode_header (bucket_reply cid ps))) = status_code OK"
    and "length (m_body (decode_header (bucket_reply cid ps))) = sizeof_body"
proof -
  let ?f = "fill (peer_list_bytes ps) (sizeof_peer * length ps + 1)"
  have lf: "length ?f = MAX_PAYLOAD_SIZE"
    using assms(3) length_peer_list_bytes [OF assms(2)]
    by (intro length_fill) (simp_all add: MAX_PAYLOAD_SIZE_def sizeof_peer_def)
  have x: "x_msg c = reply_msg GET_PEERS ?f cid OK" using assms(1) by (simp add: bucket_reply_def)
  from recv_rpc_reply [OF x lf]
  show "recv_rpc alc stack hash_key nbs c =
    recv_get_peers_reply alc stack hash_key (c\<lparr>x_msg := decode_header (bucket_reply cid ps)\<rparr>)"
    by (simp add: received_reply_def bucket_reply_def)
  from received_reply_body(2) [OF lf, where m = GET_PEERS and cid = cid and st = OK]
  show "rbody_status (m_body (decode_header (bucket_reply cid ps))) = status_code OK"
    by (simp add: received_reply_def bucket_reply_def htons_enum_def htons_def)
  show "length (m_body (decode_header (bucket_reply cid ps))) = sizeof_body"
    using lf by (simp add: bucket_reply_def reply_msg_def)
qed

lemma recv_get_peers_request:
  assumes "wf_ctx stack c" and "x_msg c = call_msg GET_PEERS pl host" and "length pl = MAX_PAYLOAD_SIZE"
    and "wf_origin host" and "0 \<in> set (o_ip (request_src pl))" and "hash (request_hash pl) = Inr h"
    and "wf_nodes nbs" and "list_all (\<lambda>nd. wf_ip (n_ip nd)) (elems nbs)" and "length hash_key = ID_SIZE"
  shows "recv_rpc alc stack hash_key nbs c =
    (let c' = c\<lparr>x_msg := received_call GET_PEERS pl host\<rparr>; ps = peers_at (x_table c) (unat h) in
     if get_peer_bucket (x_table c) (request_hash pl) = Inr None
     then (case attempt (x_net c) (ip_addr host) (bucket_reply call_id []) of (r, n) \<Rightarrow> Inr (r, c'\<lparr>x_net := n\<rparr>))
     else if ps = [] \<and> elems nbs \<noteq> []
     then Inr (0, c'\<lparr>x_net := forward stack (x_net c) (x_node c) (elems nbs) hash_key (request_src pl) (canon host),
                     x_wait := True\<rparr>)
     else if 26 \<le> length ps then Inl OOB_write
     else Inr (0, c'\<lparr>x_net := snd (attempt (x_net c) (ip_addr (request_src pl)) (bucket_reply call_id ps)),
                     x_wait := False\<rparr>))"
proof -
  let ?c = "c\<lparr>x_msg := received_call GET_PEERS pl host\<rparr>"
  have c: "wf_peers (x_table ?c)" "wf_ip (n_ip (x_node ?c))" "length stack = MAX_PAYLOAD_SIZE"
    using assms(1) by (simp_all add: wf_ctx_def)
  have src: "wf_origin (request_src pl)" by (rule wf_request_src [OF assms(3,5)])
  have rt: "wf_origin (canon host)" using assms(4) by simp
  have "recv_rpc alc stack hash_key nbs c = recv_get_peers_call stack hash_key nbs (canon host) ?c"
    using recv_rpc_call [OF assms(2-4)] by simp
  also have "\<dots> = (if get_peer_bucket (x_table ?c) (request_hash pl) = Inr None
     then (case attempt (x_net ?c) (ip_addr (canon host)) (bucket_reply (pad_id call_id) []) of
             (r, n) \<Rightarrow> Inr (r, ?c\<lparr>x_net := n\<rparr>))
     else if peers_at (x_table ?c) (unat h) = [] \<and> elems nbs \<noteq> []
     then Inr (0, ?c\<lparr>x_net := forward stack (x_net ?c) (x_node ?c) (elems nbs) hash_key (request_src pl) (canon host),
                    x_wait := True\<rparr>)
     else if 26 \<le> length (peers_at (x_table ?c) (unat h)) then Inl OOB_write
     else Inr (0, ?c\<lparr>x_net := snd (attempt (x_net ?c) (ip_addr (request_src pl))
                                (bucket_reply (pad_id call_id) (peers_at (x_table ?c) (unat h)))),
                    x_wait := False\<rparr>))"
    by (rule recv_get_peers_call_eq [OF c(1,2) assms(7-9) c(3) rt _ src _ _ _ assms(6)])
      (simp_all add: assms(3))
  finally show ?thesis by (simp add: Let_def)
qed

subsection \<open>Properties\<close>

text \<open>
  C14. Round trip of a call: whatever method, payload and host \<open>call_rpc\<close> is given, the message it
  hands to the kernel decodes at the receiver to type \<open>CALL\<close>, the same method, a payload that starts
  with the same bytes, and the host's own port and address as the address to reply to.
\<close>

theorem call_roundtrip:
  assumes "wf_origin host" and "wf_origin send_to" and "k \<le> length payload"
    and "call_rpc n method payload k send_to host = Inr (0, n')"
  shows "\<exists>msg. outbox n' = outbox n @ [(ip_addr send_to, msg)] \<and>
    m_msg_type (decode_header msg) = type_code CALL \<and>
    cbody_method (m_body (decode_header msg)) = method_code method \<and>
    take k (cbody_payload (m_body (decode_header msg))) = take k payload \<and>
    o_port (caller msg) = o_port host \<and> cstr (o_ip (caller msg)) = cstr (o_ip host)"
proof (cases "MAX_PAYLOAD_SIZE < k")
  case True
  then show ?thesis using assms(4) call.send_fault [of "(method, payload, k, send_to, host)" "OOB_write" n]
    by (simp add: datagram_overflow)
next
  case False
  let ?msg = "call_msg method (fill payload k) host"
  have l: "length (fill payload k) = MAX_PAYLOAD_SIZE" using assms(3) False by (simp add: length_fill)
  have d: "call_datagram method payload k send_to host = Inr (ip_addr send_to, ?msg)"
    using assms(1-3) False by (intro call_datagram_eq) (auto simp: wf_origin_def)
  have "outbox n' = outbox n @ [(ip_addr send_to, ?msg)]"
    using call.send_render [of "(method, payload, k, send_to, host)" _ n] d assms(4)
    by (auto simp: sendto_def split: if_splits)
  moreover have "decode_header ?msg = received_call method (fill payload k) host"
    by (rule decode_call_msg [OF l])
  ultimately show ?thesis
    using l assms(3) by (intro exI [of _ ?msg]) (simp add: received_call_def fill_def del: type_code.simps)
qed

theorem call_roundtrip_witness:
  "\<exists>n' msg. call_rpc online LEECH [1, 2, 3] 3 (host_at ''127.0.0.1'' 3001) (host_at ''127.0.0.1'' 3000) = Inr (0, n') \<and>
     outbox n' = [(ip_addr (host_at ''127.0.0.1'' 3001), msg)] \<and>
     cbody_method (m_body (decode_header msg)) = 2 \<and>
     take 3 (cbody_payload (m_body (decode_header msg))) = [1, 2, 3] \<and> o_port (caller msg) = 3000"
proof -
  let ?a = "host_at ''127.0.0.1'' 3001" and ?h = "host_at ''127.0.0.1'' 3000"
  have w: "wf_origin ?h" "wf_origin ?a" by (simp_all add: INET_ADDRSTRLEN_def)
  then have "call_datagram LEECH [1, 2, 3] 3 ?a ?h = Inr (ip_addr ?a, call_msg LEECH (fill [1, 2, 3] 3) ?h)"
    by (intro call_datagram_eq) (auto simp: wf_origin_def MAX_PAYLOAD_SIZE_def)
  then have "call_rpc online LEECH [1, 2, 3] 3 ?a ?h = Inr (0, snd (sendto online (ip_addr ?a, call_msg LEECH (fill [1, 2, 3] 3) ?h)))"
    using call.send_render [of "(LEECH, [1, 2, 3], 3, ?a, ?h)" _ online] by simp
  from call_roundtrip [OF w _ this] this show ?thesis by auto
qed

text \<open>
  C3. The \<open>GET_PEERS\<close> branch of \<open>recv_rpc\<close> on a well-formed request, every case: without a bucket
  for the requested hash the caller gets an empty list; with an empty bucket and neighbors the
  request is forwarded to one neighbor, asking for the handler's own \<open>hash_key\<close> instead of the
  requested hash, and the loop keeps waiting; otherwise the original requester gets the peers of the
  bucket, unless there are 26 or more, which do not fit into the 1024-byte buffer.
\<close>

theorem get_peers_call_exact:
  assumes "wf_ctx stack c" and "x_msg c = call_msg GET_PEERS pl host" and "length pl = MAX_PAYLOAD_SIZE"
    and "wf_origin host" and "0 \<in> set (o_ip (request_src pl))" and "hash (request_hash pl) = Inr h"
    and "wf_nodes nbs" and "list_all (\<lambda>nd. wf_ip (n_ip nd)) (elems nbs)" and "length hash_key = ID_SIZE"
  shows "recv_rpc alc stack hash_key nbs c =
    (let c' = c\<lparr>x_msg := received_call GET_PEERS pl host\<rparr>; ps = peers_at (x_table c) (unat h) in
     if get_peer_bucket (x_table c) (request_hash pl) = Inr None
     then (case attempt (x_net c) (ip_addr host) (bucket_reply call_id []) of (r, n) \<Rightarrow> Inr (r, c'\<lparr>x_net := n\<rparr>))
     else if ps = [] \<and> elems nbs \<noteq> []
     then Inr (0, c'\<lparr>x_net := forward stack (x_net c) (x_node c) (elems nbs) hash_key (request_src pl) (canon host),
                     x_wait := True\<rparr>)
     else if 26 \<le> length ps then Inl OOB_write
     else Inr (0, c'\<lparr>x_net := snd (attempt (x_net c) (ip_addr (request_src pl)) (bucket_reply call_id ps)),
                     x_wait := False\<rparr>))"
  by (rule recv_get_peers_request [OF assms])

text \<open>A node at rest with a given table, and a request as \<open>get_peers\<close> sends it.\<close>

definition ctx_at :: "u16 \<Rightarrow> peer_table \<Rightarrow> rpc_msg \<Rightarrow> rpc_ctx" where
  "ctx_at port t m =
     \<lparr>x_node = (node_at ''127.0.0.1'' port)\<lparr>n_peer_table := t\<rparr>, x_msg = m, x_wait = True, x_net = online\<rparr>"

definition zero_stack :: "u8 list" where
  "zero_stack = replicate MAX_PAYLOAD_SIZE 0"

definition peers_request :: "u8 list \<Rightarrow> u8 list \<Rightarrow> origin \<Rightarrow> rpc_msg" where
  "peers_request stack info_hash src = call_msg GET_PEERS (get_peers_payload stack info_hash src) src"

lemma ctx_at_simps [simp]:
  "x_table (ctx_at port t m) = t" "x_msg (ctx_at port t m) = m" "x_net (ctx_at port t m) = online"
  "x_wait (ctx_at port t m)" "length zero_stack = MAX_PAYLOAD_SIZE"
  by (simp_all add: ctx_at_def zero_stack_def)

lemma wf_local [simp]:
  "wf_origin (host_at ''127.0.0.1'' port)" "wf_ip (n_ip (node_at ''127.0.0.1'' port))"
  by (simp_all add: INET_ADDRSTRLEN_def)

lemma wf_ctx_at:
  assumes "wf_peers t" "length (m_body m) = sizeof_body" "length (o_ip (m_origin m)) = INET_ADDRSTRLEN"
  shows "wf_ctx zero_stack (ctx_at port t m)"
  using assms wf_local(2) [of port]
  by (simp add: wf_ctx_def ctx_at_def)

lemma length_13 [simp]: "length (char_array 36 ''13'') = ID_SIZE"
  by (simp add: length_char_array ID_SIZE_def)

lemma wf_peers_request:
  assumes "wf_peers t" "wf_origin src" "length info_hash = ID_SIZE"
  shows "wf_ctx zero_stack (ctx_at port t (peers_request zero_stack info_hash src))"
  using assms by (intro wf_ctx_at) (simp_all add: peers_request_def call_msg_def length_get_peers_payload wf_origin_def)

lemma wf_peers_zero_table: "wf_peers zero_table"
  by (simp add: wf_peers_def wf_zero_table peers_at_zero_table)

lemma bucket_zero_table: "get_peer_bucket zero_table (char_array 36 ''13'') = Inr (Some 9)"
proof -
  obtain d where "new_peer_array (zero_mem 9) zero_alloc = Some d" "da_key d = 0"
    using new_zero_bucket by blast
  then have "slot zero_table 9 = Inr d"
    using slot_init [of "replicate MAX_PEER_BUCKETS None" 9] by (simp add: zero_table_def MAX_PEER_BUCKETS_def)
  then show ?thesis
    using get_peer_bucket_eq [OF wf_zero_table hash_13, of d] \<open>da_key d = 0\<close> by simp
qed

theorem get_peers_call_exact_witness:
  "\<exists>c'. recv_rpc zero_alloc zero_stack (char_array 36 ''13'') (nodes_of [node_at ''127.0.0.1'' 3001, node_at ''127.0.0.1'' 3002])
      (ctx_at 3000 zero_table (peers_request zero_stack (char_array 36 ''13'') (host_at ''127.0.0.1'' 4000))) = Inr (0, c') \<and>
    map fst (outbox (x_net c')) = [ip_addr (node_origin (node_at ''127.0.0.1'' 3001))] \<and> x_wait c'"
proof -
  let ?ns = "[node_at ''127.0.0.1'' 3001, node_at ''127.0.0.1'' 3002]" and ?k = "char_array 36 ''13''"
  let ?src = "host_at ''127.0.0.1'' 4000"
  let ?pl = "get_peers_payload zero_stack ?k ?src"
  let ?c = "ctx_at 3000 zero_table (peers_request zero_stack ?k ?src)"
  have w: "wf_origin ?src" by simp
  note rq = request_fields [OF w length_13 ctx_at_simps(5)]
  have f: "first_asked (canon ?src) ?ns = Some (node_at ''127.0.0.1'' 3001)"
    by (simp add: first_asked_def is_origin_def)
  have g: "get_peer_bucket zero_table ?k \<noteq> Inr None" by (simp add: bucket_zero_table)
  have "wf_nodes (nodes_of ?ns)" "elems (nodes_of ?ns) = ?ns" by (simp_all add: wf_nodes_of)
  moreover have "list_all (\<lambda>nd. wf_ip (n_ip nd)) ?ns" by simp
  moreover have "wf_ctx zero_stack ?c" by (rule wf_peers_request [OF wf_peers_zero_table w length_13])
  moreover have "0 \<in> set (o_ip (request_src ?pl))" using w by (simp add: rq(1) wf_origin_def)
  ultimately show ?thesis
    using get_peers_call_exact [of zero_stack ?c ?pl ?src 9 "nodes_of ?ns" ?k zero_alloc] w g f rq hash_13
      length_get_peers_payload [OF w length_13 ctx_at_simps(5)]
    by (auto simp: peers_request_def forward_def attempt_def sendto_def peers_at_zero_table MAX_PEER_BUCKETS_def Let_def)
qed

text \<open>A table that holds given peers under the key \<open>13\<close>, built by the code itself.\<close>

definition table_13 :: "peer_t list \<Rightarrow> peer_table" where
  "table_13 ps = (case store_peers zero_alloc (char_array 36 ''13'') zero_table ps of
     Inr t \<Rightarrow> t | Inl _ \<Rightarrow> zero_table)"

lemma table_13:
  assumes "list_all wf_peer ps" "length ps \<le> 100"
  shows "wf_peers (table_13 ps)" "peers_at (table_13 ps) 9 = ps"
proof -
  have "\<exists>t. store_peers zero_alloc (char_array 36 ''13'') zero_table ps = Inr t"
    by (rule store_peers_succeeds [OF wf_zero_table hash_13])
      (use assms(2) in \<open>simp_all add: peers_at_zero_table MAX_PEER_BUCKETS_def sizeof_peer_def PTRDIFF_MAX_def\<close>)
  then obtain t where t: "store_peers zero_alloc (char_array 36 ''13'') zero_table ps = Inr t" by blast
  have eq: "table_13 ps = t" by (simp add: table_13_def t)
  note s = store_peers_ok [OF wf_zero_table hash_13 t]
  show "peers_at (table_13 ps) 9 = ps" using s(2) eq by (simp add: peers_at_zero_table MAX_PEER_BUCKETS_def)
  show "wf_peers (table_13 ps)"
    unfolding eq by (rule wf_peers_append [OF wf_peers_zero_table s hash_bound [OF hash_13] assms(1)])
qed

lemma wf_zero_peer [simp]: "wf_peer (zero_peer\<lparr>p_port := q\<rparr>)"
  by (simp add: wf_peer_def zero_peer_def INET_ADDRSTRLEN_def)


lemma length_fill_empty [simp]: "length (fill [] 0) = MAX_PAYLOAD_SIZE"
  by (simp add: length_fill)

lemma wf_join_call:
  "wf_ctx zero_stack (ctx_at 3000 zero_table (call_msg JOIN (fill [] 0) (host_at ''127.0.0.1'' 4000)))"
  using wf_local(1) [of 4000]
  by (intro wf_ctx_at [OF wf_peers_zero_table]) (simp_all add: call_msg_def wf_origin_def)

lemma join_run:
  "\<exists>c'. recv_rpc zero_alloc zero_stack (char_array 36 ''13'') no_nodes
      (ctx_at 3000 zero_table (call_msg JOIN (fill [] 0) (host_at ''127.0.0.1'' 4000))) = Inr (0, c')"
proof -
  let ?h = "host_at ''127.0.0.1'' 4000" and ?k = "char_array 36 ''13''"
  let ?c = "ctx_at 3000 zero_table (call_msg JOIN (fill [] 0) ?h)"
  obtain t where t: "set_peer zero_alloc zero_table ?k (joiner (canon ?h)) = Inr t"
    using set_peer_zero_table [OF hash_13] by blast
  then show ?thesis
    using recv_rpc_call [of ?c JOIN "fill [] 0" ?h zero_alloc zero_stack ?k no_nodes] t
      recv_join_call_eq [of "canon ?h" "?c\<lparr>x_msg := received_call JOIN (fill [] 0) ?h\<rparr>" call_id zero_alloc ?k]
    by (auto simp: attempt_def)
qed

text \<open>A bucket of two peers in a block of two elements.\<close>

definition two_peers :: peer_table where
  "two_peers = zero_table[9 := Some \<lparr>da_active = True, da_key = 9, da_cap = 2, da_len = 2, da_data = [zero_peer, zero_peer]\<rparr>]"

lemma two_peers: "wf_peers two_peers" "bucket_stuck (\<lambda>_. None) two_peers 9"
proof -
  let ?b = "\<lparr>da_active = True, da_key = 9, da_cap = 2, da_len = 2, da_data = [zero_peer, zero_peer]\<rparr> :: peer_bucket_t"
  have ok: "slot_ok 9 (Some ?b)" by (simp add: slot_ok_def wf_array_def sizeof_peer_def PTRDIFF_MAX_def)
  note u = wf_table_update [OF wf_zero_table _ ok, unfolded MAX_PEER_BUCKETS_def, simplified]
  have "elems ?b = [zero_peer, zero_peer]" by (simp add: elems_def)
  then have "wf_peers (zero_table[9 := Some ?b])"
    using u wf_peers_zero_table wf_zero_peer [of 0]
    by (auto simp: wf_peers_def wf_peer_def zero_peer_def)
  then show "wf_peers two_peers" by (simp add: two_peers_def)
  have "length zero_table = 10" using wf_zero_table by (simp add: wf_table_def MAX_PEER_BUCKETS_def)
  then show "bucket_stuck (\<lambda>_. None) two_peers 9"
    by (simp add: two_peers_def bucket_stuck_def slot_def refuses_def)
qed

text \<open>
  C9. The \<open>JOIN\<close> branch of \<open>recv_rpc\<close>, every case: the handler first replies; if the reply cannot be
  sent it returns 1 and stores nothing. Otherwise it appends exactly the caller, with the address and port
  the call carries, to the bucket of its own \<open>hash_key\<close>, unless that bucket fills its block and the
  allocator refuses one of twice the size; then, and only then, it ends the process with status 1.
\<close>

theorem join_call_exact:
  assumes "wf_ctx stack c" and "x_msg c = call_msg JOIN pl host" and "length pl = MAX_PAYLOAD_SIZE"
    and "wf_origin host" and "hash hash_key = Inr h"
  shows "\<exists>r n. attempt (x_net c) (ip_addr host) (reply_msg JOIN (fill [] 0) call_id OK) = (r, n) \<and>
    (if r < 0
     then recv_rpc alc stack hash_key nbs c = Inr (1, c\<lparr>x_msg := received_call JOIN pl host, x_net := n\<rparr>)
     else if bucket_stuck alc (x_table c) (unat h) then recv_rpc alc stack hash_key nbs c = Inl (Exit 1)
     else \<exists>c'. recv_rpc alc stack hash_key nbs c = Inr (0, c') \<and> x_net c' = n \<and> extends (unat h) c c' \<and>
          peers_at (x_table c') (unat h) = peers_at (x_table c) (unat h) @ [joiner (canon host)])"
proof -
  let ?c = "c\<lparr>x_msg := received_call JOIN pl host\<rparr>"
  obtain r n where a: "attempt (x_net c) (ip_addr host) (reply_msg JOIN (fill [] 0) call_id OK) = (r, n)"
    by (cases "attempt (x_net c) (ip_addr host) (reply_msg JOIN (fill [] 0) call_id OK)") blast
  have t: "wf_peers (x_table c)" "wf_table (x_table c)" using assms(1) by (simp_all add: wf_ctx_def wf_peers_def)
  have "recv_rpc alc stack hash_key nbs c = recv_join_call alc hash_key (canon host) ?c"
    using recv_rpc_call [OF assms(2-4)] by simp
  also have "\<dots> = (if r < 0 then Inr (1, ?c\<lparr>x_net := n\<rparr>)
       else bind_res (set_peer alc (x_table c) hash_key (joiner (canon host))) (\<lambda>t.
            Inr (0, set_table (?c\<lparr>x_net := n\<rparr>) t)))"
    using recv_join_call_eq [of "canon host" ?c call_id alc hash_key] assms(4) a by simp
  finally have eq: "recv_rpc alc stack hash_key nbs c = (if r < 0 then Inr (1, ?c\<lparr>x_net := n\<rparr>)
       else bind_res (set_peer alc (x_table c) hash_key (joiner (canon host))) (\<lambda>t.
            Inr (0, set_table (?c\<lparr>x_net := n\<rparr>) t)))" .
  note stuck = set_peer_stops_iff [OF t(2) assms(5), of alc "joiner (canon host)"]
  show ?thesis
  proof (cases "set_peer alc (x_table c) hash_key (joiner (canon host))")
    case (Inl e)
    then have "e = Exit 1" "bucket_stuck alc (x_table c) (unat h)" using stuck [of e] by simp_all
    then show ?thesis using a eq Inl by (cases "r < 0") simp_all
  next
    case (Inr t')
    let ?c' = "set_table (?c\<lparr>x_net := n\<rparr>) t'"
    note s = set_peer_ok [OF t(2) assms(5) Inr]
    have ok: "\<not> bucket_stuck alc (x_table c) (unat h)" using stuck [of "Exit 1"] Inr by simp
    have "\<not> r < 0 \<Longrightarrow> recv_rpc alc stack hash_key nbs c = Inr (0, ?c')" using eq Inr by simp
    moreover have "\<not> r < 0 \<Longrightarrow> extends (unat h) c ?c'"
      using recv_rpc_extends [OF assms(1,5)] calculation by blast
    moreover have "x_net ?c' = n" by simp
    moreover have "peers_at (x_table ?c') (unat h) = peers_at (x_table c) (unat h) @ [joiner (canon host)]"
      using s by simp
    ultimately show ?thesis using a eq ok by (cases "r < 0") auto
  qed
qed

theorem join_call_exact_witness:
  "(\<exists>c'. recv_rpc zero_alloc zero_stack (char_array 36 ''13'') no_nodes
      (ctx_at 3000 zero_table (call_msg JOIN (fill [] 0) (host_at ''127.0.0.1'' 4000))) = Inr (0, c') \<and>
    peers_at (x_table c') 9 = [joiner (canon (host_at ''127.0.0.1'' 4000))] \<and>
    map fst (outbox (x_net c')) = [ip_addr (host_at ''127.0.0.1'' 4000)]) \<and>
   recv_rpc (\<lambda>_. None) zero_stack (char_array 36 ''13'') no_nodes
      (ctx_at 3000 two_peers (call_msg JOIN (fill [] 0) (host_at ''127.0.0.1'' 4000))) = Inl (Exit 1)"
    (is "?stored \<and> ?stuck")
proof
  obtain c' where "recv_rpc zero_alloc zero_stack (char_array 36 ''13'') no_nodes
      (ctx_at 3000 zero_table (call_msg JOIN (fill [] 0) (host_at ''127.0.0.1'' 4000))) = Inr (0, c')"
    using join_run by blast
  then show ?stored
    using join_call_exact [OF wf_join_call ctx_at_simps(2) length_fill_empty wf_local(1) hash_13, of zero_alloc no_nodes]
    by (auto simp: attempt_def sendto_def peers_at_zero_table MAX_PEER_BUCKETS_def split: if_splits)
  let ?m = "call_msg JOIN (fill [] 0) (host_at ''127.0.0.1'' 4000)"
  have "wf_ctx zero_stack (ctx_at 3000 two_peers ?m)"
    using wf_local(1) [of 4000] by (intro wf_ctx_at [OF two_peers(1)]) (simp_all add: call_msg_def wf_origin_def)
  from join_call_exact [OF this ctx_at_simps(2) length_fill_empty wf_local(1) hash_13, of "\<lambda>_. None" no_nodes]
  show ?stuck using two_peers(2) by (auto simp: attempt_def sendto_def)
qed

text \<open>The two halves of a conversation about a bucket: the node that answers, and the one that stores.\<close>

lemma bucket_answer:
  assumes "wf_ctx stack c" "x_msg c = peers_request stk info_hash src" "wf_origin src"
    and "length info_hash = ID_SIZE" "length stk = MAX_PAYLOAD_SIZE" "hash info_hash = Inr h"
    and "peers_at (x_table c) (unat h) = ps" "ps \<noteq> []"
    and "wf_nodes nbs" "list_all (\<lambda>nd. wf_ip (n_ip nd)) (elems nbs)" "length hash_key = ID_SIZE"
    and "\<forall>k. send_ok (x_net c) k"
  shows "if 26 \<le> length ps then recv_rpc alc stack hash_key nbs c = Inl OOB_write
    else \<exists>c'. recv_rpc alc stack hash_key nbs c = Inr (0, c') \<and> \<not> x_wait c' \<and> x_node c' = x_node c \<and>
      outbox (x_net c') = outbox (x_net c) @ [(ip_addr src, bucket_reply call_id ps)]"
proof -
  let ?pl = "get_peers_payload stk info_hash src"
  note rq = request_fields [OF assms(3-5)]
  have lp: "length ?pl = MAX_PAYLOAD_SIZE" by (rule length_get_peers_payload [OF assms(3-5)])
  have t: "wf_peers (x_table c)" "wf_table (x_table c)" using assms(1) by (simp_all add: wf_ctx_def wf_peers_def)
  have present: "get_peer_bucket (x_table c) info_hash = Inr (Some (unat h))"
    using get_peer_bucket_present [OF t(2) assms(6)] assms(7,8) by simp
  have "0 \<in> set (o_ip (request_src ?pl))" using assms(3) by (simp add: rq(1) wf_origin_def)
  note exact = recv_get_peers_request [OF assms(1) assms(2) [unfolded peers_request_def] lp assms(3) this _ assms(9-11),
      unfolded rq, OF assms(6), of alc]
  show ?thesis using exact assms(7,8,12) present by (auto simp: Let_def attempt_def sendto_def)
qed

lemma bucket_overrun:
  assumes "list_all wf_peer ps" "MAX_PEER_BUCKETS < length ps" "length ps \<le> 25" "length stack = MAX_PAYLOAD_SIZE"
  shows "recv_rpc alc stack hash_key nbs (c\<lparr>x_msg := bucket_reply cid ps\<rparr>) = Inl OOB_write"
proof -
  note rb = recv_rpc_bucket_reply [of "c\<lparr>x_msg := bucket_reply cid ps\<rparr>", OF _ assms(1,3)]
  have u: "unat (of_nat (length ps) :: u8) = length ps" using assms(3) by (simp add: unat_of_nat)
  have "10 < rbody_payload (m_body (decode_header (bucket_reply cid ps))) ! 0"
    unfolding reply_peers_bucket(2) [OF assms(1,3)] using u assms(2)
    by (simp add: word_less_nat_alt MAX_PEER_BUCKETS_def)
  then show ?thesis
    using rb(1) reply_overflow [of "c\<lparr>x_msg := decode_header (bucket_reply cid ps)\<rparr>" stack] rb(2) assms(4) by simp
qed

lemma bucket_stored:
  assumes "wf_peers (x_table c)" "wf_ip (n_ip (x_node c))" "hash hash_key = Inr h"
    and "length stack = MAX_PAYLOAD_SIZE" "\<forall>n. alc n \<noteq> None"
    and "2 * (length (peers_at (x_table c) (unat h)) + length ps) * sizeof_peer \<le> PTRDIFF_MAX"
    and "list_all wf_peer ps" "ps \<noteq> []" "length ps \<le> MAX_PEER_BUCKETS"
  shows "\<exists>c'. recv_rpc alc stack hash_key nbs (c\<lparr>x_msg := bucket_reply cid ps\<rparr>) = Inr (0, c') \<and>
    peers_at (x_table c') = (peers_at (x_table c))(unat h := peers_at (x_table c) (unat h) @ ps) \<and>
    (2 \<le> length (peers_at (x_table c') (unat h)) \<longrightarrow> \<not> x_wait c' \<and>
       ((\<forall>i. send_ok (x_net c) i) \<longrightarrow> outbox (x_net c') =
          outbox (x_net c) @ map (join_datagram (node_origin (x_node c))) (peers_at (x_table c') (unat h))))"
proof -
  let ?msg = "bucket_reply cid ps"
  let ?b = "c\<lparr>x_msg := decode_header ?msg\<rparr>"
  have le: "length ps \<le> 25" using assms(9) by (simp add: MAX_PEER_BUCKETS_def)
  note rb = recv_rpc_bucket_reply [of "c\<lparr>x_msg := ?msg\<rparr>", OF _ assms(7) le]
  have rp: "reply_peers (x_msg ?b) = ps" using reply_peers_bucket(1) [OF assms(7) le] by simp
  have ne: "reply_peers (x_msg ?b) \<noteq> []" "length (reply_peers (x_msg ?b)) \<le> MAX_PEER_BUCKETS"
    using rp assms(8,9) by simp_all
  have tm: "list_all terminated ps" using assms(7) by (auto simp: list_all_iff wf_peer_def terminated_def)
  have tB: "wf_table (x_table c)" using assms(1) by (simp add: wf_peers_def)
  obtain t where t: "store_peers alc hash_key (x_table c) ps = Inr t"
    using store_peers_succeeds [OF tB assms(3,5,6)] by blast
  obtain t' n' where b: "wf_peers t'"
      "peers_at t' = (peers_at (x_table c)) (unat h := peers_at (x_table c) (unat h) @ ps)"
      "2 \<le> length (peers_at t' (unat h)) \<Longrightarrow> join_peers (x_net c) (x_node (set_table ?b t')) hash_key = Inr (0, n')"
      "recv_get_peers_reply alc stack hash_key ?b =
         Inr (0, if 2 \<le> length (peers_at t' (unat h))
                 then (set_table ?b t')\<lparr>x_net := n', x_wait := False\<rparr> else set_table ?b t')"
    by (rule recv_get_peers_reply_eq [of ?b stack hash_key h alc, OF _ _ assms(4,3) _ _ ne])
      (use assms(1,2) rb(2,3) rp t tm in auto)
  have "outbox n' = outbox (x_net c) @ map (join_datagram (node_origin (x_node c))) (peers_at t' (unat h))"
    if "2 \<le> length (peers_at t' (unat h))" "\<forall>i. send_ok (x_net c) i"
  proof -
    have "peers_at t' (unat h) \<noteq> []" using that(1) by auto
    moreover have "node_origin (x_node (set_table ?b t')) = node_origin (x_node c)"
      by (simp add: node_origin_def set_table_def)
    ultimately show ?thesis
      using join_peers_eq [of "x_node (set_table ?b t')" hash_key h "x_net c"] b(1,3) assms(2,3) that wf_peers_at [OF b(1) assms(3)]
      by (auto simp: wf_peers_def)
  qed
  then show ?thesis using rb(1) b(2,4) by (intro exI [of _ "if 2 \<le> length (peers_at t' (unat h))
                 then (set_table ?b t')\<lparr>x_net := n', x_wait := False\<rparr> else set_table ?b t'"]) auto
qed

text \<open>
  C1. End to end, the peer list round trip: node A answers a well-formed request for a bucket of one
  to ten peers with one datagram to the original requester; when node B's handler receives that
  datagram (and its allocator grants the memory), B has appended exactly A's peers, in A's order,
  to the bucket of its own hash key, and if that bucket now holds two peers or more, B sends a
  \<open>JOIN\<close> call to every one of them and stops waiting.
\<close>

theorem bucket_roundtrip:
  assumes "wf_ctx stackA a" and "x_msg a = peers_request stk info_hash src" and "wf_origin src"
    and "length info_hash = ID_SIZE" and "length stk = MAX_PAYLOAD_SIZE" and "hash info_hash = Inr h"
    and "peers_at (x_table a) (unat h) = ps" and "ps \<noteq> []" and "length ps \<le> MAX_PEER_BUCKETS"
    and "wf_nodes nbsA" and "list_all (\<lambda>nd. wf_ip (n_ip nd)) (elems nbsA)" and "length keyA = ID_SIZE"
    and "\<forall>k. send_ok (x_net a) k"
    and "wf_peers (x_table b)" and "wf_ip (n_ip (x_node b))" and "hash keyB = Inr k"
    and "length stackB = MAX_PAYLOAD_SIZE" and "\<forall>n. alcB n \<noteq> None"
    and "2 * (length (peers_at (x_table b) (unat k)) + length ps) * sizeof_peer \<le> PTRDIFF_MAX"
  shows "\<exists>a' msg b'. recv_rpc alcA stackA keyA nbsA a = Inr (0, a') \<and> \<not> x_wait a' \<and>
    outbox (x_net a') = outbox (x_net a) @ [(ip_addr src, msg)] \<and>
    recv_rpc alcB stackB keyB nbsB (b\<lparr>x_msg := msg\<rparr>) = Inr (0, b') \<and>
    peers_at (x_table b') = (peers_at (x_table b))(unat k := peers_at (x_table b) (unat k) @ ps) \<and>
    (2 \<le> length (peers_at (x_table b') (unat k)) \<longrightarrow> \<not> x_wait b' \<and>
       ((\<forall>i. send_ok (x_net b) i) \<longrightarrow> outbox (x_net b') =
          outbox (x_net b) @ map (join_datagram (node_origin (x_node b))) (peers_at (x_table b') (unat k))))"
proof -
  have "list_all wf_peer ps" using wf_peers_at [OF _ assms(6), of "x_table a"] assms(1,7) by (simp add: wf_ctx_def)
  moreover have "\<not> 26 \<le> length ps" using assms(9) by (simp add: MAX_PEER_BUCKETS_def)
  ultimately show ?thesis
    using bucket_answer [OF assms(1-8,10-13), of alcA]
      bucket_stored [OF assms(14-19) _ assms(8,9), of nbsB call_id] by auto
qed

theorem bucket_roundtrip_witness:
  "let a = ctx_at 3000 (table_13 [zero_peer\<lparr>p_port := 1\<rparr>, zero_peer\<lparr>p_port := 2\<rparr>])
             (peers_request zero_stack (char_array 36 ''13'') (host_at ''127.0.0.1'' 4000));
       b = ctx_at 4000 zero_table zero_msg
   in \<exists>a' msg b'. recv_rpc zero_alloc zero_stack (char_array 36 ''13'') no_nodes a = Inr (0, a') \<and>
        outbox (x_net a') = [(ip_addr (host_at ''127.0.0.1'' 4000), msg)] \<and>
        recv_rpc zero_alloc zero_stack (char_array 36 ''13'') no_nodes (b\<lparr>x_msg := msg\<rparr>) = Inr (0, b') \<and>
        peers_at (x_table b') 9 = [zero_peer\<lparr>p_port := 1\<rparr>, zero_peer\<lparr>p_port := 2\<rparr>] \<and> \<not> x_wait b' \<and>
        length (outbox (x_net b')) = 2"
proof -
  let ?ps = "[zero_peer\<lparr>p_port := 1\<rparr>, zero_peer\<lparr>p_port := 2\<rparr>]" and ?k = "char_array 36 ''13''"
  let ?src = "host_at ''127.0.0.1'' 4000"
  let ?a = "ctx_at 3000 (table_13 ?ps) (peers_request zero_stack ?k ?src)" and ?b = "ctx_at 4000 zero_table zero_msg"
  have ps: "list_all wf_peer ?ps" "length ?ps \<le> 100" by simp_all
  note t = table_13 [OF ps]
  have b: "wf_peers (x_table ?b)" "wf_ip (n_ip (x_node ?b))"
    using wf_peers_zero_table wf_local(2) [of 4000] by (simp_all add: ctx_at_def)
  have "2 * (length (peers_at (x_table ?b) 9) + length ?ps) * sizeof_peer \<le> PTRDIFF_MAX"
    by (simp add: peers_at_zero_table MAX_PEER_BUCKETS_def sizeof_peer_def PTRDIFF_MAX_def)
  then show ?thesis
    using bucket_roundtrip [OF wf_peers_request [OF t(1) wf_local(1) length_13] ctx_at_simps(2) wf_local(1)
        length_13 ctx_at_simps(5) hash_13 _ _ _ wf_no_nodes(1) _ length_13 _ b hash_13 ctx_at_simps(5), where ps = ?ps and alcB = zero_alloc]
      t(2)
    by (simp add: Let_def peers_at_zero_table MAX_PEER_BUCKETS_def wf_no_nodes) fastforce
qed

text \<open>
  C2. Invariant of a node, on any message at all: if \<open>recv_rpc\<close> returns, its result is -1, 0 or 1, the
  node's peer table is still well formed with every stored address terminated, the node's identity,
  address and port are unchanged, and the only change to the table is that at most ten peers were
  appended to the bucket of the handler's \<open>hash_key\<close>.
\<close>

theorem handler_appends_only:
  assumes "wf_ctx stack c" and "hash hash_key = Inr h"
    and "recv_rpc alc stack hash_key nbs c = Inr (r, c')"
  shows "r \<in> {- 1, 0, 1} \<and> wf_peers (x_table c') \<and> x_node c' = (x_node c)\<lparr>n_peer_table := x_table c'\<rparr> \<and>
    (\<exists>ps. length ps \<le> MAX_PEER_BUCKETS \<and>
       peers_at (x_table c') = (peers_at (x_table c))(unat h := peers_at (x_table c) (unat h) @ ps))"
  using recv_rpc_extends [OF assms] by (simp add: extends_def)

theorem handler_appends_only_witness:
  "\<exists>c'. recv_rpc zero_alloc zero_stack (char_array 36 ''13'') no_nodes
      (ctx_at 3000 zero_table (call_msg JOIN (fill [] 0) (host_at ''127.0.0.1'' 4000))) = Inr (0, c') \<and>
     wf_peers (x_table c') \<and> x_node c' = (node_at ''127.0.0.1'' 3000)\<lparr>n_peer_table := x_table c'\<rparr>"
proof -
  obtain c' where c': "recv_rpc zero_alloc zero_stack (char_array 36 ''13'') no_nodes
      (ctx_at 3000 zero_table (call_msg JOIN (fill [] 0) (host_at ''127.0.0.1'' 4000))) = Inr (0, c')"
    using join_run by blast
  from handler_appends_only [OF wf_join_call hash_13 this] c' show ?thesis by (auto simp: ctx_at_def)
qed

text \<open>
  C11. The two buffers that bound a peer list do not agree. A node whose bucket holds 26 or more peers
  overruns its own reply buffer on a \<open>GET_PEERS\<close> call. With 11 to 25 peers it answers, and the
  handler of any node that receives the answer overruns its array \<open>p_buf\<close> of ten peers.
\<close>

theorem oversized_buckets_overflow:
  assumes "wf_ctx stack c" and "x_msg c = peers_request stk info_hash src" and "wf_origin src"
    and "length info_hash = ID_SIZE" and "length stk = MAX_PAYLOAD_SIZE" and "hash info_hash = Inr h"
    and "peers_at (x_table c) (unat h) = ps" and "MAX_PEER_BUCKETS < length ps"
    and "wf_nodes nbs" and "list_all (\<lambda>nd. wf_ip (n_ip nd)) (elems nbs)" and "length hash_key = ID_SIZE"
    and "\<forall>k. send_ok (x_net c) k" and "length stackB = MAX_PAYLOAD_SIZE"
  shows "if 26 \<le> length ps then recv_rpc alc stack hash_key nbs c = Inl OOB_write
    else \<exists>c' msg. recv_rpc alc stack hash_key nbs c = Inr (0, c') \<and>
      outbox (x_net c') = outbox (x_net c) @ [(ip_addr src, msg)] \<and>
      recv_rpc alcB stackB keyB nbsB (b\<lparr>x_msg := msg\<rparr>) = Inl OOB_write"
proof -
  have "list_all wf_peer ps" using wf_peers_at [OF _ assms(6), of "x_table c"] assms(1,7) by (simp add: wf_ctx_def)
  moreover have "ps \<noteq> []" using assms(8) by auto
  ultimately show ?thesis
    using bucket_answer [OF assms(1-7) _ assms(9-12), of alc] bucket_overrun [OF _ assms(8) _ assms(13)] by auto
qed

theorem oversized_buckets_overflow_witness:
  "let node = \<lambda>n. ctx_at 3000 (table_13 (replicate n (zero_peer\<lparr>p_port := 1\<rparr>)))
                  (peers_request zero_stack (char_array 36 ''13'') (host_at ''127.0.0.1'' 4000));
       run = recv_rpc zero_alloc zero_stack (char_array 36 ''13'') no_nodes
   in run (node 26) = Inl OOB_write \<and>
      (\<exists>c' msg. run (node 11) = Inr (0, c') \<and> outbox (x_net c') = [(ip_addr (host_at ''127.0.0.1'' 4000), msg)] \<and>
         run (ctx_at 4000 zero_table msg) = Inl OOB_write)"
proof -
  let ?ps = "\<lambda>n. replicate n (zero_peer\<lparr>p_port := 1\<rparr>)" and ?k = "char_array 36 ''13''"
  have ps: "list_all wf_peer (?ps n)" for n by (auto simp: list_all_iff)
  have b: "(ctx_at 4000 zero_table zero_msg)\<lparr>x_msg := m\<rparr> = ctx_at 4000 zero_table m" for m
    by (simp add: ctx_at_def)
  have t: "wf_peers (table_13 (?ps n))" "peers_at (table_13 (?ps n)) (unat (9 :: u32)) = ?ps n" if "n \<le> 100" for n
    using table_13 [OF ps, of n] that by simp_all
  let ?run = "recv_rpc zero_alloc zero_stack ?k no_nodes"
  have run: "if 26 \<le> length (?ps n) then ?run (ctx_at 3000 (table_13 (?ps n)) (peers_request zero_stack ?k (host_at ''127.0.0.1'' 4000))) = Inl OOB_write
    else \<exists>c' msg. ?run (ctx_at 3000 (table_13 (?ps n)) (peers_request zero_stack ?k (host_at ''127.0.0.1'' 4000))) = Inr (0, c') \<and>
      outbox (x_net c') = outbox online @ [(ip_addr (host_at ''127.0.0.1'' 4000), msg)] \<and>
      ?run ((ctx_at 4000 zero_table zero_msg)\<lparr>x_msg := msg\<rparr>) = Inl OOB_write"
    if "10 < n" "n \<le> 100" for n
    using oversized_buckets_overflow [OF wf_peers_request [OF t(1) wf_local(1) length_13, of n 3000 4000] ctx_at_simps(2)
        wf_local(1) length_13 ctx_at_simps(5) hash_13 _ _ wf_no_nodes(1) _ length_13 _ ctx_at_simps(5), of "?ps n" zero_alloc zero_alloc
        ?k no_nodes "ctx_at 4000 zero_table zero_msg"] that t(2) [of n]
    by (simp add: wf_no_nodes MAX_PEER_BUCKETS_def split: if_splits)
  show ?thesis using run [of 26] run [of 11] b by (simp add: Let_def)
qed

text \<open>
  The reply to a \<open>JOIN\<close> call has no effect at its receiver, whatever its status: the method
  of a reply stays in network byte order, so its code reads as 256 and no case of the switch matches;
  a refusal is not noticed, nothing is stored and nothing is sent.
\<close>

theorem join_reply_ignored:
  assumes "length pl = MAX_PAYLOAD_SIZE" and "x_msg c = reply_msg JOIN pl cid status"
  shows "rbody_method (m_body (decode_header (x_msg c))) = 256 \<and>
    recv_rpc alc stack hash_key nbs c = Inr (0, c\<lparr>x_msg := decode_header (x_msg c)\<rparr>)"
proof -
  have "htons_enum (method_code JOIN) = 256" by (simp add: htons_enum_def htons_def)
  then show ?thesis
    using recv_rpc_reply [OF assms(2,1)] received_reply_body(1) [OF assms(1), where m = JOIN and cid = cid and st = status]
      assms(2) by (simp add: received_reply_def)
qed

theorem join_reply_ignored_witness:
  "let c = ctx_at 3000 zero_table (reply_msg JOIN (fill [] 0) call_id ERR)
   in \<exists>c'. recv_rpc zero_alloc zero_stack (char_array 36 ''13'') no_nodes c = Inr (0, c') \<and>
      x_node c' = x_node c \<and> x_net c' = x_net c"
  using join_reply_ignored [OF length_fill_empty ctx_at_simps(2)] by (simp add: Let_def)

text \<open>
  No run of the handler, on any message and in any state, sends a reply with an error status:
  the test for an empty info hash compares \<open>strcmp(hash, "") < 0\<close>, which no string satisfies, so the
  branch that would answer \<open>ERR\<close> is dead. Earlier datagrams stay in the outbox in their order.
\<close>

theorem handler_sends_no_error:
  assumes "recv_rpc alc stack hash_key nbs c = Inr (r, c')"
  shows "\<exists>sent. outbox (x_net c') = outbox (x_net c) @ sent \<and>
    (\<forall>(dst, msg) \<in> set sent. m_msg_type msg = htons_enum (type_code CALL) \<or>
       rbody_status (m_body msg) = htons_enum (status_code OK))"
  using recv_rpc_benign [OF assms] by (fastforce simp: sent_only_def benign_def list_all_iff)

theorem handler_sends_no_error_witness:
  "\<exists>c' sent. recv_rpc zero_alloc zero_stack (char_array 36 ''13'') no_nodes
      (ctx_at 3000 zero_table (call_msg JOIN (fill [] 0) (host_at ''127.0.0.1'' 4000))) = Inr (0, c') \<and>
     outbox (x_net c') = sent \<and>
     (\<forall>(dst, msg) \<in> set sent. m_msg_type msg = htons_enum (type_code CALL) \<or>
        rbody_status (m_body msg) = htons_enum (status_code OK))"
proof -
  obtain c' where c': "recv_rpc zero_alloc zero_stack (char_array 36 ''13'') no_nodes
      (ctx_at 3000 zero_table (call_msg JOIN (fill [] 0) (host_at ''127.0.0.1'' 4000))) = Inr (0, c')"
    using join_run by blast
  from handler_sends_no_error [OF this] c' show ?thesis by simp
qed

text \<open>
  What decoding the header loses: on every message with a body of the union's size, the segment
  number becomes 0 (\<open>ntohl\<close> moves the bits of the 16-bit field out of the 16 that are kept), the segment
  count depends on its low 32 bits only, and of the body only the four bytes of the call view's method
  can change; the origin and the correlation id stay in network order.
\<close>

theorem decode_header_losses:
  assumes "length (m_body m) = sizeof_body"
  shows "m_segment_number (decode_header m) = 0 \<and>
    m_segment_count (decode_header m) = ucast (ntohl (ucast (m_segment_count m))) \<and>
    unat (m_segment_count (decode_header m)) < 2 ^ 32 \<and>
    m_origin (decode_header m) = m_origin m \<and> m_correlation_id (decode_header m) = m_correlation_id m \<and>
    (\<forall>i < sizeof_body. i < MAX_PAYLOAD_SIZE \<or> MAX_PAYLOAD_SIZE + 4 \<le> i \<longrightarrow>
       m_body (decode_header m) ! i = m_body m ! i)"
proof -
  have "unat (ucast (w :: u32) :: u64) < 2 ^ 32" for w
  proof -
    have "unat w < 2 ^ LENGTH(32)" by (rule unsigned_less)
    then show ?thesis by (simp add: unsigned_ucast_eq take_bit_eq_mod)
  qed
  then have "unat (m_segment_count (decode_header m)) < 2 ^ 32" by (simp add: decode_header_def)
  moreover have "set_cbody_method v (m_body m) ! i = m_body m ! i"
    if "i < sizeof_body" "i < MAX_PAYLOAD_SIZE \<or> MAX_PAYLOAD_SIZE + 4 \<le> i" for i v
    using that assms
    by (auto simp: set_cbody_method_def nth_append sizeof_body_def MAX_PAYLOAD_SIZE_def)
  ultimately show ?thesis by (simp add: decode_header_def ntohl_short)
qed

theorem decode_header_losses_witness:
  "m_segment_number (decode_header (zero_msg\<lparr>m_segment_number := 513\<rparr>)) = 0 \<and>
   m_body (decode_header (zero_msg\<lparr>m_segment_number := 513\<rparr>)) ! 7 = 0"
  using decode_header_losses [of "zero_msg\<lparr>m_segment_number := 513\<rparr>"]
  by (simp add: zero_msg_def sizeof_body_def MAX_PAYLOAD_SIZE_def)

end
