(* ===== verification/Client.thy ===== *)
theory Client
  imports Protocol
begin

text \<open>
  The programs around the handler: \<open>test/client_test.c\<close>, which looks for the peers of one file, and
  \<open>test/rpc_test.c\<close>, which only answers. Each ends in a loop without an exit; one iteration is a
  function of what the environment does next, and a run is a list of such events.
\<close>

subsection \<open>Events\<close>

text \<open>
  What the kernel may do while the loop waits: \<open>select\<close> fails or times out, \<open>recvfrom\<close> fails, or it
  fills the message buffer, here with its complete contents afterwards. An event comes with the
  answers of the allocator and the stale stack bytes that its iteration meets.
\<close>

datatype event = Select_error | Timeout | Recv_error | Datagram rpc_msg

record env =
  e_event :: event
  e_alc :: "peer_t allocator"
  e_stack :: "u8 list"

definition receive :: "u8 list \<Rightarrow> node_array \<Rightarrow> rpc_ctx \<Rightarrow> env \<Rightarrow> rpc_ctx outcome" where
  "receive file_hash neighbors c e =
     (case e_event e of
        Datagram m \<Rightarrow>
          bind_res (recv_rpc (e_alc e) (e_stack e) file_hash neighbors (c\<lparr>x_msg := m\<rparr>)) (\<lambda>res.
          Inr (snd res))
      | Recv_error \<Rightarrow> Inl (Exit (- 1))
      | _ \<Rightarrow> Inr c)"

subsection \<open>The client\<close>

text \<open>
  While \<open>wait\<close> is set the client polls with a timeout of four seconds; otherwise it blocks in
  \<open>recvfrom\<close>, which neither times out nor calls \<open>select\<close>, so that those events leave it where it is.
  \<open>bucket\<close> is the pointer \<open>peer_bucket_buf\<close>, fetched once before the loop.
\<close>

definition client_step ::
    "u8 list \<Rightarrow> node_array \<Rightarrow> nat option \<Rightarrow> rpc_ctx \<Rightarrow> env \<Rightarrow> rpc_ctx outcome" where
  "client_step file_hash neighbors bucket c e =
     (if x_wait c \<and> e_event e = Select_error then Inl (Exit (- 1))
      else if x_wait c \<and> e_event e = Timeout then
        (case bucket of
           None \<Rightarrow> Inl Null_deref
         | Some i \<Rightarrow>
             bind_res (slot (x_table c) i) (\<lambda>_.
             bind_res (join_peers (x_net c) (x_node c) file_hash) (\<lambda>(r, n).
             if r \<noteq> 0 then Inl (Exit r) else Inr (c\<lparr>x_net := n\<rparr>))))
      else receive file_hash neighbors c e)"

definition client_run ::
    "u8 list \<Rightarrow> node_array \<Rightarrow> nat option \<Rightarrow> rpc_ctx \<Rightarrow> env list \<Rightarrow> rpc_ctx outcome" where
  "client_run file_hash neighbors bucket c es = fold_res (client_step file_hash neighbors bucket) c es"

text \<open>The parsed descriptor; \<open>d_nodes\<close> is the block of pointers that \<open>nodes\<close> points to.\<close>

record desciptor_file =
  d_file_hash :: "u8 list"
  d_piece_length :: u32
  d_length :: u64
  d_name :: "u8 list option"
  d_path :: "u8 list option"
  d_nodes :: "origin_ptr list"
  d_node_len :: u16

definition client_node :: "u16 \<Rightarrow> node_t" where
  "client_node host_port =
     zero_node\<lparr>n_id := char_array ID_SIZE ''14'', n_ip := char_array INET_ADDRSTRLEN ''localhost'',
               n_port := host_port\<rparr>"

text \<open>
  From the bound socket and the parsed descriptor to the loop; \<open>gr\<close> is what \<open>getsockname\<close> returns.
\<close>

definition client_start ::
    "node_array option \<Rightarrow> node_t allocator \<Rightarrow> (nat \<Rightarrow> peer_bucket_t option) \<Rightarrow> (nat \<Rightarrow> peer_t allocator) \<Rightarrow>
       int \<Rightarrow> u8 list \<Rightarrow> rpc_msg \<Rightarrow> net \<Rightarrow> origin_store \<Rightarrow> desciptor_file \<Rightarrow> u16 \<Rightarrow>
       (rpc_ctx \<times> node_array \<times> nat option) outcome" where
  "client_start memn alcn memp alcp gr stack msg_buffer n st desc host_port =
     (case new_node_array memn alcn of
        None \<Rightarrow> Inl Null_deref
      | Some arr \<Rightarrow>
          bind_res (bootstrap_neigbors alcn st (d_nodes desc) (unat (d_node_len desc)) arr) (\<lambda>(st', neighbors).
          bind_res (strcpy (o_ip zero_origin) (n_ip (client_node host_port))) (\<lambda>ip.
          let absolute_address = \<lparr>o_port = host_port, o_ip = ip\<rparr>;
              node = (client_node host_port)\<lparr>n_peer_table :=
                        init_peer_table memp alcp (n_peer_table (client_node host_port))\<rparr> in
          if gr \<noteq> 0 then Inl (Exit gr) else
          bind_res (get_peers stack n node neighbors (d_file_hash desc) absolute_address absolute_address) (\<lambda>(_, n').
          bind_res (get_peer_bucket (n_peer_table node) (d_file_hash desc)) (\<lambda>bucket.
          Inr (\<lparr>x_node = node, x_msg = msg_buffer, x_wait = True, x_net = n'\<rparr>, neighbors, bucket))))))"

subsection \<open>The responder\<close>

definition responder_step :: "u8 list \<Rightarrow> node_array \<Rightarrow> rpc_ctx \<Rightarrow> env \<Rightarrow> rpc_ctx outcome" where
  "responder_step file_hash neighbors c e = receive file_hash neighbors c e"

subsection \<open>Facts about runs\<close>

text \<open>What every iteration keeps, and what relates two states of one run.\<close>

definition loop_inv :: "rpc_ctx \<Rightarrow> bool" where
  "loop_inv c \<longleftrightarrow> wf_peers (x_table c) \<and> wf_ip (n_ip (x_node c))"

definition wf_env :: "env \<Rightarrow> bool" where
  "wf_env e \<longleftrightarrow> length (e_stack e) = MAX_PAYLOAD_SIZE \<and>
     (\<forall>m. e_event e = Datagram m \<longrightarrow>
        length (m_body m) = sizeof_body \<and> length (o_ip (m_origin m)) = INET_ADDRSTRLEN)"

definition grows :: "nat \<Rightarrow> rpc_ctx \<Rightarrow> rpc_ctx \<Rightarrow> bool" where
  "grows i c c' \<longleftrightarrow> (x_node c')\<lparr>n_peer_table := []\<rparr> = (x_node c)\<lparr>n_peer_table := []\<rparr> \<and>
     (\<exists>ps. peers_at (x_table c') = (peers_at (x_table c))(i := peers_at (x_table c) i @ ps))"

lemma grows_refl [simp]: "x_node c' = x_node c \<Longrightarrow> grows i c c'"
  by (auto simp: grows_def intro!: exI [of _ "[]"])

lemma grows_trans:
  assumes "grows i a b" "grows i b c"
  shows "grows i a c"
proof -
  obtain ps qs where "peers_at (x_table b) = (peers_at (x_table a))(i := peers_at (x_table a) i @ ps)"
    "peers_at (x_table c) = (peers_at (x_table b))(i := peers_at (x_table b) i @ qs)"
    using assms unfolding grows_def by blast
  then have "peers_at (x_table c) = (peers_at (x_table a))(i := peers_at (x_table a) i @ (ps @ qs))"
    by (simp add: fun_eq_iff)
  then show ?thesis using assms unfolding grows_def by (metis (no_types))
qed

lemma extends_identity:
  assumes "extends i c c'"
  shows "(x_node c')\<lparr>n_peer_table := []\<rparr> = (x_node c)\<lparr>n_peer_table := []\<rparr>" "n_ip (x_node c') = n_ip (x_node c)"
    "n_port (x_node c') = n_port (x_node c)"
proof -
  have e: "x_node c' = (x_node c)\<lparr>n_peer_table := x_table c'\<rparr>" using assms by (simp add: extends_def)
  show "(x_node c')\<lparr>n_peer_table := []\<rparr> = (x_node c)\<lparr>n_peer_table := []\<rparr>" by (subst e) simp
  show "n_ip (x_node c') = n_ip (x_node c)" by (subst e) simp
  show "n_port (x_node c') = n_port (x_node c)" by (subst e) simp
qed

lemma extends_grows: "extends i c c' \<Longrightarrow> grows i c c'"
  unfolding grows_def using extends_identity(1) by (auto simp: extends_def)

lemma receive_keeps:
  assumes "loop_inv c" "wf_env e" "hash key = Inr h" "receive key nbs c e = Inr c'"
  shows "loop_inv c' \<and> grows (unat h) c c'"
proof (cases "e_event e")
  case (Datagram m)
  then obtain r where r: "recv_rpc (e_alc e) (e_stack e) key nbs (c\<lparr>x_msg := m\<rparr>) = Inr (r, c')"
    using assms(4) by (auto simp: receive_def bind_res_eq_Inr)
  have "wf_ctx (e_stack e) (c\<lparr>x_msg := m\<rparr>)"
    using assms(1,2) Datagram by (simp add: wf_ctx_def loop_inv_def wf_env_def)
  from recv_rpc_extends [OF this assms(3) r]
  have x: "extends (unat h) c c'" by (simp add: extends_def)
  then have "wf_peers (x_table c')" by (simp add: extends_def)
  then show ?thesis
    using extends_grows [OF x] extends_identity(2) [OF x] assms(1) by (simp add: loop_inv_def)
qed (use assms in \<open>auto simp: receive_def\<close>)

lemma client_step_keeps:
  assumes "loop_inv c" "wf_env e" "hash key = Inr h" "client_step key nbs bucket c e = Inr c'"
  shows "loop_inv c' \<and> grows (unat h) c c'"
  using assms receive_keeps [OF assms(1-3)]
  by (auto simp: client_step_def bind_res_eq_Inr loop_inv_def split: if_splits option.splits)

lemma run_keeps:
  assumes step: "\<And>c e c'. loop_inv c \<Longrightarrow> e \<in> set es \<Longrightarrow> f c e = Inr c' \<Longrightarrow> loop_inv c' \<and> grows i c c'"
    and "loop_inv c" "fold_res f c es = Inr c'"
  shows "loop_inv c' \<and> grows i c c'"
  by (rule fold_res_invariant [OF assms(3), where P = "\<lambda>d. loop_inv d \<and> grows i c d"])
    (use assms(2) step grows_trans in auto)

subsection \<open>Facts about waiting\<close>

lemma timeout_step:
  assumes "x_wait c" "loop_inv c" "hash key = Inr h" "bucket = Some i" "i < MAX_PEER_BUCKETS"
    and "e_event e = Timeout"
  shows "peers_at (x_table c) (unat h) \<noteq> [] \<Longrightarrow>
      \<exists>n'. client_step key nbs bucket c e = Inr (c\<lparr>x_net := n'\<rparr>) \<and> send_ok n' = send_ok (x_net c) \<and>
        ((\<forall>k. send_ok (x_net c) k) \<longrightarrow> outbox n' =
           outbox (x_net c) @ map (join_datagram (node_origin (x_node c))) (peers_at (x_table c) (unat h)))"
    and "peers_at (x_table c) (unat h) = [] \<Longrightarrow> get_peer_bucket (x_table c) key \<noteq> Inr None \<Longrightarrow>
      client_step key nbs bucket c e = Inl (Exit 1)"
proof -
  have t: "wf_peers (x_table c)" "wf_table (x_table c)" "wf_ip (n_ip (x_node c))"
    using assms(2) by (simp_all add: loop_inv_def wf_peers_def)
  obtain b where b: "slot (x_table c) i = Inr b" by (rule wf_table_slot [OF t(2) assms(5)])
  show "\<exists>n'. client_step key nbs bucket c e = Inr (c\<lparr>x_net := n'\<rparr>) \<and> send_ok n' = send_ok (x_net c) \<and>
        ((\<forall>k. send_ok (x_net c) k) \<longrightarrow> outbox n' =
           outbox (x_net c) @ map (join_datagram (node_origin (x_node c))) (peers_at (x_table c) (unat h)))"
    if ne: "peers_at (x_table c) (unat h) \<noteq> []"
  proof -
    obtain n' where n': "join_peers (x_net c) (x_node c) key = Inr (0, n')" "send_ok n' = send_ok (x_net c)"
      "(\<forall>k. send_ok (x_net c) k) \<longrightarrow> outbox n' =
         outbox (x_net c) @ map (join_datagram (node_origin (x_node c))) (peers_at (x_table c) (unat h))"
      using join_peers_eq [OF t(2) assms(3) t(3) wf_peers_at [OF t(1) assms(3)] ne, of "x_net c"] by blast
    then show ?thesis using assms(1,4,6) b by (intro exI [of _ n']) (simp add: client_step_def)
  qed
  show "client_step key nbs bucket c e = Inl (Exit 1)"
    if "peers_at (x_table c) (unat h) = []" "get_peer_bucket (x_table c) key \<noteq> Inr None"
    using join_peers_empty [OF t(2) assms(3) that, of "x_net c"] assms(1,4,6) b by (simp add: client_step_def)
qed

lemma timeouts_repeat:
  assumes "loop_inv c" "hash key = Inr h" "bucket = Some i" "i < MAX_PEER_BUCKETS"
    and "x_wait c" "peers_at (x_table c) (unat h) \<noteq> []" "\<forall>k. send_ok (x_net c) k"
    and "\<forall>e \<in> set es. e_event e = Timeout"
  shows "\<exists>n'. client_run key nbs bucket c es = Inr (c\<lparr>x_net := n'\<rparr>) \<and> outbox n' = outbox (x_net c) @
    concat (replicate (length es) (map (join_datagram (node_origin (x_node c))) (peers_at (x_table c) (unat h))))"
  using assms
proof (induction es arbitrary: c)
  case Nil
  then show ?case by (auto simp: client_run_def intro!: exI [of _ "x_net c"])
next
  case (Cons e es)
  obtain n1 where n1: "client_step key nbs bucket c e = Inr (c\<lparr>x_net := n1\<rparr>)" "send_ok n1 = send_ok (x_net c)"
    "outbox n1 = outbox (x_net c) @ map (join_datagram (node_origin (x_node c))) (peers_at (x_table c) (unat h))"
    using timeout_step(1) [OF Cons.prems(5,1,2,3,4) _ Cons.prems(6)] Cons.prems(7,8) by fastforce
  have "loop_inv (c\<lparr>x_net := n1\<rparr>)" using Cons.prems(1) by (simp add: loop_inv_def)
  then show ?case
    using Cons.IH [of "c\<lparr>x_net := n1\<rparr>"] Cons.prems n1 by (auto simp: client_run_def)
qed

subsection \<open>Facts about starting\<close>

lemma bootstrap_single:
  assumes dst: "wf_nodes dst" "elems dst = []" "da_cap dst = 2"
    and o: "load_origin st p = Inr x" "wf_origin x"
  shows "\<exists>st' d. bootstrap_neigbors alc st [p] 1 dst = Inr (st', d) \<and> wf_nodes d \<and> elems d = [boot_node (o_port x)]"
proof -
  have len: "da_len dst = 0" using dst(1,2) by (metis length_elems list.size(3) unat_eq_zero)
  obtain d where d: "push_node alc dst (boot_node (o_port x)) = Inr d"
    using push_node_succeeds [OF dst(1)] dst(3) len by fastforce
  note w = na.push_wf [OF dst(1) d]
  have e: "elems d = [boot_node (o_port x)]" using w(2) dst(2) by simp
  have l: "length (da_data d) = 2" using w(1,6) dst(3) len by (simp add: wf_array_def)
  have "da_data d ! 0 = boot_node (o_port x)" using e elems_nth [of 0 d] w(3) len by simp
  then have p: "print_neighbor d 0 = Inr ()"
    using l by (simp add: print_neighbor_def boot_node_def ID_SIZE_def eval)
  have "o_ip x \<noteq> []" using o(2) by (auto simp: wf_origin_def INET_ADDRSTRLEN_def)
  then have "bootstrap_one alc [p] (st, dst) 0 = Inr (st[fst p := (st ! fst p)[snd p := erase_ip x]], d)"
    using bootstrap_one_eq [of 0 "[p]" st x x alc dst] o(1) d by simp
  then show ?thesis using p w(1) e by (simp add: bootstrap_neigbors_def)
qed

lemma new_node_array_succeeds:
  assumes "alc 288 \<noteq> None"
  shows "\<exists>d. new_node_array (Some m) alc = Some d"
proof -
  have "malloc_block alc (of_nat sizeof_node * INITIAL_CAP) sizeof_node \<noteq> None"
    using assms by (auto simp: malloc_block_def realloc_block_def sizeof_node_def INITIAL_CAP_def
        PTRDIFF_MAX_def Let_def)
  then show ?thesis by (auto simp: new_node_array_def)
qed

lemma client_node_simps [simp]:
  "wf_ip (n_ip (client_node p))" "n_port (client_node p) = p" "n_peer_table (client_node p) = replicate MAX_PEER_BUCKETS None"
  using wf_char_array [of "''localhost''"] by (simp_all add: client_node_def zero_node_def) (simp add: INET_ADDRSTRLEN_def)

text \<open>Once bootstrapping has returned, the client starts and asks as the list of neighbors says.\<close>

lemma client_start_runs:
  assumes arr: "new_node_array memn alcn = Some arr"
    and boot: "bootstrap_neigbors alcn st (d_nodes desc) (unat (d_node_len desc)) arr = Inr (st', d)" "wf_nodes d"
      "list_all (\<lambda>nd. wf_ip (n_ip nd)) (elems d)"
    and tab: "\<forall>i < MAX_PEER_BUCKETS. \<exists>m. memp i = Some m \<and> \<not> da_active m \<and> alcp i 80 \<noteq> None"
    and hash: "length (d_file_hash desc) = ID_SIZE" "hash (d_file_hash desc) = Inr h"
    and st: "length stack = MAX_PAYLOAD_SIZE"
  shows "\<exists>c bucket. client_start memn alcn memp alcp 0 stack buf n st desc port = Inr (c, d, bucket) \<and>
    loop_inv c \<and> x_wait c \<and> (\<forall>i < MAX_PEER_BUCKETS. peers_at (x_table c) i = []) \<and>
    x_node c = (client_node port)\<lparr>n_peer_table := x_table c\<rparr> \<and> get_peer_bucket (x_table c) (d_file_hash desc) = Inr bucket \<and>
    x_net c = forward stack n (x_node c) (elems d) (d_file_hash desc) (node_origin (client_node port)) (node_origin (client_node port))"
proof -
  let ?t = "init_peer_table memp alcp (replicate MAX_PEER_BUCKETS None)"
  have t: "wf_table ?t" and t0: "\<And>i. i < MAX_PEER_BUCKETS \<Longrightarrow> peers_at ?t i = []"
    by (rule wf_table_init; use tab in fastforce)+
  obtain b where b: "slot ?t (unat h) = Inr b" by (rule wf_table_slot [OF t hash_bound [OF hash(2)]])
  obtain bucket where g: "get_peer_bucket ?t (d_file_hash desc) = Inr bucket"
    using b hash(2) by (auto simp: get_peer_bucket_def)
  let ?o = "node_origin (client_node port)"
  have ip: "strcpy (o_ip zero_origin) (n_ip (client_node port)) = Inr (o_ip ?o)"
    using strcpy_pad [of "n_ip (client_node port)"] client_node_simps(1) [of port]
    by (simp add: node_origin_def wf_ip_def del: strcpy_eq_Inr)
  have o: "\<lparr>o_port = port, o_ip = o_ip ?o\<rparr> = ?o" "wf_origin ?o" by (simp_all add: node_origin_def)
  let ?node = "(client_node port)\<lparr>n_peer_table := ?t\<rparr>"
  let ?n = "forward stack n ?node (elems d) (d_file_hash desc) ?o ?o"
  obtain r where r: "get_peers stack n ?node d (d_file_hash desc) ?o ?o = Inr (r, ?n)"
    using get_peers_forward [OF boot(2,3) o(2,2) _ hash(1) st, of ?node n] by auto
  have "client_start memn alcn memp alcp 0 stack buf n st desc port =
      Inr (\<lparr>x_node = ?node, x_msg = buf, x_wait = True, x_net = ?n\<rparr>, d, bucket)"
    using arr boot(1) ip o(1) r g by (simp add: client_start_def Let_def del: strcpy_eq_Inr)
  then show ?thesis
    using t t0 boot g by (intro exI conjI) (auto simp: loop_inv_def wf_peers_def)
qed

lemma client_start_single:
  assumes mem: "memn = Some m" "alcn 288 \<noteq> None"
    and tab: "\<forall>i < MAX_PEER_BUCKETS. \<exists>m. memp i = Some m \<and> \<not> da_active m \<and> alcp i 80 \<noteq> None"
    and desc: "d_nodes desc = [p]" "d_node_len desc = 1" "load_origin st p = Inr x" "wf_origin x"
    and hash: "length (d_file_hash desc) = ID_SIZE" "hash (d_file_hash desc) = Inr h"
    and st: "length stack = MAX_PAYLOAD_SIZE"
  shows "\<exists>c nbs bucket. client_start memn alcn memp alcp 0 stack buf n st desc port = Inr (c, nbs, bucket) \<and>
    loop_inv c \<and> x_wait c \<and> (\<forall>i < MAX_PEER_BUCKETS. peers_at (x_table c) i = []) \<and>
    x_net c = snd (attempt n \<lparr>sin_port = htons (o_port x), sin_addr = 0\<rparr>
      (peers_request stack (d_file_hash desc) (node_origin (client_node port))))"
proof -
  obtain arr where arr: "new_node_array memn alcn = Some arr"
    using new_node_array_succeeds mem by blast
  note fr = na.fresh_wf [OF arr]
  obtain st' d where boot: "bootstrap_neigbors alcn st [p] 1 arr = Inr (st', d)" "wf_nodes d"
    "elems d = [boot_node (o_port x)]"
    using bootstrap_single [OF fr(1,2,3) desc(3,4)] by blast
  let ?o = "node_origin (client_node port)" and ?nd = "boot_node (o_port x)"
  have f: "first_asked ?o [?nd] = Some ?nd"
    by (simp add: first_asked_def is_origin_def node_origin_def boot_node_def zero_node_def client_node_def
        char_array_def lit_def)
  have "wf_ip (n_ip ?nd)" by (simp add: boot_node_def zero_node_def wf_ip_def INET_ADDRSTRLEN_def)
  then have ips: "list_all (\<lambda>nd. wf_ip (n_ip nd)) (elems d)" using boot(3) by simp
  have ask: "forward stack n ((client_node port)\<lparr>n_peer_table := t\<rparr>) (elems d) (d_file_hash desc) ?o ?o =
      snd (attempt n (ip_addr (node_origin ?nd)) (peers_request stack (d_file_hash desc) ?o))" for t
    unfolding forward_def boot(3) f by (simp add: peers_request_def node_origin_def)
  have addr: "ip_addr (node_origin ?nd) = \<lparr>sin_port = htons (o_port x), sin_addr = 0\<rparr>"
    by (simp add: ip_addr_def node_origin_def boot_node_def zero_node_def)
  have "bootstrap_neigbors alcn st (d_nodes desc) (unat (d_node_len desc)) arr = Inr (st', d)"
    using boot(1) desc(1,2) by simp
  from client_start_runs [where memp = memp and alcp = alcp, OF arr this boot(2) ips tab hash st, of buf n port] show ?thesis
    using ask addr by metis
qed

text \<open>With no node in the descriptor, nobody is asked.\<close>

lemma client_start_nobody:
  assumes mem: "memn = Some m" "alcn 288 \<noteq> None"
    and tab: "\<forall>i < MAX_PEER_BUCKETS. \<exists>m. memp i = Some m \<and> \<not> da_active m \<and> alcp i 80 \<noteq> None"
    and desc: "d_node_len desc = 0" and hash: "length (d_file_hash desc) = ID_SIZE" "hash (d_file_hash desc) = Inr h"
    and st: "length stack = MAX_PAYLOAD_SIZE"
  shows "\<exists>c nbs bucket. client_start memn alcn memp alcp 0 stack buf n st desc port = Inr (c, nbs, bucket) \<and>
    loop_inv c \<and> x_wait c \<and> (\<forall>i < MAX_PEER_BUCKETS. peers_at (x_table c) i = []) \<and> elems nbs = [] \<and> x_net c = n"
proof -
  obtain arr where arr: "new_node_array memn alcn = Some arr"
    using new_node_array_succeeds mem by blast
  note fr = na.fresh_wf [OF arr]
  have boot: "bootstrap_neigbors alcn st (d_nodes desc) (unat (d_node_len desc)) arr = Inr (st, arr)"
    by (simp add: desc bootstrap_neigbors_def)
  have ips: "list_all (\<lambda>nd. wf_ip (n_ip nd)) (elems arr)" using fr(2) by simp
  from client_start_runs [where memp = memp and alcp = alcp, OF arr boot fr(1) ips tab hash st, of buf n port] show ?thesis
    using fr(2) by (auto simp: forward_def first_asked_def)
qed

text \<open>
  A client whose descriptor lists two or more origins never gets past bootstrapping, whatever the
  environment answers.
\<close>

lemma client_start_two_stuck:
  assumes "2 \<le> unat (d_node_len desc)"
  shows "\<nexists>res. client_start memn alcn memp alcp gr stack buf n st desc port = Inr res"
proof (cases "new_node_array memn alcn")
  case None
  then show ?thesis by (simp add: client_start_def)
next
  case (Some arr)
  note fr = na.fresh_wf [OF Some]
  have "bootstrap_neigbors alcn st (d_nodes desc) (unat (d_node_len desc)) arr \<noteq> Inr r" for r
    using bootstrap_two_fails [OF fr(1,2) _ assms] fr(3) by (simp add: INITIAL_CAP_def)
  then show ?thesis using Some by (auto simp: client_start_def bind_res_eq_Inr)
qed

subsection \<open>Properties\<close>

text \<open>
  C18. Invariant of the client's event loop over any sequence of events, with any message contents,
  allocator answers and stale stack bytes: as long as it runs, the node keeps its identity, the peer
  table stays well formed with terminated addresses, and the table differs from the initial one only
  by peers appended to the bucket of the file hash.
\<close>

theorem client_run_grows:
  assumes "loop_inv c" and "\<forall>e \<in> set es. wf_env e" and "hash file_hash = Inr h"
    and "client_run file_hash nbs bucket c es = Inr c'"
  shows "wf_peers (x_table c') \<and> (x_node c')\<lparr>n_peer_table := []\<rparr> = (x_node c)\<lparr>n_peer_table := []\<rparr> \<and>
    (\<exists>ps. peers_at (x_table c') = (peers_at (x_table c))(unat h := peers_at (x_table c) (unat h) @ ps))"
proof -
  have "loop_inv c' \<and> grows (unat h) c c'"
    by (rule run_keeps [OF _ assms(1) assms(4) [unfolded client_run_def]])
      (use client_step_keeps [OF _ _ assms(3)] assms(2) in blast)
  then show ?thesis by (simp add: loop_inv_def grows_def)
qed

definition join_event :: env where
  "join_event = \<lparr>e_event = Datagram (call_msg JOIN (fill [] 0) (host_at ''127.0.0.1'' 4000)),
     e_alc = zero_alloc, e_stack = zero_stack\<rparr>"

lemma join_event_step:
  "\<exists>c'. client_step (char_array 36 ''13'') no_nodes (Some 9) (ctx_at 3000 zero_table zero_msg) join_event = Inr c'"
proof -
  have "(ctx_at 3000 zero_table zero_msg)\<lparr>x_msg := m\<rparr> = ctx_at 3000 zero_table m" for m by (simp add: ctx_at_def)
  then show ?thesis using join_run by (auto simp: client_step_def receive_def join_event_def)
qed

lemma wf_join_event: "wf_env join_event"
  using wf_local(1) [of 4000] by (simp add: wf_env_def join_event_def call_msg_def wf_origin_def)

lemma loop_inv_ctx_at: "wf_peers t \<Longrightarrow> loop_inv (ctx_at port t m)"
  using wf_local(2) [of port] by (simp add: loop_inv_def ctx_at_def)

theorem client_run_grows_witness:
  "\<exists>c'. client_run (char_array 36 ''13'') no_nodes (Some 9) (ctx_at 3000 zero_table zero_msg) [join_event] = Inr c' \<and>
     wf_peers (x_table c')"
proof -
  obtain c' where c': "client_run (char_array 36 ''13'') no_nodes (Some 9) (ctx_at 3000 zero_table zero_msg) [join_event] = Inr c'"
    using join_event_step by (auto simp: client_run_def)
  have "\<forall>e \<in> set [join_event]. wf_env e" using wf_join_event by simp
  from client_run_grows [OF loop_inv_ctx_at [OF wf_peers_zero_table] this hash_13 c'] c' show ?thesis by blast
qed

text \<open>
  C19. What the client does when it times out, again and again: with an empty bucket the first timeout
  ends the process with status 1; with peers in the bucket, \<open>k\<close> timeouts in a row send \<open>k\<close> rounds of
  \<open>JOIN\<close> calls, one to each peer every time, whether or not the peers have answered, and the client
  is still waiting.
\<close>

theorem client_timeouts:
  assumes "loop_inv c" and "hash file_hash = Inr h" and "i < MAX_PEER_BUCKETS" and "x_wait c"
    and "get_peer_bucket (x_table c) file_hash \<noteq> Inr None" and "\<forall>k. send_ok (x_net c) k"
    and "es \<noteq> []" and "\<forall>e \<in> set es. e_event e = Timeout"
  shows "if peers_at (x_table c) (unat h) = []
    then client_run file_hash nbs (Some i) c es = Inl (Exit 1)
    else \<exists>n'. client_run file_hash nbs (Some i) c es = Inr (c\<lparr>x_net := n'\<rparr>) \<and> outbox n' = outbox (x_net c) @
      concat (replicate (length es) (map (join_datagram (node_origin (x_node c))) (peers_at (x_table c) (unat h))))"
proof (cases "peers_at (x_table c) (unat h) = []")
  case True
  obtain e es' where es: "es = e # es'" using assms(7) by (cases es) auto
  then show ?thesis
    using timeout_step(2) [OF assms(4,1,2) refl assms(3) _ True assms(5)] assms(8) True
    by (simp add: client_run_def)
next
  case False
  then show ?thesis using timeouts_repeat [OF assms(1,2) refl assms(3,4) False assms(6,8)] by simp
qed

theorem client_timeouts_witness:
  "let t = \<lparr>e_event = Timeout, e_alc = zero_alloc, e_stack = zero_stack\<rparr>;
       c = ctx_at 3000 (table_13 [zero_peer\<lparr>p_port := 1\<rparr>]) zero_msg
   in \<exists>n'. client_run (char_array 36 ''13'') no_nodes (Some 9) c [t, t] = Inr (c\<lparr>x_net := n'\<rparr>) \<and> length (outbox n') = 2"
proof -
  let ?t = "\<lparr>e_event = Timeout, e_alc = zero_alloc, e_stack = zero_stack\<rparr>" and ?ps = "[zero_peer\<lparr>p_port := 1\<rparr>]"
  let ?c = "ctx_at 3000 (table_13 ?ps) zero_msg"
  note t = table_13 [of ?ps, simplified]
  have wt: "wf_table (table_13 ?ps)" using t(1) by (simp add: wf_peers_def)
  have "get_peer_bucket (x_table ?c) (char_array 36 ''13'') \<noteq> Inr None"
    using get_peer_bucket_present [OF wt hash_13] t(2) by simp
  from client_timeouts [OF loop_inv_ctx_at [OF t(1)] hash_13 _ ctx_at_simps(4) this, of 9 "[?t, ?t]" no_nodes]
  show ?thesis using t(2) by (auto simp: Let_def MAX_PEER_BUCKETS_def)
qed

end
