(* ===== verification/Network.thy ===== *)
theory Network
  imports Client
begin

text \<open>
  Several nodes on one host exchanging datagrams, as the test launcher sets them up. A step of the
  network delivers a datagram to the process bound to its port, or loses or duplicates one, or lets a
  waiting client time out; what a process does in its step is the code of the theories before.
\<close>

subsection \<open>Worlds and steps\<close>

record proc =
  pr_ctx :: rpc_ctx
  pr_key :: "u8 list"
  pr_nbs :: node_array
  pr_bucket :: "nat option"
  pr_alive :: bool

record world =
  procs :: "proc list"
  flight :: "datagram list"

text \<open>Addresses of the one host: 0.0.0.0, which a sender reaches itself by, and 127.0.0.0/8.\<close>

definition bound :: "proc \<Rightarrow> sockaddr_in \<Rightarrow> bool" where
  "bound p dst \<longleftrightarrow> sin_port dst = htons (n_port (x_node (pr_ctx p))) \<and>
     (sin_addr dst = 0 \<or> drop_bit 24 (sin_addr dst) = 127)"

text \<open>After its step a process has handed its outbox to the network.\<close>

definition commit :: "world \<Rightarrow> nat \<Rightarrow> datagram list \<Rightarrow> rpc_ctx \<Rightarrow> world" where
  "commit w i rest c =
     \<lparr>procs = (procs w)[i := (procs w ! i)\<lparr>pr_ctx := c\<lparr>x_net := (x_net c)\<lparr>outbox := []\<rparr>\<rparr>\<rparr>],
      flight = rest @ outbox (x_net c)\<rparr>"

definition kill :: "world \<Rightarrow> nat \<Rightarrow> datagram list \<Rightarrow> world" where
  "kill w i rest = \<lparr>procs = (procs w)[i := (procs w ! i)\<lparr>pr_alive := False\<rparr>], flight = rest\<rparr>"

inductive net_step :: "world \<Rightarrow> world \<Rightarrow> bool" where
  Deliver: "flight w = xs @ (dst, m) # ys \<Longrightarrow> i < length (procs w) \<Longrightarrow> p = procs w ! i \<Longrightarrow> pr_alive p \<Longrightarrow>
     bound p dst \<Longrightarrow> e_event e = Datagram m \<Longrightarrow> length (e_stack e) = MAX_PAYLOAD_SIZE \<Longrightarrow>
     receive (pr_key p) (pr_nbs p) (pr_ctx p) e = Inr c \<Longrightarrow> net_step w (commit w i (xs @ ys) c)"
| Crash: "flight w = xs @ (dst, m) # ys \<Longrightarrow> i < length (procs w) \<Longrightarrow> p = procs w ! i \<Longrightarrow> pr_alive p \<Longrightarrow>
     bound p dst \<Longrightarrow> e_event e = Datagram m \<Longrightarrow> length (e_stack e) = MAX_PAYLOAD_SIZE \<Longrightarrow>
     receive (pr_key p) (pr_nbs p) (pr_ctx p) e = Inl f \<Longrightarrow> net_step w (kill w i (xs @ ys))"
| Lose: "flight w = xs @ d # ys \<Longrightarrow> net_step w (w\<lparr>flight := xs @ ys\<rparr>)"
| Duplicate: "d \<in> set (flight w) \<Longrightarrow> net_step w (w\<lparr>flight := flight w @ [d]\<rparr>)"
| Time_out: "i < length (procs w) \<Longrightarrow> p = procs w ! i \<Longrightarrow> pr_alive p \<Longrightarrow> x_wait (pr_ctx p) \<Longrightarrow> e_event e = Timeout \<Longrightarrow>
     client_step (pr_key p) (pr_nbs p) (pr_bucket p) (pr_ctx p) e = Inr c \<Longrightarrow> net_step w (commit w i (flight w) c)"
| Give_up: "i < length (procs w) \<Longrightarrow> p = procs w ! i \<Longrightarrow> pr_alive p \<Longrightarrow> x_wait (pr_ctx p) \<Longrightarrow> e_event e = Timeout \<Longrightarrow>
     client_step (pr_key p) (pr_nbs p) (pr_bucket p) (pr_ctx p) e = Inl f \<Longrightarrow> net_step w (kill w i (flight w))"

inductive_cases net_stepE: "net_step w w'"

text \<open>The deliveries among the steps: nothing is lost, duplicated or timed out.\<close>

inductive delivery :: "world \<Rightarrow> world \<Rightarrow> bool" where
  "flight w = xs @ (dst, m) # ys \<Longrightarrow> i < length (procs w) \<Longrightarrow> p = procs w ! i \<Longrightarrow> pr_alive p \<Longrightarrow>
     bound p dst \<Longrightarrow> e_event e = Datagram m \<Longrightarrow> length (e_stack e) = MAX_PAYLOAD_SIZE \<Longrightarrow>
     receive (pr_key p) (pr_nbs p) (pr_ctx p) e = Inr c \<Longrightarrow> delivery w (commit w i (xs @ ys) c)"

lemma delivery_step: "delivery w w' \<Longrightarrow> net_step w w'"
  by (induction rule: delivery.induct) (rule net_step.Deliver)

inductive reachable :: "world \<Rightarrow> world \<Rightarrow> bool" for w0 where
  Start: "reachable w0 w0"
| Step: "reachable w0 w \<Longrightarrow> net_step w w' \<Longrightarrow> reachable w0 w'"

subsection \<open>Messages a network of these nodes exchanges\<close>

text \<open>\<open>Os\<close> is the set of origins of the network's nodes, \<open>K\<close> the set of peers that may be known.\<close>

definition good_call :: "origin set \<Rightarrow> rpc_msg \<Rightarrow> bool" where
  "good_call Os m \<longleftrightarrow> (\<exists>host \<in> Os. m = call_msg JOIN (fill [] 0) host) \<or>
     (\<exists>host \<in> Os. \<exists>src \<in> Os. \<exists>stk key h. m = call_msg GET_PEERS (get_peers_payload stk key src) host \<and>
        length stk = MAX_PAYLOAD_SIZE \<and> length key = ID_SIZE \<and> hash key = Inr h)"

definition good_reply :: "peer_t set \<Rightarrow> rpc_msg \<Rightarrow> bool" where
  "good_reply K m \<longleftrightarrow> (\<exists>cid. m = reply_msg JOIN (fill [] 0) cid OK) \<or>
     (\<exists>cid ps. m = bucket_reply cid ps \<and> set ps \<subseteq> K \<and> list_all wf_peer ps \<and> length ps \<le> 25)"

definition good_msg :: "origin set \<Rightarrow> peer_t set \<Rightarrow> rpc_msg \<Rightarrow> bool" where
  "good_msg Os K m \<longleftrightarrow> good_call Os m \<or> good_reply K m"

definition good_net :: "origin set \<Rightarrow> peer_t set \<Rightarrow> bool" where
  "good_net Os K \<longleftrightarrow> (\<forall>x \<in> Os. wf_origin x \<and> canon x = x \<and> joiner x \<in> K)"

definition known :: "peer_t set \<Rightarrow> peer_table \<Rightarrow> bool" where
  "known K t \<longleftrightarrow> (\<forall>i. set (peers_at t i) \<subseteq> K)"

definition good_ctx :: "origin set \<Rightarrow> peer_t set \<Rightarrow> rpc_ctx \<Rightarrow> bool" where
  "good_ctx Os K c \<longleftrightarrow> loop_inv c \<and> known K (x_table c) \<and> node_origin (x_node c) \<in> Os \<and>
     (\<forall>d \<in> set (outbox (x_net c)). good_msg Os K (snd d))"

definition good_proc :: "origin set \<Rightarrow> peer_t set \<Rightarrow> proc \<Rightarrow> bool" where
  "good_proc Os K p \<longleftrightarrow> good_ctx Os K (pr_ctx p) \<and> length (pr_key p) = ID_SIZE \<and> (\<exists>h. hash (pr_key p) = Inr h) \<and>
     wf_nodes (pr_nbs p) \<and> list_all (\<lambda>nd. wf_ip (n_ip nd)) (elems (pr_nbs p))"

definition good_world :: "origin set \<Rightarrow> peer_t set \<Rightarrow> world \<Rightarrow> bool" where
  "good_world Os K w \<longleftrightarrow> (\<forall>p \<in> set (procs w). good_proc Os K p) \<and> (\<forall>d \<in> set (flight w). good_msg Os K (snd d))"

lemma known_append:
  "known K t \<Longrightarrow> peers_at t' = (peers_at t)(i := peers_at t i @ ps) \<Longrightarrow> set ps \<subseteq> K \<Longrightarrow> known K t'"
  by (simp add: known_def)

lemma attempt_good:
  "\<forall>d \<in> set (outbox n). good_msg Os K (snd d) \<Longrightarrow> good_msg Os K m \<Longrightarrow>
     \<forall>d \<in> set (outbox (snd (attempt n dst m))). good_msg Os K (snd d)"
  by (auto simp: attempt_def sendto_def)

lemma sent_only_good:
  "sent_only (\<lambda>d. good_msg Os K (snd d)) n n' \<Longrightarrow> \<forall>d \<in> set (outbox n). good_msg Os K (snd d) \<Longrightarrow>
     \<forall>d \<in> set (outbox n'). good_msg Os K (snd d)"
  by (fastforce simp: sent_only_def list_all_iff)

abbreviation only_joins :: "origin \<Rightarrow> net \<Rightarrow> net \<Rightarrow> bool" where
  "only_joins host \<equiv> sent_only (\<lambda>d. snd d = call_msg JOIN (fill [] 0) host)"

lemma join_one_sends:
  assumes host: "wf_origin host" and j: "join_one b host n i = Inr n'"
  shows "only_joins host n n'"
proof -
  have c: "snd d = call_msg JOIN (fill [] 0) host" if "call_datagram JOIN [] 0 dst host = Inr d" for d dst
    using that host strcpy_pad [of "o_ip host"]
    by (auto simp: call_datagram_def memcpy_fill bind_res_eq_Inr Let_def call_msg_def zero_msg_def wf_origin_def
        simp del: strcpy_eq_Inr)
  obtain dst k where "call_rpc n JOIN [] 0 dst host = Inr (k, n')"
    using j by (auto simp: join_one_def Let_def bind_res_eq_Inr split: if_splits simp del: strcpy_eq_Inr)
  then show ?thesis
    using call.send_effect [of n "(JOIN, [], 0, dst, host)" k n'] c by (auto simp: sent_only_def)
qed

lemma join_peers_sends:
  assumes ip: "wf_ip (n_ip node)" and j: "join_peers n node info_hash = Inr (r, n')"
  shows "only_joins (node_origin node) n n'"
proof -
  have o: "wf_origin (node_origin node)" using ip by (simp add: node_origin_def)
  have loop: "only_joins (node_origin node) n n''" if "fold_res (join_one b (node_origin node)) n is = Inr n''" for b "is" n''
    by (rule fold_res_invariant [OF that, where P = "only_joins (node_origin node) n"])
      (use sent_only_refl join_one_sends [OF o] sent_only_trans in blast)+
  show ?thesis
    using j strcpy_pad [of "n_ip node"] ip loop
    by (auto simp: join_peers_def bind_res_eq_Inr wf_ip_def node_origin_def split: option.splits if_splits
        simp del: strcpy_eq_Inr)
qed

subsection \<open>Handling a good message\<close>

text \<open>
  The outcomes that are possible: the handler returns, knows no new peers but those in \<open>K\<close> and sends
  only good messages; or the allocator refuses the block in which the bucket of \<open>n\<close> peers would hold the
  peers that the message brings; or a peer list is too long for a buffer.
\<close>

definition too_long :: "rpc_ctx \<Rightarrow> rpc_msg \<Rightarrow> bool" where
  "too_long c m \<longleftrightarrow>
     (\<exists>host src stk info h. m = call_msg GET_PEERS (get_peers_payload stk info src) host \<and> hash info = Inr h \<and>
        26 \<le> length (peers_at (x_table c) (unat h))) \<or>
     (\<exists>cid ps. m = bucket_reply cid ps \<and> MAX_PEER_BUCKETS < length ps)"

definition too_short :: "peer_t allocator \<Rightarrow> nat \<Rightarrow> rpc_msg \<Rightarrow> bool" where
  "too_short alc n m \<longleftrightarrow> (\<exists>host. m = call_msg JOIN (fill [] 0) host \<and> cannot_grow alc n 1) \<or>
     (\<exists>cid ps. m = bucket_reply cid ps \<and> length ps \<le> MAX_PEER_BUCKETS \<and> cannot_grow alc n (length ps))"

definition good_result ::
    "origin set \<Rightarrow> peer_t set \<Rightarrow> rpc_ctx \<Rightarrow> peer_t allocator \<Rightarrow> nat \<Rightarrow> rpc_msg \<Rightarrow> (int \<times> rpc_ctx) outcome \<Rightarrow> bool" where
  "good_result Os K c alc n m res \<longleftrightarrow>
     (case res of
        Inr (r, c') \<Rightarrow> known K (x_table c') \<and> (\<forall>d \<in> set (outbox (x_net c')). good_msg Os K (snd d))
      | Inl f \<Rightarrow> (f = Exit 1 \<and> too_short alc n m) \<or> (f = OOB_write \<and> too_long c m))"

lemma length_fill_bucket:
  assumes "list_all wf_peer ps" "length ps \<le> 25"
  shows "length (fill (peer_list_bytes ps) (sizeof_peer * length ps + 1)) = MAX_PAYLOAD_SIZE"
  using length_peer_list_bytes [OF assms(1)] assms(2)
  by (intro length_fill) (simp_all add: sizeof_peer_def MAX_PAYLOAD_SIZE_def)

lemma good_msg_wf:
  assumes "good_net Os K" "good_msg Os K m"
  shows "length (m_body m) = sizeof_body" "length (o_ip (m_origin m)) = INET_ADDRSTRLEN"
  using assms length_fill_bucket
  by (auto simp: good_msg_def good_call_def good_reply_def good_net_def call_msg_def reply_msg_def bucket_reply_def
      length_get_peers_payload wf_origin_def zero_origin_def)

lemma join_call_good:
  assumes net: "good_net Os K" and c: "good_ctx Os K c" and key: "hash key = Inr h" and host: "host \<in> Os"
    and m: "m = call_msg JOIN (fill [] 0) host"
  shows "good_result Os K c alc (length (peers_at (x_table c) (unat h))) m (recv_rpc alc stack key nbs (c\<lparr>x_msg := m\<rparr>))"
proof -
  let ?c = "c\<lparr>x_msg := received_call JOIN (fill [] 0) host\<rparr>"
  have o: "wf_origin host" "canon host = host" "joiner host \<in> K" using net host by (auto simp: good_net_def)
  have t: "wf_table (x_table c)" using c by (simp add: good_ctx_def loop_inv_def wf_peers_def)
  obtain r n where a: "attempt (x_net c) (ip_addr host) (reply_msg JOIN (fill [] 0) call_id OK) = (r, n)"
    by (cases "attempt (x_net c) (ip_addr host) (reply_msg JOIN (fill [] 0) call_id OK)") blast
  have n: "\<forall>d \<in> set (outbox n). good_msg Os K (snd d)"
    using attempt_good [of "x_net c" Os K "reply_msg JOIN (fill [] 0) call_id OK" "ip_addr host"] c a
    by (auto simp: good_ctx_def good_msg_def good_reply_def)
  have eq: "recv_rpc alc stack key nbs (c\<lparr>x_msg := m\<rparr>) =
      (if r < 0 then Inr (1, ?c\<lparr>x_net := n\<rparr>)
       else bind_res (set_peer alc (x_table c) key (joiner host)) (\<lambda>t. Inr (0, set_table (?c\<lparr>x_net := n\<rparr>) t)))"
    using recv_rpc_call [of "c\<lparr>x_msg := m\<rparr>" JOIN "fill [] 0" host alc stack key nbs] m o
      recv_join_call_eq [of host ?c call_id alc key] a by simp
  show ?thesis
  proof (cases "set_peer alc (x_table c) key (joiner host)")
    case (Inl e)
    then have st: "e = Exit 1" "bucket_stuck alc (x_table c) (unat h)" using set_peer_stops_iff [OF t key] by simp_all
    have "cannot_grow alc (length (peers_at (x_table c) (unat h))) 1"
      by (rule bucket_stuck_grow [OF t hash_bound [OF key] st(2)]) simp
    then have "too_short alc (length (peers_at (x_table c) (unat h))) m" using m by (auto simp: too_short_def)
    then show ?thesis using eq n c Inl st(1) by (simp add: good_result_def good_ctx_def)
  next
    case (Inr t')
    have "known K t'"
      using known_append [of K "x_table c" t' "unat h" "[joiner host]"] set_peer_ok [OF t key Inr] c o(3)
      by (simp add: good_ctx_def)
    then show ?thesis using eq n c Inr by (simp add: good_result_def good_ctx_def)
  qed
qed

lemma peers_call_good:
  assumes net: "good_net Os K" and c: "good_ctx Os K c" and stack: "length stack = MAX_PAYLOAD_SIZE"
    and key: "length key = ID_SIZE" "hash key = Inr k"
    and nbs: "wf_nodes nbs" "list_all (\<lambda>nd. wf_ip (n_ip nd)) (elems nbs)"
    and os: "host \<in> Os" "src \<in> Os" and info: "length stk = MAX_PAYLOAD_SIZE" "length info = ID_SIZE" "hash info = Inr h"
    and m: "m = call_msg GET_PEERS (get_peers_payload stk info src) host"
  shows "good_result Os K c alc (length (peers_at (x_table c) (unat k))) m (recv_rpc alc stack key nbs (c\<lparr>x_msg := m\<rparr>))"
proof -
  let ?pl = "get_peers_payload stk info src" and ?ps = "peers_at (x_table c) (unat h)"
  have o: "wf_origin host" "canon host = host" "wf_origin src" "canon src = src"
    using net os by (auto simp: good_net_def)
  note rq = request_fields [OF o(3) info(2,1)]
  have lp: "length ?pl = MAX_PAYLOAD_SIZE" by (rule length_get_peers_payload [OF o(3) info(2,1)])
  have good: "good_msg Os K m" using os info m by (auto simp: good_msg_def good_call_def)
  have t: "wf_peers (x_table c)" "node_origin (x_node c) \<in> Os" "set ?ps \<subseteq> K" "known K (x_table c)"
    "\<forall>d \<in> set (outbox (x_net c)). good_msg Os K (snd d)"
    using c by (auto simp: good_ctx_def loop_inv_def known_def)
  have "wf_ctx stack (c\<lparr>x_msg := m\<rparr>)"
    using c good_msg_wf [OF net good] stack by (simp add: wf_ctx_def good_ctx_def loop_inv_def)
  moreover have "0 \<in> set (o_ip (request_src ?pl))" using o(3) by (simp add: rq(1) wf_origin_def)
  moreover have "hash (request_hash ?pl) = Inr h" using info by (simp add: rq(2))
  ultimately have eq: "recv_rpc alc stack key nbs (c\<lparr>x_msg := m\<rparr>) =
    (let c' = c\<lparr>x_msg := received_call GET_PEERS ?pl host\<rparr> in
     if get_peer_bucket (x_table c) info = Inr None
     then (case attempt (x_net c) (ip_addr host) (bucket_reply call_id []) of (r, n) \<Rightarrow> Inr (r, c'\<lparr>x_net := n\<rparr>))
     else if ?ps = [] \<and> elems nbs \<noteq> []
     then Inr (0, c'\<lparr>x_net := forward stack (x_net c) (x_node c) (elems nbs) key src host, x_wait := True\<rparr>)
     else if 26 \<le> length ?ps then Inl OOB_write
     else Inr (0, c'\<lparr>x_net := snd (attempt (x_net c) (ip_addr src) (bucket_reply call_id ?ps)), x_wait := False\<rparr>))"
    using recv_get_peers_request [of stack "c\<lparr>x_msg := m\<rparr>" ?pl host h nbs key alc] m lp o nbs key rq
    by (simp add: Let_def)
  have "good_msg Os K (call_msg GET_PEERS (get_peers_payload stack key src) (node_origin (x_node c)))"
    unfolding good_msg_def good_call_def using t(2) os(2) stack key by blast
  then have fw: "\<forall>d \<in> set (outbox (forward stack (x_net c) (x_node c) (elems nbs) key src host)). good_msg Os K (snd d)"
    unfolding forward_def using attempt_good [OF t(5)] t(5) by (cases "first_asked host (elems nbs)") simp_all
  have rep: "\<forall>d \<in> set (outbox (snd (attempt (x_net c) dst (bucket_reply call_id qs)))). good_msg Os K (snd d)"
    if "set qs \<subseteq> K" "list_all wf_peer qs" "length qs \<le> 25" for dst qs
    using attempt_good [OF t(5), of "bucket_reply call_id qs" dst] that by (auto simp: good_msg_def good_reply_def)
  have "too_long c m" if "26 \<le> length ?ps" using that info(3) m unfolding too_long_def by blast
  then show ?thesis
    using eq fw rep [of "[]" "ip_addr host"] rep [OF t(3), of "ip_addr src"] wf_peers_at [OF t(1) info(3)] t(4)
    by (auto simp: good_result_def Let_def split: prod.split)
qed

lemma bucket_reply_good:
  assumes net: "good_net Os K" and c: "good_ctx Os K c" and stack: "length stack = MAX_PAYLOAD_SIZE"
    and key: "hash key = Inr h" and ps: "set ps \<subseteq> K" "list_all wf_peer ps" "length ps \<le> 25"
    and m: "m = bucket_reply cid ps"
  shows "good_result Os K c alc (length (peers_at (x_table c) (unat h))) m (recv_rpc alc stack key nbs (c\<lparr>x_msg := m\<rparr>))"
proof -
  let ?d = "c\<lparr>x_msg := decode_header m\<rparr>"
  note rb = recv_rpc_bucket_reply [of "c\<lparr>x_msg := m\<rparr>", OF _ ps(2,3)]
  have eq: "recv_rpc alc stack key nbs (c\<lparr>x_msg := m\<rparr>) = recv_get_peers_reply alc stack key ?d"
    using rb(1) m by simp
  have rp: "reply_peers (x_msg ?d) = ps" using reply_peers_bucket(1) [OF ps(2,3)] m by simp
  have t: "wf_peers (x_table ?d)" "wf_ip (n_ip (x_node ?d))" "known K (x_table c)" "node_origin (x_node c) \<in> Os"
    "\<forall>d \<in> set (outbox (x_net c)). good_msg Os K (snd d)"
    using c by (simp_all add: good_ctx_def loop_inv_def)
  consider "ps = []" | "MAX_PEER_BUCKETS < length ps" | "ps \<noteq> []" "length ps \<le> MAX_PEER_BUCKETS" by linarith
  then show ?thesis
  proof cases
    case 1
    then have "recv_get_peers_reply alc stack key ?d = Inr (0, ?d)"
      using rb(2) reply_peers_bucket(2) [OF ps(2,3), of cid] m by (simp add: recv_get_peers_reply_def Let_def)
    then show ?thesis using eq t by (simp add: good_result_def)
  next
    case 2
    then show ?thesis
      using bucket_overrun [OF ps(2) 2 ps(3) stack, where alc = alc and hash_key = key and nbs = nbs and c = c and cid = cid] m by (auto simp: good_result_def too_long_def)
  next
    case 3
    have ne: "reply_peers (x_msg ?d) \<noteq> []" "length (reply_peers (x_msg ?d)) \<le> MAX_PEER_BUCKETS"
      using 3 rp by simp_all
    have tm: "list_all terminated ps" using ps(2) by (auto simp: list_all_iff wf_peer_def terminated_def)
    have body: "length (m_body (x_msg ?d)) = sizeof_body" "rbody_status (m_body (x_msg ?d)) = status_code OK"
      using rb(2,3) m by simp_all
    show ?thesis
    proof (rule recv_get_peers_reply_eq [OF t(1,2) stack key body ne, of alc])
      fix t' n'
      assume k: "peers_at t' = (peers_at (x_table ?d))(unat h := peers_at (x_table ?d) (unat h) @ reply_peers (x_msg ?d))"
        and j: "2 \<le> length (peers_at t' (unat h)) \<Longrightarrow> join_peers (x_net ?d) (x_node (set_table ?d t')) key = Inr (0, n')"
        and r: "recv_get_peers_reply alc stack key ?d =
         Inr (0, if 2 \<le> length (peers_at t' (unat h))
                 then (set_table ?d t')\<lparr>x_net := n', x_wait := False\<rparr> else set_table ?d t')"
      have kn: "known K t'" using known_append [OF _ k, of K] t(3) ps(1) unfolding rp by simp
      have no: "node_origin (x_node (set_table ?d t')) = node_origin (x_node c)"
        by (simp add: node_origin_def set_table_def)
      have "good_msg Os K (call_msg JOIN (fill [] 0) (node_origin (x_node c)))"
        using t(4) by (auto simp: good_msg_def good_call_def)
      then have g: "only_joins (node_origin (x_node c)) n n' \<Longrightarrow> sent_only (\<lambda>d. good_msg Os K (snd d)) n n'" for n n'
        by (auto simp: sent_only_def list_all_iff)
      have ip: "wf_ip (n_ip (x_node (set_table ?d t')))" using t(2) by simp
      have "\<forall>d \<in> set (outbox n'). good_msg Os K (snd d)" if two: "2 \<le> length (peers_at t' (unat h))"
        using join_peers_sends [OF ip j [OF two]] unfolding no
        by (intro sent_only_good [OF g t(5)]) simp
      then show ?thesis using eq r kn t(5) by (simp add: good_result_def)
    next
      fix e
      assume e: "store_peers alc key (x_table ?d) (reply_peers (x_msg ?d)) = Inl e"
        and r: "recv_get_peers_reply alc stack key ?d = Inl (Exit 1)"
      have "wf_table (x_table ?d)" using t(1) by (simp add: wf_peers_def)
      from store_peers_short [OF this key e] have "too_short alc (length (peers_at (x_table c) (unat h))) m"
        using 3(2) m unfolding rp by (auto simp: too_short_def)
      then show ?thesis using eq r by (simp add: good_result_def)
    next
      assume "\<not> list_all terminated (reply_peers (x_msg ?d))"
      then show ?thesis using tm unfolding rp by blast
    qed
  qed
qed

lemma join_reply_good:
  assumes "good_ctx Os K c" "m = reply_msg JOIN (fill [] 0) cid OK"
  shows "good_result Os K c alc n m (recv_rpc alc stack key nbs (c\<lparr>x_msg := m\<rparr>))"
  using recv_rpc_reply [of "c\<lparr>x_msg := m\<rparr>" JOIN "fill [] 0" cid OK alc stack key nbs] assms
  by (simp add: good_result_def good_ctx_def)

lemma recv_rpc_good:
  assumes "good_net Os K" "good_ctx Os K c" "length stack = MAX_PAYLOAD_SIZE"
    and "length key = ID_SIZE" "hash key = Inr h" "wf_nodes nbs" "list_all (\<lambda>nd. wf_ip (n_ip nd)) (elems nbs)"
    and "good_msg Os K m"
  shows "good_result Os K c alc (length (peers_at (x_table c) (unat h))) m (recv_rpc alc stack key nbs (c\<lparr>x_msg := m\<rparr>))"
proof -
  consider (join) host where "host \<in> Os" "m = call_msg JOIN (fill [] 0) host"
    | (peers) host src stk info h where "host \<in> Os" "src \<in> Os" "m = call_msg GET_PEERS (get_peers_payload stk info src) host"
        "length stk = MAX_PAYLOAD_SIZE" "length info = ID_SIZE" "hash info = Inr h"
    | (joined) cid where "m = reply_msg JOIN (fill [] 0) cid OK"
    | (bucket) cid ps where "m = bucket_reply cid ps" "set ps \<subseteq> K" "list_all wf_peer ps" "length ps \<le> 25"
    using assms(8) unfolding good_msg_def good_call_def good_reply_def by blast
  then show ?thesis
  proof cases
    case join
    then show ?thesis by (rule join_call_good [OF assms(1,2,5)])
  next
    case peers
    then show ?thesis by (intro peers_call_good [OF assms(1-7), of host src stk info h]) simp_all
  next
    case joined
    then show ?thesis by (rule join_reply_good [OF assms(2)])
  next
    case bucket
    then show ?thesis by (intro bucket_reply_good [OF assms(1-3,5), of ps m cid]) simp_all
  qed
qed

subsection \<open>The invariant of a network\<close>

lemma good_ctx_sent: "good_ctx Os K c \<Longrightarrow> good_ctx Os K (c\<lparr>x_net := (x_net c)\<lparr>outbox := []\<rparr>\<rparr>)"
  by (simp add: good_ctx_def loop_inv_def)

lemma grows_origin: "grows i c c' \<Longrightarrow> node_origin (x_node c') = node_origin (x_node c)"
proof -
  assume "grows i c c'"
  then have e: "(x_node c')\<lparr>n_peer_table := []\<rparr> = (x_node c)\<lparr>n_peer_table := []\<rparr>" by (simp add: grows_def)
  have "node_origin nd = node_origin (nd\<lparr>n_peer_table := []\<rparr>)" for nd :: node_t by (simp add: node_origin_def)
  then show ?thesis using e by metis
qed

lemma receive_good:
  assumes net: "good_net Os K" and p: "good_proc Os K p" and m: "good_msg Os K m" "e_event e = Datagram m"
    and st: "length (e_stack e) = MAX_PAYLOAD_SIZE" and h: "hash (pr_key p) = Inr h"
  shows "receive (pr_key p) (pr_nbs p) (pr_ctx p) e = Inr c \<Longrightarrow> good_ctx Os K c"
    and "receive (pr_key p) (pr_nbs p) (pr_ctx p) e = Inl f \<Longrightarrow>
      (f = Exit 1 \<and> too_short (e_alc e) (length (peers_at (x_table (pr_ctx p)) (unat h))) m) \<or>
      (f = OOB_write \<and> too_long (pr_ctx p) m)"
proof -
  have c: "good_ctx Os K (pr_ctx p)" "loop_inv (pr_ctx p)" using p by (auto simp: good_proc_def good_ctx_def)
  have r: "good_result Os K (pr_ctx p) (e_alc e) (length (peers_at (x_table (pr_ctx p)) (unat h))) m
      (recv_rpc (e_alc e) (e_stack e) (pr_key p) (pr_nbs p) ((pr_ctx p)\<lparr>x_msg := m\<rparr>))"
    using p by (intro recv_rpc_good [OF net c(1) st _ h _ _ m(1)]) (simp_all add: good_proc_def)
  have "wf_env e" using good_msg_wf [OF net m(1)] st m(2) by (simp add: wf_env_def)
  note keeps = receive_keeps [OF c(2) this h]
  show "good_ctx Os K c" if rc: "receive (pr_key p) (pr_nbs p) (pr_ctx p) e = Inr c"
  proof -
    obtain i where i: "recv_rpc (e_alc e) (e_stack e) (pr_key p) (pr_nbs p) ((pr_ctx p)\<lparr>x_msg := m\<rparr>) = Inr (i, c)"
      using rc m(2) by (auto simp: receive_def bind_res_eq_Inr)
    have "known K (x_table c)" "\<forall>d \<in> set (outbox (x_net c)). good_msg Os K (snd d)"
      using r i by (simp_all add: good_result_def)
    moreover have "loop_inv c" "node_origin (x_node c) \<in> Os"
      using keeps [OF rc] grows_origin c(1) by (auto simp: good_ctx_def)
    ultimately show ?thesis by (simp add: good_ctx_def)
  qed
  show "(f = Exit 1 \<and> too_short (e_alc e) (length (peers_at (x_table (pr_ctx p)) (unat h))) m) \<or>
      (f = OOB_write \<and> too_long (pr_ctx p) m)"
    if "receive (pr_key p) (pr_nbs p) (pr_ctx p) e = Inl f"
    using that r m(2) by (auto simp: receive_def bind_res_eq_Inl good_result_def)
qed

lemma timeout_good:
  assumes c: "good_ctx Os K c" and t: "x_wait c" "e_event e = Timeout"
    and s: "client_step key nbs bucket c e = Inr c'"
  shows "good_ctx Os K c'"
proof -
  obtain n where n: "join_peers (x_net c) (x_node c) key = Inr (0, n)" "c' = c\<lparr>x_net := n\<rparr>"
    using s t by (auto simp: client_step_def bind_res_eq_Inr split: option.splits if_splits)
  have o: "node_origin (x_node c) \<in> Os" "wf_ip (n_ip (x_node c))" "\<forall>d \<in> set (outbox (x_net c)). good_msg Os K (snd d)"
    using c by (simp_all add: good_ctx_def loop_inv_def)
  have "good_msg Os K (call_msg JOIN (fill [] 0) (node_origin (x_node c)))"
    using o(1) by (auto simp: good_msg_def good_call_def)
  then have "sent_only (\<lambda>d. good_msg Os K (snd d)) (x_net c) n"
    using join_peers_sends [OF o(2) n(1)] by (auto simp: sent_only_def list_all_iff)
  then have "\<forall>d \<in> set (outbox n). good_msg Os K (snd d)" by (rule sent_only_good [OF _ o(3)])
  then show ?thesis using c n(2) by (simp add: good_ctx_def loop_inv_def)
qed

lemma commit_good:
  assumes w: "good_world Os K w" and i: "i < length (procs w)" and c: "good_ctx Os K c" and rest: "set rest \<subseteq> set (flight w)"
  shows "good_world Os K (commit w i rest c)"
proof -
  have "good_proc Os K (procs w ! i)" using w i by (simp add: good_world_def)
  then have "good_proc Os K ((procs w ! i)\<lparr>pr_ctx := c\<lparr>x_net := (x_net c)\<lparr>outbox := []\<rparr>\<rparr>\<rparr>)"
    using good_ctx_sent [OF c] by (simp add: good_proc_def)
  moreover have "\<forall>d \<in> set (outbox (x_net c)). good_msg Os K (snd d)" using c by (simp add: good_ctx_def)
  ultimately show ?thesis
    using w rest i by (auto simp: good_world_def commit_def dest!: subsetD [OF set_update_subset_insert])
qed

lemma kill_good:
  assumes w: "good_world Os K w" and i: "i < length (procs w)" and rest: "set rest \<subseteq> set (flight w)"
  shows "good_world Os K (kill w i rest)"
proof -
  have "good_proc Os K (procs w ! i)" using w i by (simp add: good_world_def)
  then have "good_proc Os K ((procs w ! i)\<lparr>pr_alive := False\<rparr>)" by (simp add: good_proc_def)
  then show ?thesis
    using w rest by (auto simp: good_world_def kill_def dest!: subsetD [OF set_update_subset_insert])
qed

lemma net_step_good:
  assumes net: "good_net Os K" and w: "good_world Os K w" and s: "net_step w w'"
  shows "good_world Os K w'"
  using s
proof cases
  case (Deliver xs dst m ys i p e c)
  have "good_proc Os K p" "good_msg Os K m" using w Deliver(2,3,4) by (auto simp: good_world_def)
  moreover obtain h where "hash (pr_key p) = Inr h" using calculation by (auto simp: good_proc_def)
  ultimately have "good_ctx Os K c" using receive_good(1) [OF net _ _ Deliver(7,8) _ Deliver(9)] by blast
  then show ?thesis unfolding Deliver(1) using Deliver(2) by (intro commit_good [OF w Deliver(3)]) auto
next
  case (Crash xs dst m ys i p e f)
  then show ?thesis unfolding Crash(1) using Crash(2) by (intro kill_good [OF w Crash(3)]) auto
next
  case (Lose xs d ys)
  then show ?thesis using w by (auto simp: good_world_def)
next
  case (Duplicate d)
  then show ?thesis using w by (auto simp: good_world_def)
next
  case (Time_out i p e c)
  have "good_ctx Os K (pr_ctx p)" using w Time_out(2,3) by (auto simp: good_world_def good_proc_def)
  then have "good_ctx Os K c" using timeout_good Time_out(5,6,7) by blast
  then show ?thesis unfolding Time_out(1) by (intro commit_good [OF w Time_out(2)]) auto
next
  case (Give_up i p e f)
  then show ?thesis unfolding Give_up(1) by (intro kill_good [OF w Give_up(2)]) auto
qed

lemma reachable_good:
  assumes "good_net Os K" "good_world Os K w0" "reachable w0 w"
  shows "good_world Os K w"
  using assms(3) by induction (use assms(1,2) net_step_good in auto)

subsection \<open>Starting worlds\<close>

definition origins :: "world \<Rightarrow> origin set" where
  "origins w = (\<lambda>p. node_origin (x_node (pr_ctx p))) ` set (procs w)"

text \<open>The peers somebody starts with, and the nodes themselves as the peers they may become.\<close>

definition known_peers :: "world \<Rightarrow> peer_t set" where
  "known_peers w = (\<Union>p \<in> set (procs w). \<Union>i. set (peers_at (x_table (pr_ctx p)) i)) \<union> joiner ` origins w"

definition start_ok :: "world \<Rightarrow> bool" where
  "start_ok w \<longleftrightarrow>
     (\<forall>p \<in> set (procs w). loop_inv (pr_ctx p) \<and> outbox (x_net (pr_ctx p)) = [] \<and> length (pr_key p) = ID_SIZE \<and>
        (\<exists>h. hash (pr_key p) = Inr h) \<and> wf_nodes (pr_nbs p) \<and> list_all (\<lambda>nd. wf_ip (n_ip nd)) (elems (pr_nbs p))) \<and>
     (\<forall>d \<in> set (flight w). good_call (origins w) (snd d))"

lemma canon_node_origin [simp]: "canon (node_origin nd) = node_origin nd"
  by (simp add: canon_def node_origin_def)

lemma start_good:
  assumes "start_ok w"
  shows "good_net (origins w) (known_peers w)" "good_world (origins w) (known_peers w) w"
proof -
  show "good_net (origins w) (known_peers w)"
    using assms by (auto simp: good_net_def origins_def known_peers_def start_ok_def loop_inv_def node_origin_def)
  have "set (peers_at (x_table (pr_ctx p)) i) \<subseteq> known_peers w" if "p \<in> set (procs w)" for p i
    using that by (auto simp: known_peers_def)
  then show "good_world (origins w) (known_peers w) w"
    using assms by (auto simp: start_ok_def good_world_def good_proc_def good_ctx_def good_msg_def known_def origins_def)
qed

subsection \<open>A request that never comes back\<close>

text \<open>
  Two nodes, each the only neighbor of the other, both bootstrapped by the code and therefore without
  each other's address, and both with an empty bucket.
\<close>

definition lone :: "node_array \<Rightarrow> u16 \<Rightarrow> bool" where
  "lone nbs port \<longleftrightarrow> wf_nodes nbs \<and> elems nbs = [boot_node port]"

lemma bootstrap_lone:
  assumes "new_node_array mem alc = Some arr" "load_origin st p = Inr x" "wf_origin x"
    "bootstrap_neigbors alc st [p] 1 arr = Inr (st', nbs)"
  shows "lone nbs (o_port x)"
  using bootstrap_single [OF na.fresh_wf(1,2,3) [OF assms(1)] assms(2,3), of alc] assms(4) by (auto simp: lone_def)

definition pair_proc :: "node_array \<Rightarrow> rpc_ctx \<Rightarrow> proc" where
  "pair_proc nbs c =
     \<lparr>pr_ctx = c, pr_key = char_array 36 ''13'', pr_nbs = nbs, pr_bucket = Some 9, pr_alive = True\<rparr>"

definition resting :: "u16 \<Rightarrow> rpc_ctx \<Rightarrow> bool" where
  "resting port c \<longleftrightarrow> x_node c = (client_node port)\<lparr>n_peer_table := zero_table\<rparr> \<and> outbox (x_net c) = [] \<and>
     (\<forall>k. send_ok (x_net c) k)"

text \<open>The request on its way to port \<open>dst\<close>, last sent by the node at port \<open>via\<close> on behalf of \<open>src\<close>.\<close>

definition travelling :: "origin \<Rightarrow> u16 \<Rightarrow> u16 \<Rightarrow> datagram \<Rightarrow> bool" where
  "travelling src dst via d \<longleftrightarrow> fst d = \<lparr>sin_port = htons dst, sin_addr = 0\<rparr> \<and>
     (\<exists>stk. length stk = MAX_PAYLOAD_SIZE \<and>
        snd d = call_msg GET_PEERS (get_peers_payload stk (char_array 36 ''13'') src) (node_origin (client_node via)))"

lemma wf_client_origin [simp]: "wf_origin (node_origin (client_node port))"
  by (simp add: node_origin_def)

lemma boot_node_ip: "ip_addr (node_origin (boot_node p)) = \<lparr>sin_port = htons p, sin_addr = 0\<rparr>" "wf_ip (n_ip (boot_node p))"
  by (simp_all add: ip_addr_def node_origin_def boot_node_def zero_node_def wf_ip_def INET_ADDRSTRLEN_def)

text \<open>The guard against asking the caller back does not recognise it: the neighbor has no address.\<close>

lemma caller_asked: "first_asked (node_origin (client_node p)) [boot_node p] = Some (boot_node p)"
  by (simp add: first_asked_def is_origin_def node_origin_def boot_node_def zero_node_def client_node_def
      char_array_def lit_def)

lemma pass_on:
  assumes c: "resting port c" and d: "travelling src port nb d" and src: "wf_origin src" "canon src = src"
    and nbs: "lone nbs nb" and e: "e_event e = Datagram (snd d)" "length (e_stack e) = MAX_PAYLOAD_SIZE"
  shows "\<exists>c' d'. receive (char_array 36 ''13'') nbs c e = Inr c' \<and>
    resting port (c'\<lparr>x_net := (x_net c')\<lparr>outbox := []\<rparr>\<rparr>) \<and> outbox (x_net c') = [d'] \<and> travelling src nb port d'"
proof -
  let ?k = "char_array 36 ''13''" and ?host = "node_origin (client_node nb)"
  obtain stk where stk: "length stk = MAX_PAYLOAD_SIZE" "snd d = call_msg GET_PEERS (get_peers_payload stk ?k src) ?host"
    using d by (auto simp: travelling_def)
  let ?pl = "get_peers_payload stk ?k src" and ?m = "snd d"
  note rq = request_fields [OF src(1) length_13 stk(1)]
  have lp: "length ?pl = MAX_PAYLOAD_SIZE" by (rule length_get_peers_payload [OF src(1) length_13 stk(1)])
  have x: "x_node c = (client_node port)\<lparr>n_peer_table := zero_table\<rparr>" "outbox (x_net c) = []" "\<forall>k. send_ok (x_net c) k"
    using c by (simp_all add: resting_def)
  have wf: "wf_ctx (e_stack e) (c\<lparr>x_msg := ?m\<rparr>)"
    using x(1) e(2) stk(2) lp wf_peers_zero_table wf_client_origin [of nb]
    by (simp add: wf_ctx_def call_msg_def wf_origin_def)
  have wn: "wf_nodes nbs" "elems nbs = [boot_node nb]" using nbs by (simp_all add: lone_def)
  have ips: "list_all (\<lambda>nd. wf_ip (n_ip nd)) (elems nbs)" by (simp add: wn boot_node_ip)
  have z: "0 \<in> set (o_ip (request_src ?pl))" "hash (request_hash ?pl) = Inr 9"
    using src(1) hash_13 by (simp_all add: rq wf_origin_def)
  have no: "node_origin ((client_node port)\<lparr>n_peer_table := zero_table\<rparr>) = node_origin (client_node port)"
    by (simp add: node_origin_def)
  let ?d = "(\<lparr>sin_port = htons nb, sin_addr = 0\<rparr>,
      call_msg GET_PEERS (get_peers_payload (e_stack e) ?k src) (node_origin (client_node port)))"
  have f: "forward (e_stack e) (x_net c) (x_node c) (elems nbs) ?k src ?host = snd (sendto (x_net c) ?d)"
    unfolding forward_def wn(2) caller_asked by (simp add: attempt_def boot_node_ip x(1) no)
  let ?c' = "c\<lparr>x_msg := received_call GET_PEERS ?pl ?host, x_net := snd (sendto (x_net c) ?d), x_wait := True\<rparr>"
  have "recv_rpc (e_alc e) (e_stack e) ?k nbs (c\<lparr>x_msg := ?m\<rparr>) = Inr (0, ?c')"
    using recv_get_peers_request [OF wf _ lp wf_client_origin z(1,2) wn(1) ips length_13, of nb "e_alc e"] stk(2)
    by (simp add: x(1) bucket_zero_table peers_at_zero_table MAX_PEER_BUCKETS_def rq src(2) wn(2)
        f [unfolded wn(2) x(1)])
  then have "receive ?k nbs c e = Inr ?c'" using e(1) by (simp add: receive_def)
  then show ?thesis
    using x e(2) by (intro exI [of _ ?c'] exI [of _ ?d]) (auto simp: resting_def sendto_def travelling_def)
qed

definition bouncing :: "origin \<Rightarrow> u16 \<Rightarrow> node_array \<Rightarrow> u16 \<Rightarrow> node_array \<Rightarrow> bool \<Rightarrow> world \<Rightarrow> bool" where
  "bouncing src a na b nb to_b w \<longleftrightarrow> (\<exists>ca cb d. procs w = [pair_proc na ca, pair_proc nb cb] \<and> resting a ca \<and> resting b cb \<and>
     flight w = [d] \<and> (if to_b then travelling src b a d else travelling src a b d))"

lemma bounce:
  assumes w: "bouncing src a na b nb to_b w" and src: "wf_origin src" "canon src = src" and nbs: "lone na b" "lone nb a"
  shows "\<exists>w'. delivery w w' \<and> bouncing src a na b nb (\<not> to_b) w'"
proof -
  obtain ca cb d where p: "procs w = [pair_proc na ca, pair_proc nb cb]" "resting a ca" "resting b cb" "flight w = [d]"
    "if to_b then travelling src b a d else travelling src a b d"
    using w by (auto simp: bouncing_def)
  let ?e = "\<lparr>e_event = Datagram (snd d), e_alc = zero_alloc, e_stack = zero_stack\<rparr>"
  have e: "e_event ?e = Datagram (snd d)" "length (e_stack ?e) = MAX_PAYLOAD_SIZE" by simp_all
  have fl: "flight w = [] @ (fst d, snd d) # []" using p(4) by simp
  have np: "resting q c \<Longrightarrow> n_port (x_node c) = q" for q c by (simp add: resting_def)
  show ?thesis
  proof (cases to_b)
    case True
    then have t: "travelling src b a d" using p(5) by simp
    obtain c' d' where c': "receive (char_array 36 ''13'') nb cb ?e = Inr c'"
      "resting b (c'\<lparr>x_net := (x_net c')\<lparr>outbox := []\<rparr>\<rparr>)" "outbox (x_net c') = [d']" "travelling src a b d'"
      using pass_on [OF p(3) t src nbs(2) e] by blast
    have "delivery w (commit w 1 ([] @ []) c')"
      by (rule delivery.intros [OF fl, where p = "pair_proc nb cb" and e = ?e])
        (use p(1) c'(1) t np [OF p(3)] in \<open>auto simp: pair_proc_def bound_def travelling_def\<close>)
    moreover have "bouncing src a na b nb False (commit w 1 ([] @ []) c')"
      using p(1,2) c' by (auto simp: bouncing_def commit_def pair_proc_def)
    ultimately show ?thesis using True by auto
  next
    case False
    then have t: "travelling src a b d" using p(5) by simp
    obtain c' d' where c': "receive (char_array 36 ''13'') na ca ?e = Inr c'"
      "resting a (c'\<lparr>x_net := (x_net c')\<lparr>outbox := []\<rparr>\<rparr>)" "outbox (x_net c') = [d']" "travelling src b a d'"
      using pass_on [OF p(2) t src nbs(1) e] by blast
    have "delivery w (commit w 0 ([] @ []) c')"
      by (rule delivery.intros [OF fl, where p = "pair_proc na ca" and e = ?e])
        (use p(1) c'(1) t np [OF p(2)] in \<open>auto simp: pair_proc_def bound_def travelling_def\<close>)
    moreover have "bouncing src a na b nb True (commit w 0 ([] @ []) c')"
      using p(1,3) c' by (auto simp: bouncing_def commit_def pair_proc_def)
    ultimately show ?thesis using False by auto
  qed
qed

text \<open>A start: the node at port \<open>a\<close> has just asked the node at port \<open>b\<close>, as \<open>client_start\<close> does.\<close>

definition rest_ctx :: "u16 \<Rightarrow> rpc_ctx" where
  "rest_ctx port = \<lparr>x_node = (client_node port)\<lparr>n_peer_table := zero_table\<rparr>, x_msg = zero_msg, x_wait = True,
     x_net = online\<rparr>"

definition pair_world :: "u16 \<Rightarrow> node_array \<Rightarrow> u16 \<Rightarrow> node_array \<Rightarrow> world" where
  "pair_world a na b nb =
     \<lparr>procs = [pair_proc na (rest_ctx a), pair_proc nb (rest_ctx b)],
      flight = [(\<lparr>sin_port = htons b, sin_addr = 0\<rparr>,
                 peers_request zero_stack (char_array 36 ''13'') (node_origin (client_node a)))]\<rparr>"

lemma pair_world_bouncing: "bouncing (node_origin (client_node a)) a na b nb True (pair_world a na b nb)"
proof -
  have "resting q (rest_ctx q)" for q by (simp add: resting_def rest_ctx_def)
  moreover have "travelling (node_origin (client_node a)) b a (\<lparr>sin_port = htons b, sin_addr = 0\<rparr>,
      peers_request zero_stack (char_array 36 ''13'') (node_origin (client_node a)))"
    unfolding travelling_def peers_request_def by (intro conjI exI [of _ zero_stack]) simp_all
  ultimately show ?thesis
    unfolding bouncing_def pair_world_def by (intro exI [of _ "rest_ctx a"] exI [of _ "rest_ctx b"]) simp
qed

text \<open>The deliveries follow each other without end.\<close>

lemma bouncing_run:
  assumes "lone na b" "lone nb a"
  shows "\<exists>run. run 0 = pair_world a na b nb \<and>
    (\<forall>n. bouncing (node_origin (client_node a)) a na b nb (even n) (run n) \<and> delivery (run n) (run (Suc n)))"
proof -
  let ?b = "bouncing (node_origin (client_node a)) a na b nb"
  have "\<exists>run. \<forall>n. (?b (even n) (run n) \<and> (n = 0 \<longrightarrow> run n = pair_world a na b nb)) \<and> delivery (run n) (run (Suc n))"
  proof (rule dependent_nat_choice)
    show "\<exists>w. ?b (even 0) w \<and> ((0 :: nat) = 0 \<longrightarrow> w = pair_world a na b nb)" using pair_world_bouncing by simp
  next
    fix w and n :: nat
    assume "?b (even n) w \<and> (n = 0 \<longrightarrow> w = pair_world a na b nb)"
    then show "\<exists>w'. (?b (even (Suc n)) w' \<and> (Suc n = 0 \<longrightarrow> w' = pair_world a na b nb)) \<and> delivery w w'"
      using bounce [of "node_origin (client_node a)" a na b nb "even n" w] assms by auto
  qed
  then show ?thesis by blast
qed

text \<open>What is in flight and what the nodes hold at every point of the run.\<close>

definition one_request :: "origin \<Rightarrow> u16 \<Rightarrow> datagram list \<Rightarrow> bool" where
  "one_request from_node port ds \<longleftrightarrow> (\<exists>m. ds = [(\<lparr>sin_port = htons port, sin_addr = 0\<rparr>, m)] \<and>
     m_msg_type (decode_header m) = type_code CALL \<and> cbody_method (m_body (decode_header m)) = method_code GET_PEERS \<and>
     caller m = from_node)"

lemma travelling_request:
  assumes "travelling (node_origin (client_node a)) dst via d"
  shows "one_request (node_origin (client_node via)) dst [d]"
  using assms length_get_peers_payload [OF wf_client_origin length_13, of _ a]
  by (cases d) (auto simp: one_request_def travelling_def decode_call_msg received_call_def
      simp del: decode_header_simps type_code.simps method_code.simps)

lemma bouncing_view:
  assumes "bouncing (node_origin (client_node a)) a na b nb to_b w"
  shows "one_request (node_origin (client_node (if to_b then a else b))) (if to_b then b else a) (flight w)"
    "\<forall>p \<in> set (procs w). pr_alive p \<and> (\<forall>i < MAX_PEER_BUCKETS. peers_at (x_table (pr_ctx p)) i = [])"
  using assms travelling_request by (auto simp: bouncing_def pair_proc_def resting_def peers_at_zero_table)

subsection \<open>Properties\<close>

text \<open>A node at port 3000 with an empty table, and the \<open>JOIN\<close> of the node at port 4000 on its way to it.\<close>

definition node_proc :: "u16 \<Rightarrow> peer_table \<Rightarrow> proc" where
  "node_proc port t = \<lparr>pr_ctx = ctx_at port t zero_msg, pr_key = char_array 36 ''13'', pr_nbs = no_nodes,
     pr_bucket = Some 9, pr_alive = True\<rparr>"

lemma node_proc_simps [simp]:
  "pr_ctx (node_proc port t) = ctx_at port t zero_msg" "pr_key (node_proc port t) = char_array 36 ''13''"
  "pr_nbs (node_proc port t) = no_nodes" "pr_alive (node_proc port t)"
  by (simp_all add: node_proc_def)

lemma ctx_at_ctx [simp]:
  "(ctx_at port t m)\<lparr>x_msg := m'\<rparr> = ctx_at port t m'" "n_port (x_node (ctx_at port t m)) = port"
  by (simp_all add: ctx_at_def)

definition proc_origin :: "proc \<Rightarrow> origin" where
  "proc_origin p = node_origin (x_node (pr_ctx p))"

lemma node_proc_origin: "wf_origin (proc_origin (node_proc port t))" "canon (proc_origin (node_proc port t)) = proc_origin (node_proc port t)"
  using wf_local(2) [of port] by (simp_all add: proc_origin_def node_proc_def ctx_at_def node_origin_def canon_def)

definition join_world :: "peer_table \<Rightarrow> world" where
  "join_world t = \<lparr>procs = [node_proc 3000 t, node_proc 4000 zero_table],
     flight = [(\<lparr>sin_port = htons 3000, sin_addr = 0\<rparr>, call_msg JOIN (fill [] 0) (proc_origin (node_proc 4000 zero_table)))]\<rparr>"

lemma start_join_world: "wf_peers t \<Longrightarrow> start_ok (join_world t)"
  using hash_13 wf_no_nodes loop_inv_ctx_at wf_peers_zero_table
  by (auto simp: start_ok_def join_world_def good_call_def origins_def proc_origin_def)

lemma join_received:
  fixes alc :: "peer_t allocator" and t :: peer_table
  assumes "wf_peers t"
  defines "e \<equiv> \<lparr>e_event = Datagram (call_msg JOIN (fill [] 0) (proc_origin (node_proc 4000 zero_table))),
    e_alc = alc, e_stack = zero_stack\<rparr>"
  shows "bucket_stuck alc t 9 \<Longrightarrow> receive (char_array 36 ''13'') no_nodes (ctx_at 3000 t zero_msg) e = Inl (Exit 1)"
    and "\<not> bucket_stuck alc t 9 \<Longrightarrow> \<exists>c. receive (char_array 36 ''13'') no_nodes (ctx_at 3000 t zero_msg) e = Inr c \<and>
      peers_at (x_table c) 9 = peers_at t 9 @ [joiner (proc_origin (node_proc 4000 zero_table))]"
proof -
  let ?h = "proc_origin (node_proc 4000 zero_table)" and ?k = "char_array 36 ''13''"
  let ?c = "ctx_at 3000 t (call_msg JOIN (fill [] 0) ?h)"
  note o = node_proc_origin [of 4000 zero_table]
  have wt: "wf_table t" using assms(1) by (simp add: wf_peers_def)
  have "recv_rpc alc zero_stack ?k no_nodes ?c =
      recv_join_call alc ?k ?h (?c\<lparr>x_msg := received_call JOIN (fill [] 0) ?h\<rparr>)"
    using recv_rpc_call [of ?c JOIN "fill [] 0" ?h alc zero_stack ?k no_nodes] o by simp
  then have r: "recv_rpc alc zero_stack ?k no_nodes ?c = bind_res (set_peer alc t ?k (joiner ?h)) (\<lambda>t. Inr (0,
      set_table (?c\<lparr>x_msg := received_call JOIN (fill [] 0) ?h, x_net := snd (attempt online (ip_addr ?h) (reply_msg JOIN (fill [] 0) call_id OK))\<rparr>) t))"
    using recv_join_call_eq [of ?h "?c\<lparr>x_msg := received_call JOIN (fill [] 0) ?h\<rparr>" call_id alc ?k] o
    by (simp add: attempt_def)
  note stuck = set_peer_stops_iff [OF wt hash_13, of alc "joiner ?h"]
  show "bucket_stuck alc t 9 \<Longrightarrow> receive ?k no_nodes (ctx_at 3000 t zero_msg) e = Inl (Exit 1)"
    using r stuck [of "Exit 1"] by (simp add: receive_def e_def)
  assume "\<not> bucket_stuck alc t 9"
  then obtain t' where t': "set_peer alc t ?k (joiner ?h) = Inr t'" using stuck by (cases "set_peer alc t ?k (joiner ?h)") auto
  then show "\<exists>c. receive ?k no_nodes (ctx_at 3000 t zero_msg) e = Inr c \<and> peers_at (x_table c) 9 = peers_at t 9 @ [joiner ?h]"
    using set_peer_ok [OF wt hash_13 t'] r by (simp add: receive_def e_def)
qed

text \<open>
  C15. No peer is invented. The network starts with well-formed tables, terminated addresses of the nodes, their
  peers and their neighbors, terminated info hashes of 36 bytes, nothing left in an outbox, and only calls in
  flight that its own nodes make. Then, whatever it delivers, loses, duplicates or lets time out, and whatever allocators and stale
  stack bytes answer, every peer stored in any bucket of any node is one that some node started with, or one
  of the nodes itself under the address and port it announces.
\<close>

theorem no_peer_invented:
  assumes "start_ok w0" and "reachable w0 w" and "p \<in> set (procs w)" and "x \<in> set (peers_at (x_table (pr_ctx p)) i)"
  shows "x \<in> known_peers w0"
  using reachable_good [OF start_good [OF assms(1)] assms(2)] assms(3,4)
  by (auto simp: good_world_def good_proc_def good_ctx_def known_def)

theorem no_peer_invented_witness:
  "\<exists>w p x. reachable (join_world zero_table) w \<and> p \<in> set (procs w) \<and> n_port (x_node (pr_ctx p)) = 3000 \<and>
     x \<in> set (peers_at (x_table (pr_ctx p)) 9) \<and> p_port x = 4000 \<and> x \<in> known_peers (join_world zero_table)"
proof -
  let ?w = "join_world zero_table" and ?h = "proc_origin (node_proc 4000 zero_table)"
  let ?e = "\<lparr>e_event = Datagram (call_msg JOIN (fill [] 0) ?h), e_alc = zero_alloc, e_stack = zero_stack\<rparr>"
  have "\<not> bucket_stuck zero_alloc zero_table 9"
    using set_peer_stops_iff [OF wf_zero_table hash_13, of zero_alloc zero_peer "Exit 1"]
      set_peer_zero_table [OF hash_13, of zero_peer] by auto
  then obtain c where c: "receive (char_array 36 ''13'') no_nodes (ctx_at 3000 zero_table zero_msg) ?e = Inr c"
    "peers_at (x_table c) 9 = [joiner ?h]"
    using join_received(2) [OF wf_peers_zero_table] by (auto simp: peers_at_zero_table MAX_PEER_BUCKETS_def)
  let ?w' = "commit ?w 0 ([] @ []) c"
  have "net_step ?w ?w'"
    by (rule net_step.Deliver [where p = "node_proc 3000 zero_table" and e = ?e and dst = "\<lparr>sin_port = htons 3000, sin_addr = 0\<rparr>"
          and m = "call_msg JOIN (fill [] 0) ?h"]) (use c(1) in \<open>simp_all add: join_world_def bound_def\<close>)
  then have r: "reachable ?w ?w'" using reachable.intros by blast
  let ?p = "(node_proc 3000 zero_table)\<lparr>pr_ctx := c\<lparr>x_net := (x_net c)\<lparr>outbox := []\<rparr>\<rparr>\<rparr>"
  have p: "?p \<in> set (procs ?w')" by (simp add: commit_def join_world_def)
  have x: "joiner ?h \<in> set (peers_at (x_table (pr_ctx ?p)) 9)" using c(2) by simp
  have "wf_env ?e" using node_proc_origin(1) [of 4000 zero_table] by (simp add: wf_env_def call_msg_def wf_origin_def)
  then have "grows 9 (ctx_at 3000 zero_table zero_msg) c"
    using receive_keeps [OF loop_inv_ctx_at [OF wf_peers_zero_table] _ hash_13 c(1)] by simp
  then have "n_port (x_node c) = 3000"
    using grows_origin [of 9 "ctx_at 3000 zero_table zero_msg" c] by (simp add: node_origin_def ctx_at_def)
  moreover have "p_port (joiner ?h) = 4000" by (simp add: joiner_def proc_origin_def node_proc_def ctx_at_def node_origin_def)
  ultimately show ?thesis
    using no_peer_invented [OF start_join_world [OF wf_peers_zero_table] r p x] r p x
    by (intro exI [of _ ?w'] exI [of _ ?p] exI [of _ "joiner ?h"] conjI) simp_all
qed

text \<open>
  C16. Why a node can die. In a network with the starting conditions of \<open>start_ok\<close> (well-formed tables,
  terminated addresses, terminated info hashes of 36 bytes, empty outboxes, only calls of its own nodes in
  flight), let a node receive any message in flight and not return. Then it ended the process with status 1, and the message was a \<open>JOIN\<close> or
  a reply with at most ten peers, and to store what it brings in the bucket of the node's own hash the
  allocator was asked for a block of twice the peers held by then, which it refused or which exceeds
  \<open>PTRDIFF_MAX\<close>; or it wrote outside a buffer, since the message is a request for a bucket of 26 or more
  peers, or carries more than ten. It never reads outside an object and never meets a null pointer.
\<close>

theorem crash_causes:
  assumes "start_ok w0" and "reachable w0 w" and "p \<in> set (procs w)" and "(dst, m) \<in> set (flight w)"
    and "length stack = MAX_PAYLOAD_SIZE" and "hash (pr_key p) = Inr h"
    and "receive (pr_key p) (pr_nbs p) (pr_ctx p) \<lparr>e_event = Datagram m, e_alc = alc, e_stack = stack\<rparr> = Inl f"
  shows "let n = length (peers_at (x_table (pr_ctx p)) (unat h)) in
    f = Exit 1 \<and>
      ((\<exists>host. m = call_msg JOIN (fill [] 0) host \<and> refuses sizeof_peer alc n) \<or>
       (\<exists>cid ps. m = bucket_reply cid ps \<and> length ps \<le> MAX_PEER_BUCKETS \<and>
          (\<exists>j < length ps. refuses sizeof_peer alc (n + j)))) \<or>
    f = OOB_write \<and>
      ((\<exists>host stk src info h. m = call_msg GET_PEERS (get_peers_payload stk info src) host \<and> hash info = Inr h \<and>
          26 \<le> length (peers_at (x_table (pr_ctx p)) (unat h))) \<or>
       (\<exists>cid ps. m = bucket_reply cid ps \<and> MAX_PEER_BUCKETS < length ps))"
proof -
  note g = start_good [OF assms(1)]
  have "good_proc (origins w0) (known_peers w0) p" "good_msg (origins w0) (known_peers w0) m"
    using reachable_good [OF g assms(2)] assms(3,4) by (auto simp: good_world_def)
  from receive_good(2) [OF g(1) this _ _ assms(6,7)] assms(5) show ?thesis
    unfolding Let_def too_long_def too_short_def cannot_grow_def by simp blast
qed

text \<open>A node with a bucket of 26 peers, asked for them.\<close>

definition full_proc :: proc where
  "full_proc = node_proc 3000 (table_13 (replicate 26 zero_peer))"

definition full_world :: world where
  "full_world = \<lparr>procs = [full_proc],
     flight = [(\<lparr>sin_port = htons 3000, sin_addr = 0\<rparr>, peers_request zero_stack (char_array 36 ''13'') (proc_origin full_proc))]\<rparr>"

lemma full_table: "wf_peers (table_13 (replicate 26 zero_peer))" "peers_at (table_13 (replicate 26 zero_peer)) 9 = replicate 26 zero_peer"
  using table_13 [of "replicate 26 zero_peer"] wf_zero_peer [of "p_port zero_peer"] by (simp_all add: list_all_iff)

lemma start_full_world: "start_ok full_world"
proof -
  have "good_call (origins full_world) (peers_request zero_stack (char_array 36 ''13'') (proc_origin full_proc))"
    unfolding good_call_def peers_request_def origins_def full_world_def proc_origin_def
    using ctx_at_simps(5) length_13 hash_13 by fastforce
  moreover have "loop_inv (pr_ctx full_proc)"
    using loop_inv_ctx_at [OF full_table(1)] by (simp add: full_proc_def)
  ultimately show ?thesis
    using hash_13 wf_no_nodes by (auto simp: start_ok_def full_world_def full_proc_def)
qed

lemma full_proc_faults:
  "receive (pr_key full_proc) (pr_nbs full_proc) (pr_ctx full_proc)
     \<lparr>e_event = Datagram (peers_request zero_stack (char_array 36 ''13'') (proc_origin full_proc)), e_alc = zero_alloc, e_stack = zero_stack\<rparr>
   = Inl OOB_write"
proof -
  let ?m = "peers_request zero_stack (char_array 36 ''13'') (proc_origin full_proc)"
  have o: "wf_origin (proc_origin full_proc)" unfolding full_proc_def by (rule node_proc_origin)
  have "recv_rpc zero_alloc zero_stack (char_array 36 ''13'') no_nodes (ctx_at 3000 (table_13 (replicate 26 zero_peer)) ?m) =
      Inl OOB_write"
    using bucket_answer [OF wf_peers_request [OF full_table(1) o length_13] ctx_at_simps(2) o
        length_13 ctx_at_simps(5) hash_13 _ _ wf_no_nodes(1) _ length_13, of 3000 "replicate 26 zero_peer" zero_alloc]
      full_table(2) wf_no_nodes(2) by simp
  then show ?thesis by (simp add: receive_def full_proc_def)
qed

theorem crash_causes_witness:
  "(\<exists>p m. p \<in> set (procs full_world) \<and>
      receive (pr_key p) (pr_nbs p) (pr_ctx p) \<lparr>e_event = Datagram m, e_alc = zero_alloc, e_stack = zero_stack\<rparr> = Inl OOB_write \<and>
      (\<exists>host stk src info h. m = call_msg GET_PEERS (get_peers_payload stk info src) host \<and> hash info = Inr h \<and>
         26 \<le> length (peers_at (x_table (pr_ctx p)) (unat h)))) \<and>
   (\<exists>p m. p \<in> set (procs (join_world two_peers)) \<and>
      receive (pr_key p) (pr_nbs p) (pr_ctx p) \<lparr>e_event = Datagram m, e_alc = \<lambda>_. None, e_stack = zero_stack\<rparr> = Inl (Exit 1) \<and>
      (\<exists>host. m = call_msg JOIN (fill [] 0) host) \<and>
      refuses sizeof_peer (\<lambda>_. None :: (nat \<Rightarrow> peer_t) option) (length (peers_at (x_table (pr_ctx p)) 9)))"
    (is "?full \<and> ?stuck")
proof
  let ?m = "peers_request zero_stack (char_array 36 ''13'') (proc_origin full_proc)"
  have p: "full_proc \<in> set (procs full_world)" "(\<lparr>sin_port = htons 3000, sin_addr = 0\<rparr>, ?m) \<in> set (flight full_world)"
    by (simp_all add: full_world_def)
  have h: "hash (pr_key full_proc) = Inr 9" using hash_13 by (simp add: full_proc_def)
  have "?m \<noteq> bucket_reply cid ps" for cid ps
    by (simp add: peers_request_def call_msg_def bucket_reply_def reply_msg_def htons_enum_def htons_def)
  then show ?full
    using crash_causes [OF start_full_world reachable.Start p ctx_at_simps(5) h full_proc_faults] p(1) full_proc_faults
    unfolding Let_def by blast
next
  let ?p = "node_proc 3000 two_peers" and ?m = "call_msg JOIN (fill [] 0) (proc_origin (node_proc 4000 zero_table))"
  have p: "?p \<in> set (procs (join_world two_peers))"
    "(\<lparr>sin_port = htons 3000, sin_addr = 0\<rparr>, ?m) \<in> set (flight (join_world two_peers))"
    by (simp_all add: join_world_def)
  have h: "hash (pr_key ?p) = Inr 9" using hash_13 by simp
  have r: "receive (pr_key ?p) (pr_nbs ?p) (pr_ctx ?p) \<lparr>e_event = Datagram ?m, e_alc = \<lambda>_. None, e_stack = zero_stack\<rparr> = Inl (Exit 1)"
    using join_received(1) [OF two_peers] by simp
  have "?m \<noteq> bucket_reply cid ps" for cid ps
    by (simp add: call_msg_def bucket_reply_def reply_msg_def htons_enum_def htons_def)
  then have "refuses sizeof_peer (\<lambda>_. None :: (nat \<Rightarrow> peer_t) option) (length (peers_at (x_table (pr_ctx ?p)) 9))"
    using crash_causes [OF start_join_world [OF two_peers(1)] reachable.Start p ctx_at_simps(5) h r] unfolding Let_def by simp
  then show ?stuck using p(1) r by blast
qed

text \<open>
  C17. The endless loop that the comment on \<open>get_peers\<close> says \<open>reply_to\<close> prevents: two nodes whose
  neighbors come from \<open>bootstrap_neigbors\<close>, each with the other's origin as its only one, and that hold
  no peers, pass one \<open>GET_PEERS\<close> request back and forth for ever. There is an infinite run of
  deliveries, without loss or duplication, in which at every point exactly one datagram is in flight, a
  request to the one node from the other, alternately; so nobody ever sends a reply, and nobody stores a
  peer or stops.
\<close>

theorem request_bounces_forever:
  assumes "new_node_array mem_a alc_a = Some arr_a" and "load_origin st_a q_a = Inr (\<lparr>o_port = b, o_ip = ip_b\<rparr>)"
    and "wf_origin (\<lparr>o_port = b, o_ip = ip_b\<rparr>)" and "bootstrap_neigbors alc_a st_a [q_a] 1 arr_a = Inr (st_a', na)"
    and "new_node_array mem_b alc_b = Some arr_b" and "load_origin st_b q_b = Inr (\<lparr>o_port = a, o_ip = ip_a\<rparr>)"
    and "wf_origin (\<lparr>o_port = a, o_ip = ip_a\<rparr>)" and "bootstrap_neigbors alc_b st_b [q_b] 1 arr_b = Inr (st_b', nb)"
  shows "\<exists>run. run 0 = pair_world a na b nb \<and> (\<forall>n.
     delivery (run n) (run (Suc n)) \<and>
     (\<exists>m. flight (run n) = [(\<lparr>sin_port = htons (if even n then b else a), sin_addr = 0\<rparr>, m)] \<and>
        m_msg_type (decode_header m) = type_code CALL \<and> cbody_method (m_body (decode_header m)) = method_code GET_PEERS \<and>
        caller m = node_origin (client_node (if even n then a else b))) \<and>
     (\<forall>p \<in> set (procs (run n)). pr_alive p \<and> (\<forall>i < MAX_PEER_BUCKETS. peers_at (x_table (pr_ctx p)) i = [])))"
proof -
  have "lone na b" "lone nb a"
    using bootstrap_lone [OF assms(1-4)] bootstrap_lone [OF assms(5-8)] by simp_all
  from bouncing_run [OF this] show ?thesis
    unfolding one_request_def [symmetric] using bouncing_view by meson
qed

lemma wf_loopback: "wf_origin \<lparr>o_port = q, o_ip = char_array 16 ''127.0.0.1''\<rparr>"
  by (simp add: wf_origin_def INET_ADDRSTRLEN_def length_char_array eval)

lemma sample_bootstrap:
  "\<exists>arr st' nbs. new_node_array (Some no_nodes) zero_node_alloc = Some arr \<and>
     bootstrap_neigbors zero_node_alloc [[\<lparr>o_port = q, o_ip = char_array 16 ''127.0.0.1''\<rparr>]] [(0, 0)] 1 arr = Inr (st', nbs)"
proof -
  obtain arr where arr: "new_node_array (Some no_nodes) zero_node_alloc = Some arr"
    using new_node_array_succeeds [of zero_node_alloc] by (auto simp: zero_node_alloc_def)
  show ?thesis
    using arr wf_loopback bootstrap_single [OF na.fresh_wf(1,2,3) [OF arr], of "[[\<lparr>o_port = q, o_ip = char_array 16 ''127.0.0.1''\<rparr>]]" "(0, 0)"
        "\<lparr>o_port = q, o_ip = char_array 16 ''127.0.0.1''\<rparr>" zero_node_alloc] by (fastforce simp: load_origin_def)
qed

theorem request_bounces_forever_witness:
  "\<exists>run na nb. run 0 = pair_world 3000 na 4000 nb \<and> (\<forall>n. delivery (run n) (run (Suc n)) \<and>
     (\<exists>m. flight (run n) = [(\<lparr>sin_port = htons (if even n then 4000 else 3000), sin_addr = 0\<rparr>, m)]))"
proof -
  let ?st = "\<lambda>q. [[\<lparr>o_port = q, o_ip = char_array 16 ''127.0.0.1''\<rparr>]]"
  obtain arr_a sa na where a: "new_node_array (Some no_nodes) zero_node_alloc = Some arr_a"
    "bootstrap_neigbors zero_node_alloc (?st 4000) [(0, 0)] 1 arr_a = Inr (sa, na)"
    using sample_bootstrap by blast
  obtain arr_b sb nb where b: "new_node_array (Some no_nodes) zero_node_alloc = Some arr_b"
    "bootstrap_neigbors zero_node_alloc (?st 3000) [(0, 0)] 1 arr_b = Inr (sb, nb)"
    using sample_bootstrap by blast
  have l: "load_origin (?st q) (0, 0) = Inr \<lparr>o_port = q, o_ip = char_array 16 ''127.0.0.1''\<rparr>" for q :: u16
    by (simp add: load_origin_def)
  show ?thesis using request_bounces_forever [OF a(1) l wf_loopback a(2) b(1) l wf_loopback b(2)] by blast
qed

end
