(* ===== verification/Json_Text.thy ===== *)
theory Json_Text
  imports C_Lib
begin

text \<open>
  The byte-level routines of the bundled JSON library (\<open>lib/cjson/cJSON.c\<close>): the hexadecimal digits and
  the UTF-16 escapes of a string literal, the two passes of \<open>parse_string\<close> over its characters, and the
  comparison of keys. A pointer into the input is the index of the byte it points to; every read is
  checked against the bytes that really are there, and every write against the block that was
  allocated for it.
\<close>

subsection \<open>Memory accesses\<close>

definition byte_at :: "u8 list \<Rightarrow> nat \<Rightarrow> u8 outcome" where
  "byte_at m i = (if i < length m then Inr (m ! i) else Inl OOB_read)"

text \<open>
  Writing \<open>bs\<close> behind the bytes \<open>out\<close> that already are in a block of \<open>cap\<close> bytes.
\<close>

definition put_bytes :: "nat \<Rightarrow> u8 list \<Rightarrow> u8 list \<Rightarrow> u8 list outcome" where
  "put_bytes cap out bs = (if length out + length bs \<le> cap then Inr (out @ bs) else Inl OOB_write)"

fun strncmp :: "u8 list \<Rightarrow> u8 list \<Rightarrow> nat \<Rightarrow> int outcome" where
  "strncmp as bs 0 = Inr 0"
| "strncmp (a # as) (b # bs) (Suc n) =
     (if a \<noteq> b then Inr (if a < b then -1 else 1)
      else if a = 0 then Inr 0
      else strncmp as bs n)"
| "strncmp _ _ (Suc n) = Inl OOB_read"

lemma byte_at_Inr [simp]: "byte_at m i = Inr c \<longleftrightarrow> i < length m \<and> c = m ! i"
  by (auto simp: byte_at_def)

lemma byte_at_less: "i < length m \<Longrightarrow> byte_at m i = Inr (m ! i)"
  by simp

lemma put_bytes_Inr [simp]:
  "put_bytes cap out bs = Inr r \<longleftrightarrow> length out + length bs \<le> cap \<and> r = out @ bs"
  by (auto simp: put_bytes_def)

text \<open>With both arguments long enough, the comparison with a literal is equality of the bytes.\<close>

lemma strncmp_literal:
  "length bs \<le> length as \<Longrightarrow> 0 \<notin> set bs \<Longrightarrow>
     \<exists>i. strncmp as bs (length bs) = Inr i \<and> (i = 0 \<longleftrightarrow> take (length bs) as = bs)"
proof (induction bs arbitrary: as)
  case (Cons b bs)
  then obtain a as' where "as = a # as'" by (cases as) auto
  then show ?case using Cons.IH [of as'] Cons.prems by auto
qed simp

subsection \<open>Hexadecimal digits\<close>

definition hex_digit :: "u8 \<Rightarrow> u32 option" where
  "hex_digit c =
     (if 0x30 \<le> c \<and> c \<le> 0x39 then Some (ucast c - 0x30)
      else if 0x41 \<le> c \<and> c \<le> 0x46 then Some (10 + ucast c - 0x41)
      else if 0x61 \<le> c \<and> c \<le> 0x66 then Some (10 + ucast c - 0x61)
      else None)"

fun hex4_loop :: "nat \<Rightarrow> u8 list \<Rightarrow> nat \<Rightarrow> nat \<Rightarrow> u32 \<Rightarrow> u32 outcome" where
  "hex4_loop 0 m p i h = Inr h"
| "hex4_loop (Suc n) m p i h =
     bind_res (byte_at m (p + i)) (\<lambda>c.
       case hex_digit c of
         None \<Rightarrow> Inr 0
       | Some d \<Rightarrow>
           (let h = h + d;
                h = (if i < 3 then push_bit 4 h else h)
            in hex4_loop n m p (Suc i) h))"

definition parse_hex4 :: "u8 list \<Rightarrow> nat \<Rightarrow> u32 outcome" where
  "parse_hex4 m p = hex4_loop 4 m p 0 0"

text \<open>What four digits mean.\<close>

definition hex_value :: "u8 list \<Rightarrow> nat option" where
  "hex_value cs =
     (case those (map hex_digit cs) of
        None \<Rightarrow> None
      | Some ds \<Rightarrow> Some (foldl (\<lambda>acc d. 16 * acc + unat d) 0 ds))"

lemma unat_byte: "unat (c :: u8) < 256"
  using unsigned_less [of c] by simp

lemma unat_ucast_byte [simp]:
  "unat (ucast (c :: u8) :: u32) = unat c" "unat (ucast (c :: u8) :: u64) = unat c"
  using unat_byte [of c] by (simp_all add: unsigned_ucast_eq take_bit_nat_eq_self)

lemma unat_hex_digit:
  "map_option unat (hex_digit c) =
     (let n = unat c in
      if 48 \<le> n \<and> n \<le> 57 then Some (n - 48)
      else if 65 \<le> n \<and> n \<le> 70 then Some (n - 55)
      else if 97 \<le> n \<and> n \<le> 102 then Some (n - 87)
      else None)"
  using unat_byte [of c]
  by (simp add: hex_digit_def Let_def word_le_nat_alt unat_sub_if' unat_word_ariths)

lemma hex_digit_bound:
  assumes "hex_digit c = Some d"
  shows "unat d < 16"
  using unat_hex_digit [of c] assms by (auto simp: Let_def split: if_splits)

text \<open>The loop on four digits: the value of the number, or 0 where one of them is no digit.\<close>

lemma parse_hex4_value:
  assumes "p + 4 \<le> length m"
  shows "\<exists>h. parse_hex4 m p = Inr h \<and>
           unat h = (case hex_value (take 4 (drop p m)) of None \<Rightarrow> 0 | Some v \<Rightarrow> v) \<and> unat h < 65536"
proof -
  define a b c d where "a = m ! p" "b = m ! Suc p" "c = m ! (p + 2)" "d = m ! (p + 3)"
  note abcd = this
  have cs: "take 4 (drop p m) = [a, b, c, d]"
    using assms by (simp add: abcd take_Suc_conv_app_nth numeral_eq_Suc)
  have "parse_hex4 m p =
     (case hex_digit a of None \<Rightarrow> Inr 0 | Some w \<Rightarrow>
      (case hex_digit b of None \<Rightarrow> Inr 0 | Some x \<Rightarrow>
       (case hex_digit c of None \<Rightarrow> Inr 0 | Some y \<Rightarrow>
        (case hex_digit d of None \<Rightarrow> Inr 0 | Some z \<Rightarrow>
           Inr (push_bit 4 (push_bit 4 (push_bit 4 w + x) + y) + z)))))"
    using assms by (simp add: parse_hex4_def numeral_eq_Suc abcd byte_at_less Let_def cong: option.case_cong)
  then show ?thesis
    unfolding cs hex_value_def
    by (auto split: option.splits dest!: hex_digit_bound
        simp: push_bit_eq_mult unat_word_ariths)
qed

subsection \<open>UTF-16 escapes to UTF-8\<close>

text \<open>
  The bytes behind the first one are written from the last to the first, six bits of the code point
  each; \<open>utf8_tail k\<close> is what the positions 1 to \<open>k\<close> hold at the end, with the bits that are left.
\<close>

fun utf8_tail :: "nat \<Rightarrow> u64 \<Rightarrow> u64 \<times> u8 list" where
  "utf8_tail 0 codepoint = (codepoint, [])"
| "utf8_tail (Suc k) codepoint =
     (let byte = ucast ((codepoint OR 0x80) AND 0xBF);
          (rest, bs) = utf8_tail k (drop_bit 6 codepoint)
      in (rest, bs @ [byte]))"

definition utf8_encode :: "nat \<Rightarrow> u64 \<Rightarrow> u64 \<Rightarrow> u8 list" where
  "utf8_encode utf8_length first_byte_mark codepoint =
     (let (rest, bs) = utf8_tail (utf8_length - 1) codepoint
      in (if 1 < utf8_length then ucast ((rest OR first_byte_mark) AND 0xFF) else ucast (rest AND 0x7F)) # bs)"

text \<open>The length of the sequence in the input, 0 for a failure, and the bytes written.\<close>

definition utf16_literal_to_utf8 :: "u8 list \<Rightarrow> nat \<Rightarrow> nat \<Rightarrow> (nat \<times> u8 list) outcome" where
  "utf16_literal_to_utf8 m input_pointer input_end =
     (let encode = (\<lambda>sequence_length codepoint.
            if codepoint < 0x80 then Inr (sequence_length, utf8_encode 1 0 codepoint)
            else if codepoint < 0x800 then Inr (sequence_length, utf8_encode 2 0xC0 codepoint)
            else if codepoint < 0x10000 then Inr (sequence_length, utf8_encode 3 0xE0 codepoint)
            else if codepoint \<le> 0x10FFFF then Inr (sequence_length, utf8_encode 4 0xF0 codepoint)
            else Inr (0, [])) in
      if input_end - input_pointer < 6 then Inr (0, [])
      else
        bind_res (parse_hex4 m (input_pointer + 2)) (\<lambda>first_code.
        if 0xDC00 \<le> first_code \<and> first_code \<le> 0xDFFF then Inr (0, [])
        else if 0xD800 \<le> first_code \<and> first_code \<le> 0xDBFF then
          (let second_sequence = input_pointer + 6 in
           if input_end - second_sequence < 6 then Inr (0, [])
           else
             bind_res (byte_at m second_sequence) (\<lambda>c0.
             bind_res (byte_at m (Suc second_sequence)) (\<lambda>c1.
             if c0 \<noteq> 0x5C \<or> c1 \<noteq> 0x75 then Inr (0, [])
             else
               bind_res (parse_hex4 m (second_sequence + 2)) (\<lambda>second_code.
               if second_code < 0xDC00 \<or> 0xDFFF < second_code then Inr (0, [])
               else
                 encode 12 (0x10000 + ucast (push_bit 10 (first_code AND 0x3FF) OR (second_code AND 0x3FF)))))))
        else encode 6 (ucast first_code)))"

text \<open>The encoding as the standard has it, by division.\<close>

definition utf8_spec :: "nat \<Rightarrow> u8 list" where
  "utf8_spec n =
     (if n < 0x80 then [of_nat n]
      else if n < 0x800 then [of_nat (0xC0 + n div 64), of_nat (0x80 + n mod 64)]
      else if n < 0x10000 then
        [of_nat (0xE0 + n div 4096), of_nat (0x80 + n div 64 mod 64), of_nat (0x80 + n mod 64)]
      else [of_nat (0xF0 + n div 262144), of_nat (0x80 + n div 4096 mod 64),
            of_nat (0x80 + n div 64 mod 64), of_nat (0x80 + n mod 64)])"

lemma byte_bits_eqI:
  fixes a b :: u8
  assumes "bit a 0 = bit b 0" "bit a 1 = bit b 1" "bit a 2 = bit b 2" "bit a 3 = bit b 3"
    "bit a 4 = bit b 4" "bit a 5 = bit b 5" "bit a 6 = bit b 6" "bit a 7 = bit b 7"
  shows "a = b"
proof (rule bit_word_eqI)
  fix n assume "n < LENGTH(8)"
  then consider "n = 0" | "n = 1" | "n = 2" | "n = 3" | "n = 4" | "n = 5" | "n = 6" | "n = 7"
    by fastforce
  then show "bit a n = bit b n" using assms by cases simp_all
qed

lemma plus_disjoint: "a AND b = 0 \<Longrightarrow> a + b = a OR b" for a b :: "'a::len word"
  using word_plus_and_or [of a b] by simp

lemma of_nat_low_bits: "of_nat (unat cp mod 2 ^ k) = (ucast (take_bit k cp) :: u8)" for cp :: u64
proof -
  have "unat cp mod 2 ^ k = unat (take_bit k cp)"
    by (simp only: unsigned_take_bit_eq take_bit_eq_mod [of k "unat cp"])
  then show ?thesis by (simp only: of_nat_unat)
qed

lemma tail_byte:
  "ucast ((cp OR 0x80) AND 0xBF) = (of_nat (0x80 + unat cp mod 64) :: u8)" for cp :: u64
proof -
  have "(of_nat (0x80 + unat cp mod 64) :: u8) = 0x80 + ucast (take_bit 6 cp)"
    using of_nat_low_bits [of cp 6] by simp
  also have "\<dots> = 0x80 OR ucast (take_bit 6 cp)"
    by (rule plus_disjoint, rule byte_bits_eqI) (simp_all add: bit_simps)
  also have "\<dots> = ucast ((cp OR 0x80) AND 0xBF)"
    by (rule byte_bits_eqI) (simp_all add: bit_simps)
  finally show ?thesis ..
qed

lemma high_bit_clear:
  fixes w :: "'a::len word"
  assumes "unat w < 2 ^ k" "k \<le> i"
  shows "\<not> bit w i"
proof -
  have "unat w < 2 ^ i" using assms by (meson order_less_le_trans power_increasing one_le_numeral)
  then have "\<not> bit (unat w) i" by (simp add: bit_iff_odd)
  then show ?thesis by (simp add: bit_unsigned_iff)
qed

lemma mark_byte:
  fixes cp :: u64 and mark :: u8
  assumes "mark AND ucast cp = 0"
  shows "ucast ((cp OR ucast mark) AND 0xFF) = (of_nat (unat mark + unat cp) :: u8)"
proof -
  have "(of_nat (unat mark + unat cp) :: u8) = mark OR ucast cp"
    using plus_disjoint [OF assms] by simp
  also have "\<dots> = ucast ((cp OR ucast mark) AND 0xFF)"
    by (rule byte_bits_eqI) (auto simp: bit_simps)
  finally show ?thesis ..
qed

lemma first_byte:
  fixes cp :: u64
  shows "unat cp < 32 \<Longrightarrow> ucast ((cp OR 0xC0) AND 0xFF) = (of_nat (0xC0 + unat cp) :: u8)"
    and "unat cp < 16 \<Longrightarrow> ucast ((cp OR 0xE0) AND 0xFF) = (of_nat (0xE0 + unat cp) :: u8)"
    and "unat cp < 8 \<Longrightarrow> ucast ((cp OR 0xF0) AND 0xFF) = (of_nat (0xF0 + unat cp) :: u8)"
    and "unat cp < 128 \<Longrightarrow> ucast (cp AND 0x7F) = (of_nat (unat cp) :: u8)"
proof -
  note high = high_bit_clear [of cp]
  show "ucast ((cp OR 0xC0) AND 0xFF) = (of_nat (0xC0 + unat cp) :: u8)" if "unat cp < 32"
    using mark_byte [of "0xC0" cp] byte_bits_eqI [of "0xC0 AND ucast cp" 0] high [of 5] that by (simp add: bit_simps)
  show "ucast ((cp OR 0xE0) AND 0xFF) = (of_nat (0xE0 + unat cp) :: u8)" if "unat cp < 16"
    using mark_byte [of "0xE0" cp] byte_bits_eqI [of "0xE0 AND ucast cp" 0] high [of 4] that by (simp add: bit_simps)
  show "ucast ((cp OR 0xF0) AND 0xFF) = (of_nat (0xF0 + unat cp) :: u8)" if "unat cp < 8"
    using mark_byte [of "0xF0" cp] byte_bits_eqI [of "0xF0 AND ucast cp" 0] high [of 3] that by (simp add: bit_simps)
  have "ucast (cp AND 0x7F) = (ucast cp :: u8)" if "unat cp < 128"
    using high [of 7] that by (intro byte_bits_eqI) (simp_all add: bit_simps)
  then show "ucast (cp AND 0x7F) = (of_nat (unat cp) :: u8)" if "unat cp < 128"
    using that by simp
qed

lemma utf8_tail_numeral:
  "utf8_tail (Suc 0) c = (drop_bit 6 c, [ucast ((c OR 0x80) AND 0xBF)])"
  "utf8_tail 2 c = (drop_bit 12 c, [ucast ((drop_bit 6 c OR 0x80) AND 0xBF), ucast ((c OR 0x80) AND 0xBF)])"
  "utf8_tail 3 c =
     (drop_bit 18 c, [ucast ((drop_bit 12 c OR 0x80) AND 0xBF), ucast ((drop_bit 6 c OR 0x80) AND 0xBF),
                      ucast ((c OR 0x80) AND 0xBF)])"
  by (simp_all add: numeral_2_eq_2 numeral_3_eq_3 Let_def)

lemma utf8_encode_spec:
  "unat cp < 0x80 \<Longrightarrow> utf8_encode 1 0 cp = utf8_spec (unat cp)"
  "0x80 \<le> unat cp \<Longrightarrow> unat cp < 0x800 \<Longrightarrow> utf8_encode 2 0xC0 cp = utf8_spec (unat cp)"
  "0x800 \<le> unat cp \<Longrightarrow> unat cp < 0x10000 \<Longrightarrow> utf8_encode 3 0xE0 cp = utf8_spec (unat cp)"
  "0x10000 \<le> unat cp \<Longrightarrow> unat cp < 0x110000 \<Longrightarrow> utf8_encode 4 0xF0 cp = utf8_spec (unat cp)"
proof -
  have shift: "unat (drop_bit k cp) = unat cp div 2 ^ k" for k
    by (simp only: unsigned_drop_bit_eq drop_bit_eq_div [of k "unat cp"] take_bit_nat_eq_self unsigned_less)
  note shifts = shift [of 6] shift [of 12] shift [of 18]
  note tails = tail_byte [of cp] tail_byte [of "drop_bit 6 cp"] tail_byte [of "drop_bit 12 cp"]
  show "utf8_encode 1 0 cp = utf8_spec (unat cp)" if "unat cp < 0x80"
    using that by (simp add: utf8_encode_def utf8_spec_def first_byte)
  show "utf8_encode 2 0xC0 cp = utf8_spec (unat cp)" if "0x80 \<le> unat cp" "unat cp < 0x800"
    using that tails(1) first_byte(1) [of "drop_bit 6 cp"] shifts(1)
    by (simp add: utf8_encode_def utf8_spec_def utf8_tail_numeral)
  show "utf8_encode 3 0xE0 cp = utf8_spec (unat cp)" if "0x800 \<le> unat cp" "unat cp < 0x10000"
    using that tails(1,2) first_byte(2) [of "drop_bit 12 cp"] shifts(1,2)
    by (simp add: utf8_encode_def utf8_spec_def utf8_tail_numeral)
  show "utf8_encode 4 0xF0 cp = utf8_spec (unat cp)" if "0x10000 \<le> unat cp" "unat cp < 0x110000"
    using that tails first_byte(3) [of "drop_bit 18 cp"] shifts
    by (simp add: utf8_encode_def utf8_spec_def utf8_tail_numeral)
qed
text \<open>What a call returns: a failure, or 6 or 12 bytes of input for at most three or four of output.\<close>

lemma utf16_literal_result:
  assumes "e \<le> length m"
  shows "\<exists>sl bs. utf16_literal_to_utf8 m p e = Inr (sl, bs) \<and>
           (sl = 0 \<and> bs = [] \<or> sl = 6 \<and> p + 6 \<le> e \<and> length bs \<le> 3 \<or> sl = 12 \<and> p + 12 \<le> e \<and> length bs \<le> 4)"
proof -
  define encode :: "nat \<Rightarrow> u64 \<Rightarrow> (nat \<times> u8 list) outcome" where
    "encode = (\<lambda>sl cp.
       if cp < 0x80 then Inr (sl, utf8_encode 1 0 cp)
       else if cp < 0x800 then Inr (sl, utf8_encode 2 0xC0 cp)
       else if cp < 0x10000 then Inr (sl, utf8_encode 3 0xE0 cp)
       else if cp \<le> 0x10FFFF then Inr (sl, utf8_encode 4 0xF0 cp)
       else Inr (0, []))"
  have len: "length (utf8_encode k mark cp) = Suc (k - 1)" for k mark cp
  proof -
    have "length (snd (utf8_tail n c)) = n" for n c
      by (induction n c rule: utf8_tail.induct) (auto simp: Let_def split: prod.split)
    then show ?thesis by (simp add: utf8_encode_def split_def Let_def)
  qed
  have small: "\<exists>sl bs. encode 6 (ucast h) = Inr (sl, bs) \<and> (sl = 0 \<and> bs = [] \<or> sl = 6 \<and> length bs \<le> 3)"
    if "unat h < 65536" for h :: u32
  proof -
    have "(ucast h :: u64) < 0x10000" using that unsigned_less [of h]
      by (simp add: word_less_nat_alt unsigned_ucast_eq take_bit_nat_eq_self)
    then show ?thesis by (auto simp: encode_def len)
  qed
  have large: "\<exists>sl bs. encode 12 cp = Inr (sl, bs) \<and>
      (sl = 0 \<and> bs = [] \<or> sl = 6 \<and> p + 6 \<le> e \<and> length bs \<le> 3 \<or> sl = 12 \<and> p + 12 \<le> e \<and> length bs \<le> 4)"
    if "p + 12 \<le> e" for cp
    using that by (auto simp: encode_def len)
  show ?thesis
  proof (cases "e - p < 6")
    case True
    then show ?thesis by (simp add: utf16_literal_to_utf8_def)
  next
    case False
    then have "p + 2 + 4 \<le> length m" using assms by linarith
    from parse_hex4_value [OF this] obtain h where h: "parse_hex4 m (p + 2) = Inr h" "unat h < 65536"
      by blast
    have "\<exists>h2. e - (p + 6) < 6 \<or> parse_hex4 m (p + 6 + 2) = Inr h2"
    proof (cases "e - (p + 6) < 6")
      case False
      then have "p + 6 + 2 + 4 \<le> length m" using assms by linarith
      from parse_hex4_value [OF this] show ?thesis by blast
    qed simp
    then obtain h2 where h2: "e - (p + 6) < 6 \<or> parse_hex4 m (p + 6 + 2) = Inr h2" by blast
    show ?thesis
      using False h h2 small [of h] assms
      by (auto simp: utf16_literal_to_utf8_def Let_def byte_at_less simp flip: encode_def intro!: large)
  qed
qed

subsection \<open>String literals\<close>

text \<open>
  The first pass of \<open>parse_string\<close>: from behind the opening quote to the closing one, counting the
  backslashes that start an escape. \<open>None\<close> where the literal is not closed.
\<close>

function scan_string :: "u8 list \<Rightarrow> nat \<Rightarrow> nat \<Rightarrow> nat \<Rightarrow> (nat \<times> nat) option outcome" where
  "scan_string m len input_end skipped =
     (if input_end < len then
        bind_res (byte_at m input_end) (\<lambda>c.
        if c = 0x22 then Inr (Some (input_end, skipped))
        else if c = 0x5C then
          (if len \<le> input_end + 1 then Inr None
           else scan_string m len (input_end + 2) (Suc skipped))
        else scan_string m len (Suc input_end) skipped)
      else Inr None)"
  by pat_completeness auto
termination by (relation "measure (\<lambda>(m, len, e, s). len - e)") auto

declare scan_string.simps [simp del]

definition simple_escape :: "u8 \<Rightarrow> u8 option" where
  "simple_escape c =
     (if c = 0x62 then Some 0x08 else if c = 0x66 then Some 0x0C else if c = 0x6E then Some 0x0A
      else if c = 0x72 then Some 0x0D else if c = 0x74 then Some 0x09
      else if c = 0x22 \<or> c = 0x5C \<or> c = 0x2F then Some c else None)"

text \<open>
  The second pass: the bytes written to the block of \<open>cap\<close> bytes, or \<open>None\<close> with the position where an
  escape is not understood.
\<close>

function unescape :: "u8 list \<Rightarrow> nat \<Rightarrow> nat \<Rightarrow> nat \<Rightarrow> u8 list \<Rightarrow> (nat \<times> u8 list option) outcome" where
  "unescape m input_end cap input_pointer out =
     (if input_pointer < input_end then
        bind_res (byte_at m input_pointer) (\<lambda>c.
        if c \<noteq> 0x5C then
          bind_res (put_bytes cap out [c]) (\<lambda>out. unescape m input_end cap (Suc input_pointer) out)
        else
          bind_res (byte_at m (Suc input_pointer)) (\<lambda>x.
          if x = 0x75 then
            bind_res (utf16_literal_to_utf8 m input_pointer input_end) (\<lambda>(sequence_length, bs).
            if sequence_length = 0 then Inr (input_pointer, None)
            else
              bind_res (put_bytes cap out bs) (\<lambda>out.
              unescape m input_end cap (input_pointer + sequence_length) out))
          else
            (case simple_escape x of
               None \<Rightarrow> Inr (input_pointer, None)
             | Some y \<Rightarrow>
                 bind_res (put_bytes cap out [y]) (\<lambda>out.
                 unescape m input_end cap (input_pointer + 2) out))))
      else Inr (input_pointer, Some out))"
  by pat_completeness auto
termination by (relation "measure (\<lambda>(m, e, cap, p, out). e - p)") auto

declare unescape.simps [simp del]

text \<open>The escapes that the first pass counts in the rest of a literal, and what a shifted count may add.\<close>

fun escapes :: "u8 list \<Rightarrow> nat" where
  "escapes (c # d # cs) = (if c = 0x5C then Suc (escapes cs) else escapes (d # cs))"
| "escapes _ = 0"

definition escapes_near :: "u8 list \<Rightarrow> nat" where
  "escapes_near cs = max (escapes cs) (escapes (tl cs))"

lemma escapes_near_Cons: "c \<noteq> 0x5C \<Longrightarrow> escapes_near (c # cs) \<le> escapes_near cs"
  by (cases cs) (auto simp: escapes_near_def)

lemma escapes_near_drop2: "escapes_near cs \<le> Suc (escapes_near (drop 2 cs))"
proof (cases cs rule: escapes.cases)
  case (1 c d cs')
  then show ?thesis by (cases cs') (auto simp: escapes_near_def)
qed (auto simp: escapes_near_def)

lemma escapes_near_drop: "escapes_near cs \<le> k + escapes_near (drop (2 * k) cs)"
proof (induction k arbitrary: cs)
  case (Suc k)
  have "escapes_near cs \<le> Suc (escapes_near (drop 2 cs))" by (rule escapes_near_drop2)
  also have "escapes_near (drop 2 cs) \<le> k + escapes_near (drop (2 * k) (drop 2 cs))" by (rule Suc.IH)
  finally show ?case by simp
qed simp

lemma escapes_near_length: "2 * escapes_near cs \<le> length cs"
proof -
  have "2 * escapes cs \<le> length cs" for cs by (induction cs rule: escapes.induct) auto
  from this [of cs] this [of "tl cs"] show ?thesis by (simp add: escapes_near_def)
qed

definition segment :: "'a list \<Rightarrow> nat \<Rightarrow> nat \<Rightarrow> 'a list" where
  "segment m p e = drop p (take e m)"

lemma segment_Cons: "p < e \<Longrightarrow> e \<le> length m \<Longrightarrow> segment m p e = m ! p # segment m (Suc p) e"
  by (simp add: segment_def Cons_nth_drop_Suc [symmetric])

lemma length_segment: "e \<le> length m \<Longrightarrow> length (segment m p e) = e - p"
  by (simp add: segment_def)

lemma drop_segment: "drop k (segment m p e) = segment m (p + k) e"
  by (simp add: segment_def add.commute)

lemma segment_empty [simp]: "e \<le> p \<Longrightarrow> segment m p e = []"
  by (simp add: segment_def)

lemma escapes_Cons: "c \<noteq> 0x5C \<Longrightarrow> escapes (c # cs) = escapes cs"
  by (cases cs) auto

text \<open>Neither pass leaves its memory: what they return on a literal inside the input.\<close>

lemma scan_string_result:
  assumes "len \<le> length m"
  shows "\<exists>r. scan_string m len e s = Inr r \<and>
           (\<forall>e' s'. r = Some (e', s') \<longrightarrow>
              e \<le> e' \<and> e' < len \<and> m ! e' = 0x22 \<and> s' = s + escapes (segment m e e'))"
  using assms
proof (induction m len e s rule: scan_string.induct)
  case (1 m len e s)
  note step = scan_string.simps [of m len e s]
  consider "len \<le> e" | "e < len" "m ! e = 0x22" | "e < len" "m ! e = 0x5C" "len \<le> e + 1"
    | "m ! e = 0x5C" "e + 1 < len" | "e < len" "m ! e \<noteq> 0x22" "m ! e \<noteq> 0x5C"
    by linarith
  then show ?case
  proof cases
    case 4
    then obtain r where r: "scan_string m len (e + 2) (Suc s) = Inr r"
      "\<And>e' s'. r = Some (e', s') \<Longrightarrow> e + 2 \<le> e' \<and> e' < len \<and> m ! e' = 0x22 \<and> s' = Suc s + escapes (segment m (e + 2) e')"
      using "1.IH"(1) [of "m ! e"] "1.prems" by auto
    have "escapes (segment m e e') = Suc (escapes (segment m (e + 2) e'))" if "e + 2 \<le> e'" "e' < len" for e'
      using that 4 "1.prems" by (simp add: segment_Cons)
    then show ?thesis using 4 r "1.prems" by (fastforce simp: step byte_at_less)
  next
    case 5
    then obtain r where r: "scan_string m len (Suc e) s = Inr r"
      "\<And>e' s'. r = Some (e', s') \<Longrightarrow> Suc e \<le> e' \<and> e' < len \<and> m ! e' = 0x22 \<and> s' = s + escapes (segment m (Suc e) e')"
      using "1.IH"(2) [of "m ! e"] "1.prems" by auto
    have "escapes (segment m e e') = escapes (segment m (Suc e) e')" if "Suc e \<le> e'" "e' < len" for e'
      using that 5 "1.prems" by (simp add: segment_Cons escapes_Cons)
    then show ?thesis using 5 r "1.prems" by (fastforce simp: step byte_at_less)
  qed (use "1.prems" in \<open>auto simp: step byte_at_less\<close>)
qed

lemma unescape_result:
  assumes "e < length m" "length out + (e - p) < cap + escapes_near (segment m p e)"
  shows "\<exists>p' r. unescape m e cap p out = Inr (p', r) \<and> (\<forall>out'. r = Some out' \<longrightarrow> length out' < cap)"
  using assms
proof (induction m e cap p out rule: unescape.induct)
  case (1 m e cap p out)
  note step = unescape.simps [of m e cap p out]
  have near: "escapes_near (segment m p e) \<le> k + escapes_near (segment m (p + 2 * k) e)" for k
    using escapes_near_drop [of "segment m p e" k] by (simp add: drop_segment)
  have bound: "2 * escapes_near (segment m q e) \<le> e - q" for q
    using escapes_near_length [of "segment m q e"] "1.prems" by (simp add: length_segment)
  show ?case
  proof (cases "p < e")
    case False
    then show ?thesis using "1.prems" bound [of p] by (simp add: step)
  next
    case p: True
    show ?thesis
    proof (cases "m ! p = 0x5C")
      case False
      have "escapes_near (segment m p e) \<le> escapes_near (segment m (Suc p) e)"
        using p False "1.prems" by (simp add: segment_Cons escapes_near_Cons)
      then show ?thesis
        using p False "1.prems" bound [of "Suc p"] "1.IH"(1) [of "m ! p" "out @ [m ! p]"]
        by (simp add: step byte_at_less put_bytes_def)
    next
      case esc: True
      define x where "x = m ! Suc p"
      have x: "byte_at m (Suc p) = Inr x" using p "1.prems" by (simp add: x_def)
      show ?thesis
      proof (cases "x = 0x75")
        case False
        show ?thesis
        proof (cases "simple_escape x")
          case None
          then show ?thesis using p esc x False "1.prems" by (simp add: step byte_at_less)
        next
          case (Some y)
          then show ?thesis
            using p esc x False "1.prems" near [of 1] bound [of p] bound [of "p + 2"] "1.IH"(3) [of "m ! p" x y "out @ [y]"]
            by (simp add: step byte_at_less put_bytes_def)
        qed
      next
        case u: True
        obtain sl bs where lit: "utf16_literal_to_utf8 m p e = Inr (sl, bs)"
          "sl = 0 \<and> bs = [] \<or> sl = 6 \<and> p + 6 \<le> e \<and> length bs \<le> 3 \<or> sl = 12 \<and> p + 12 \<le> e \<and> length bs \<le> 4"
          using utf16_literal_result [of e m p] "1.prems" by auto
        then show ?thesis
          using p esc x u "1.prems" near [of 3] near [of 6] bound [of "p + 6"] bound [of "p + 12"]
            "1.IH"(2) [of "m ! p" x "(sl, bs)" sl bs "out @ bs"]
          by (auto simp: step byte_at_less put_bytes_def)
      qed
    qed
  qed
qed

subsection \<open>Keys\<close>

definition tolower :: "u8 \<Rightarrow> u8" where
  "tolower c = (if 0x41 \<le> c \<and> c \<le> 0x5A then c + 0x20 else c)"

fun strcmp_nocase :: "u8 list \<Rightarrow> u8 list \<Rightarrow> int outcome" where
  "strcmp_nocase (a # as) (b # bs) =
     (if tolower a = tolower b then (if a = 0 then Inr 0 else strcmp_nocase as bs)
      else Inr (int (unat (tolower a)) - int (unat (tolower b))))"
| "strcmp_nocase _ _ = Inl OOB_read"

text \<open>A null pointer equals nothing, itself included.\<close>

definition case_insensitive_strcmp :: "u8 list option \<Rightarrow> u8 list option \<Rightarrow> int outcome" where
  "case_insensitive_strcmp string1 string2 =
     (case (string1, string2) of
        (Some s1, Some s2) \<Rightarrow> strcmp_nocase s1 s2
      | _ \<Rightarrow> Inr 1)"

lemma tolower_eq_0 [simp]: "tolower c = 0 \<longleftrightarrow> c = 0"
proof -
  have "unat c + 32 < 256" if "c \<le> 0x5A" using that by (simp add: word_le_nat_alt)
  then show ?thesis
    by (auto simp: tolower_def unat_eq_0 [symmetric] unat_word_ariths word_le_nat_alt)
qed

lemma tolower_0 [simp]: "tolower 0 = 0"
  by simp

lemma strcmp_nocase_terminated:
  "0 \<in> set a \<Longrightarrow> 0 \<in> set b \<Longrightarrow>
     \<exists>i. strcmp_nocase a b = Inr i \<and> (i = 0 \<longleftrightarrow> map tolower (cstr a) = map tolower (cstr b))"
proof (induction a b rule: strcmp_nocase.induct)
  case (1 a as b bs)
  have "b = 0 \<longleftrightarrow> a = 0" if "tolower a = tolower b" using that by (metis tolower_eq_0)
  then show ?case using 1
    by (cases "tolower a = tolower b")
      (auto simp: word_uint_eq_iff [of "tolower a" "tolower b"] unsigned_eq_0_iff)
qed auto

lemmas json_text_eval [eval] =
  byte_at_def put_bytes_def hex_digit_def parse_hex4_def utf8_encode_def utf16_literal_to_utf8_def
  simple_escape_def tolower_def case_insensitive_strcmp_def

subsection \<open>The escapes, against the standard\<close>

lemma and_0x3FF: "w AND 0x3FF = take_bit 10 w" for w :: u32
proof -
  have "(0x3FF :: u32) = mask 10" by (simp add: mask_eq_exp_minus_1)
  then show ?thesis by (simp only: take_bit_eq_mask)
qed

lemma unat_ucast_u32 [simp]: "unat (ucast w :: u64) = unat w" for w :: u32
proof -
  have "unat w < 2 ^ LENGTH(32)" by (rule unsigned_less)
  then show ?thesis by (simp add: unsigned_ucast_eq take_bit_nat_eq_self)
qed

lemma surrogate_codepoint:
  fixes h h2 :: u32
  assumes "0xD800 \<le> unat h" "unat h < 0xDC00" "0xDC00 \<le> unat h2" "unat h2 < 0xE000"
  shows "unat (0x10000 + ucast (push_bit 10 (h AND 0x3FF) OR (h2 AND 0x3FF)) :: u64) =
    0x10000 + (unat h - 0xD800) * 0x400 + (unat h2 - 0xDC00)"
proof -
  have low: "unat (take_bit 10 w) = unat w mod 1024" for w :: u32
    by (simp only: unsigned_take_bit_eq take_bit_eq_mod [of 10 "unat w"]) simp
  have high: "unat h mod 1024 = unat h - 0xD800" using assms(1,2)
    by (simp add: mod_nat_eqI)
  have high2: "unat h2 mod 1024 = unat h2 - 0xDC00" using assms(3,4)
    by (simp add: mod_nat_eqI)
  have "push_bit 10 (take_bit 10 h) AND take_bit 10 h2 = 0"
    by (rule bit_word_eqI) (auto simp: bit_simps)
  then have "unat (push_bit 10 (take_bit 10 h) OR take_bit 10 h2) = unat (push_bit 10 (take_bit 10 h) + take_bit 10 h2)"
    by (simp add: plus_disjoint)
  also have "\<dots> = (unat h - 0xD800) * 1024 + (unat h2 - 0xDC00)"
    using assms by (simp add: push_bit_eq_mult unat_word_ariths low high high2)
  finally have inner: "unat (push_bit 10 (take_bit 10 h) OR take_bit 10 h2) = (unat h - 0xD800) * 1024 + (unat h2 - 0xDC00)" .
  show ?thesis using assms by (simp add: and_0x3FF unat_word_ariths inner)
qed

lemma encode_value:
  fixes cp :: u64
  assumes "unat cp < 0x110000"
  shows "(if cp < 0x80 then Inr (k, utf8_encode 1 0 cp)
          else if cp < 0x800 then Inr (k, utf8_encode 2 0xC0 cp)
          else if cp < 0x10000 then Inr (k, utf8_encode 3 0xE0 cp)
          else if cp \<le> 0x10FFFF then Inr (k, utf8_encode 4 0xF0 cp)
          else Inr (0, [])) = (Inr (k, utf8_spec (unat cp)) :: (nat \<times> u8 list) outcome)"
  using assms utf8_encode_spec [of cp]
  by (simp add: word_less_nat_alt word_le_nat_alt del: One_nat_def)

lemma parse_hex4_segment:
  assumes "q = p + 4" "q \<le> length m" "hex_value (segment m p q) = Some v"
  shows "\<exists>h. parse_hex4 m p = Inr h \<and> unat h = v \<and> v < 65536"
proof -
  have "segment m p q = take 4 (drop p m)" by (simp add: segment_def take_drop assms(1) add.commute)
  then show ?thesis using parse_hex4_value [of p m] assms by auto
qed

lemma utf16_escape:
  assumes "e \<le> length m" "p + 6 \<le> e" "hex_value (segment m (p + 2) (p + 6)) = Some v"
  shows "v < 0xD800 \<or> 0xE000 \<le> v \<Longrightarrow> utf16_literal_to_utf8 m p e = Inr (6, utf8_spec v)"
    and "0xD800 \<le> v \<Longrightarrow> v < 0xDC00 \<Longrightarrow> p + 12 \<le> e \<Longrightarrow> m ! (p + 6) = 0x5C \<Longrightarrow> m ! (p + 7) = 0x75 \<Longrightarrow>
       hex_value (segment m (p + 8) (p + 12)) = Some w \<Longrightarrow> 0xDC00 \<le> w \<Longrightarrow> w < 0xE000 \<Longrightarrow>
       utf16_literal_to_utf8 m p e = Inr (12, utf8_spec (0x10000 + (v - 0xD800) * 0x400 + (w - 0xDC00)))"
proof -
  have "p + 6 = (p + 2) + 4" "p + 6 \<le> length m" using assms(1,2) by linarith+
  from parse_hex4_segment [OF this assms(3)]
  obtain h where h: "parse_hex4 m (p + 2) = Inr h" "unat h = v" "v < 65536" by blast
  show "utf16_literal_to_utf8 m p e = Inr (6, utf8_spec v)" if "v < 0xD800 \<or> 0xE000 \<le> v"
  proof -
    have cast: "unat (ucast h :: u64) = v" using h(2) by simp
    have "(0xDC00 \<le> h \<and> h \<le> 0xDFFF) = False" "(0xD800 \<le> h \<and> h \<le> 0xDBFF) = False" "(e - p < 6) = False"
      using that h(2) assms(2) by (auto simp: word_le_nat_alt)
    note this h(1)
    then show ?thesis using encode_value [of "ucast h" 6] cast h(3)
      by (simp only: utf16_literal_to_utf8_def Let_def if_False bind_res_Inr)
  qed
  show "utf16_literal_to_utf8 m p e = Inr (12, utf8_spec (0x10000 + (v - 0xD800) * 0x400 + (w - 0xDC00)))"
    if v: "0xD800 \<le> v" "v < 0xDC00" and more: "p + 12 \<le> e" "m ! (p + 6) = 0x5C" "m ! (p + 7) = 0x75"
      and w: "hex_value (segment m (p + 8) (p + 12)) = Some w" "0xDC00 \<le> w" "w < 0xE000"
  proof -
    have "p + 12 = (p + 8) + 4" "p + 12 \<le> length m" using assms(1) more(1) by linarith+
    from parse_hex4_segment [OF this w(1)]
    obtain h2 where h2': "parse_hex4 m (p + 8) = Inr h2" "unat h2 = w" by blast
    have "p + 6 + 2 = p + 8" by simp
    then have h2: "parse_hex4 m (p + 6 + 2) = Inr h2" "unat h2 = w" using h2' by (simp_all only:)
    let ?cp = "0x10000 + ucast (push_bit 10 (h AND 0x3FF) OR (h2 AND 0x3FF)) :: u64"
    have cp: "unat ?cp = 0x10000 + (v - 0xD800) * 0x400 + (w - 0xDC00)"
      using surrogate_codepoint [of h h2] h(2) h2(2) v w(2,3) by simp
    have "(0xDC00 \<le> h \<and> h \<le> 0xDFFF) = False" "(0xD800 \<le> h \<and> h \<le> 0xDBFF) = True"
      "(h2 < 0xDC00 \<or> 0xDFFF < h2) = False"
      using v w h(2) h2(2) by (auto simp: word_le_nat_alt word_less_nat_alt)
    moreover have "byte_at m (p + 6) = Inr 0x5C" "byte_at m (p + 7) = Inr 0x75" "Suc (p + 6) = p + 7"
      using more assms(1) by (simp_all add: byte_at_def)
    moreover have "(e - p < 6) = False" "(e - (p + 6) < 6) = False" using assms(2) more(1) by simp_all
    moreover have "((0x5C :: u8) \<noteq> 0x5C \<or> (0x75 :: u8) \<noteq> 0x75) = False" by simp
    moreover have "unat ?cp < 0x110000" using cp v w(2,3) by simp
    ultimately show ?thesis using encode_value [of ?cp 12] cp h(1) h2(1)
      by (simp only: utf16_literal_to_utf8_def Let_def bind_res_Inr if_False if_True)
  qed
qed

text \<open>
  C39. The escapes of a string literal are decoded as RFC 8259 and the UTF-8 standard have it: four
  hexadecimal digits outside the surrogates become the UTF-8 encoding, given here by division, of the
  number they spell, and a high surrogate followed by an escaped low one becomes the encoding of the code
  point that the pair stands for; 6 and 12 bytes of input are consumed.
\<close>

theorem utf16_escape_correct:
  assumes "e \<le> length m" "p + 6 \<le> e" "hex_value (segment m (p + 2) (p + 6)) = Some v"
  shows "(v < 0xD800 \<or> 0xE000 \<le> v \<longrightarrow> utf16_literal_to_utf8 m p e = Inr (6, utf8_spec v)) \<and>
         (0xD800 \<le> v \<and> v < 0xDC00 \<and> p + 12 \<le> e \<and> segment m (p + 6) (p + 8) = lit [CHR 0x5C, CHR ''u''] \<longrightarrow>
            (\<forall>w. hex_value (segment m (p + 8) (p + 12)) = Some w \<and> 0xDC00 \<le> w \<and> w < 0xE000 \<longrightarrow>
               utf16_literal_to_utf8 m p e = Inr (12, utf8_spec (0x10000 + (v - 0xD800) * 0x400 + (w - 0xDC00)))))"
proof -
  have "m ! (p + 6) = 0x5C \<and> m ! (p + 7) = 0x75"
    if more: "p + 12 \<le> e" and esc: "segment m (p + 6) (p + 8) = lit [CHR 0x5C, CHR ''u'']"
  proof -
    have suc: "Suc (p + 6) = p + 7" "Suc (p + 7) = p + 8" by simp_all
    have "segment m (p + 6) (p + 8) = [m ! (p + 6), m ! (p + 7)]"
      using more assms(1) segment_Cons [of "p + 6" "p + 8" m] segment_Cons [of "p + 7" "p + 8" m]
      unfolding suc by simp
    then show ?thesis using esc by (simp add: lit_def)
  qed
  then show ?thesis using utf16_escape [OF assms] by blast
qed

text \<open>The escape of U+1F600, as a pair of surrogates, gives its four bytes.\<close>

theorem utf16_escape_correct_witness:
  "let m = lit [CHR 0x5C, CHR ''u'', CHR ''d'', CHR ''8'', CHR ''3'', CHR ''d'',
                CHR 0x5C, CHR ''u'', CHR ''d'', CHR ''e'', CHR ''0'', CHR ''0'']
   in utf16_literal_to_utf8 m 0 12 = Inr (12, [0xF0, 0x9F, 0x98, 0x80])"
proof -
  let ?m = "lit [CHR 0x5C, CHR ''u'', CHR ''d'', CHR ''8'', CHR ''3'', CHR ''d'',
                CHR 0x5C, CHR ''u'', CHR ''d'', CHR ''e'', CHR ''0'', CHR ''0'']"
  have a: "12 \<le> length ?m" "0 + 6 \<le> (12 :: nat)" "hex_value (segment ?m (0 + 2) (0 + 6)) = Some 0xD83D"
    by (simp_all add: segment_def lit_def hex_value_def hex_digit_def)
  have b: "hex_value (segment ?m (0 + 8) (0 + 12)) = Some 0xDE00"
    "segment ?m (0 + 6) (0 + 8) = lit [CHR 0x5C, CHR ''u'']"
    by (simp_all add: segment_def lit_def hex_value_def hex_digit_def)
  have "utf8_spec (0x10000 + (0xD83D - 0xD800) * 0x400 + (0xDE00 - 0xDC00)) = [0xF0, 0x9F, 0x98, 0x80]"
    by (simp add: utf8_spec_def)
  then show ?thesis using utf16_escape_correct [OF a] b unfolding Let_def by simp
qed

end
