(* ===== verification/Json_Number.thy ===== *)
theory Json_Number
  imports Json_Text
begin

text \<open>
  The \<open>double\<close> of the C code, as far as the JSON library uses it: finite values as sign, mantissa and
  binary exponent, \<open>strtod\<close> on a decimal text with round-to-nearest-even, and the comparisons and the
  conversion with which \<open>valueint\<close> is computed from \<open>valuedouble\<close>. Two representations may have the
  same value; the operations compare values, as the code does.
\<close>

subsection \<open>Values\<close>

text \<open>\<open>Fin s m e\<close> is \<open>m * 2 ^ e\<close>, negated where \<open>s\<close> is set.\<close>

datatype double = Fin bool nat int | Inf bool | NaN

definition signed :: "bool \<Rightarrow> nat \<Rightarrow> int" where
  "signed s n = (if s then - int n else int n)"

definition double_of_int :: "int \<Rightarrow> double" where
  "double_of_int k = Fin (k < 0) (nat \<bar>k\<bar>) 0"

fun double_ge :: "double \<Rightarrow> int \<Rightarrow> bool" where
  "double_ge (Fin s m e) k = (k * 2 ^ nat (- e) \<le> signed s m * 2 ^ nat e)"
| "double_ge (Inf s) k = (\<not> s)"
| "double_ge NaN k = False"

fun double_le :: "double \<Rightarrow> int \<Rightarrow> bool" where
  "double_le (Fin s m e) k = (signed s m * 2 ^ nat e \<le> k * 2 ^ nat (- e))"
| "double_le (Inf s) k = s"
| "double_le NaN k = False"

text \<open>The conversion \<open>(int)d\<close>, towards zero; the code uses it where the value is in range.\<close>

fun double_trunc :: "double \<Rightarrow> int" where
  "double_trunc (Fin s m e) = signed s (m * 2 ^ nat e div 2 ^ nat (- e))"
| "double_trunc _ = 0"

abbreviation INT_MAX :: int where "INT_MAX \<equiv> 2147483647"
abbreviation INT_MIN :: int where "INT_MIN \<equiv> - 2147483648"

text \<open>The saturating conversion that \<open>parse_number\<close>, \<open>cJSON_SetNumberHelper\<close> and the constructors share.\<close>

definition saturate :: "double \<Rightarrow> int" where
  "saturate number =
     (if double_ge number INT_MAX then INT_MAX
      else if double_le number INT_MIN then INT_MIN
      else double_trunc number)"

subsection \<open>Rounding\<close>

fun bit_length :: "nat \<Rightarrow> nat" where
  "bit_length n = (if n = 0 then 0 else Suc (bit_length (n div 2)))"

declare bit_length.simps [simp del]

text \<open>The quotient \<open>n / d\<close> rounded to an integer, ties to even.\<close>

definition div_even :: "nat \<Rightarrow> nat \<Rightarrow> nat" where
  "div_even n d =
     (let q = n div d; r = n mod d in
      if 2 * r < d then q else if d < 2 * r then Suc q else if even q then q else Suc q)"

text \<open>
  The largest \<open>k\<close> with \<open>2 ^ k \<le> n / d\<close>, and the \<open>double\<close> nearest to \<open>n / d\<close>: 53 bits of mantissa, fewer
  where the exponent would fall below that of the smallest subnormal number, infinity where the result
  would be 2 to the 1024 or more.
\<close>

definition log2_ratio :: "nat \<Rightarrow> nat \<Rightarrow> int" where
  "log2_ratio n d =
     (let k = int (bit_length n) - int (bit_length d) in
      if d * 2 ^ nat k \<le> n * 2 ^ nat (- k) then k else k - 1)"

definition round_double :: "bool \<Rightarrow> nat \<Rightarrow> nat \<Rightarrow> double" where
  "round_double s n d =
     (if n = 0 then Fin s 0 0
      else
        let e = max (- 1074) (log2_ratio n d - 52);
            q = div_even (n * 2 ^ nat (- e)) (d * 2 ^ nat e)
        in if 2 ^ 1024 \<le> q * 2 ^ nat e then Inf s else Fin s q e)"

definition decimal_double :: "bool \<Rightarrow> nat \<Rightarrow> int \<Rightarrow> double" where
  "decimal_double s n k =
     (if 0 \<le> k then round_double s (n * 10 ^ nat k) 1 else round_double s n (10 ^ nat (- k)))"

subsection \<open>Decimal texts\<close>

definition digits_value :: "u8 list \<Rightarrow> nat" where
  "digits_value ds = foldl (\<lambda>acc d. 10 * acc + unat (d - 0x30)) 0 ds"

text \<open>A sign in front of a text, and the text behind it.\<close>

definition split_sign :: "u8 list \<Rightarrow> bool \<times> u8 list" where
  "split_sign s =
     (case s of
        c # cs \<Rightarrow> if c = 0x2D then (True, cs) else if c = 0x2B then (False, cs) else (False, s)
      | [] \<Rightarrow> (False, []))"

text \<open>An exponent: only where at least one digit follows.\<close>

definition split_exponent :: "u8 list \<Rightarrow> int \<times> u8 list" where
  "split_exponent s =
     (case s of
        c # cs \<Rightarrow>
          if c = 0x65 \<or> c = 0x45 then
            (let (neg, cs') = split_sign cs; ds = takeWhile digit cs' in
             if ds = [] then (0, s) else (signed neg (digits_value ds), dropWhile digit cs'))
          else (0, s)
      | [] \<Rightarrow> (0, []))"

text \<open>
  \<open>strtod\<close> on a decimal text: the value of the longest prefix that is a number and its length, which is
  0 where there is none.
\<close>

definition strtod :: "u8 list \<Rightarrow> double \<times> nat" where
  "strtod s =
     (let (neg, s1) = split_sign s;
          int_part = takeWhile digit s1;
          s2 = dropWhile digit s1;
          (frac_part, s3) =
            (case s2 of
               c # cs \<Rightarrow> if c = 0x2E then (takeWhile digit cs, dropWhile digit cs) else ([], s2)
             | [] \<Rightarrow> ([], []))
      in if int_part @ frac_part = [] then (Fin False 0 0, 0)
         else
           let (ex, s4) = split_exponent s3 in
           (decimal_double neg (digits_value (int_part @ frac_part)) (ex - int (length frac_part)),
            length s - length s4))"

subsection \<open>Comparing two values\<close>

text \<open>The difference of two finite values is exact before it is rounded.\<close>

fun double_minus :: "double \<Rightarrow> double \<Rightarrow> double" where
  "double_minus (Fin s m e) (Fin t n i) =
     (let k = min e i; d = signed s m * 2 ^ nat (e - k) - signed t n * 2 ^ nat (i - k)
      in round_double (d < 0) (nat \<bar>d\<bar> * 2 ^ nat k) (2 ^ nat (- k)))"
| "double_minus (Inf s) (Inf t) = (if s = t then NaN else Inf s)"
| "double_minus (Inf s) (Fin t n i) = Inf s"
| "double_minus (Fin s m e) (Inf t) = Inf (\<not> t)"
| "double_minus NaN y = NaN"
| "double_minus x NaN = NaN"

fun fabs :: "double \<Rightarrow> double" where
  "fabs (Fin s m e) = Fin False m e"
| "fabs (Inf s) = Inf False"
| "fabs NaN = NaN"

fun double_leq :: "double \<Rightarrow> double \<Rightarrow> bool" where
  "double_leq (Fin s m e) (Fin t n i) =
     (let k = min e i in signed s m * 2 ^ nat (e - k) \<le> signed t n * 2 ^ nat (i - k))"
| "double_leq (Inf s) (Inf t) = (s \<or> \<not> t)"
| "double_leq (Inf s) (Fin t n i) = s"
| "double_leq (Fin s m e) (Inf t) = (\<not> t)"
| "double_leq NaN y = False"
| "double_leq x NaN = False"

definition double_less :: "double \<Rightarrow> double \<Rightarrow> bool" where
  "double_less x y \<longleftrightarrow> double_leq x y \<and> \<not> double_leq y x"

text \<open>The product with \<open>DBL_EPSILON\<close>, which is 2 to the power -52.\<close>

fun times_epsilon :: "double \<Rightarrow> double" where
  "times_epsilon (Fin s m e) = round_double s (m * 2 ^ nat (e - 52)) (2 ^ nat (52 - e))"
| "times_epsilon x = x"

definition compare_double :: "double \<Rightarrow> double \<Rightarrow> bool" where
  "compare_double a b =
     (let max_val = (if double_less (fabs b) (fabs a) then fabs a else fabs b)
      in double_leq (fabs (double_minus a b)) (times_epsilon max_val))"

definition finite_double :: "double \<Rightarrow> bool" where
  "finite_double d \<longleftrightarrow> (\<exists>s m e. d = Fin s m e)"

lemma round_double_sign: "\<exists>m e. round_double s n d = Fin s m e \<or> round_double s n d = Inf s"
  by (auto simp: round_double_def Let_def)

text \<open>Equality up to the tolerance is reflexive on finite values only: an infinity differs from itself.\<close>

lemma compare_double_refl: "compare_double d d \<longleftrightarrow> finite_double d"
proof (cases d)
  case (Fin s m e)
  have minus: "double_minus d d = Fin False 0 0" by (simp add: Fin round_double_def Let_def)
  have "double_leq (Fin False 0 0) (times_epsilon (Fin False m e))"
    using round_double_sign [of False "m * 2 ^ nat (e - 52)" "2 ^ nat (52 - e)"]
    by (auto simp: signed_def Let_def)
  then show ?thesis using minus by (simp add: compare_double_def Fin finite_double_def Let_def)
qed (simp_all add: compare_double_def finite_double_def Let_def double_less_def)

end
