(* ===== verification/Json_Parse.thy ===== *)
theory Json_Parse
  imports Json_Number
begin

text \<open>
  The parser of the bundled JSON library (\<open>lib/cjson/cJSON.c\<close>): the items it builds, the memory it
  takes for them and gives back, the parse buffer, and the functions from \<open>parse_number\<close> to
  \<open>cJSON_ParseWithLengthOpts\<close>. The chain of \<open>next\<close> pointers behind \<open>child\<close> is the list of children.
\<close>

subsection \<open>Items\<close>

record item =
  i_type :: u32
  i_valuestring :: "u8 list option"
  i_valueint :: int
  i_valuedouble :: double
  i_string :: "u8 list option"

datatype cJSON = Item (item_of: item) (child: "cJSON list")

abbreviation cJSON_Invalid :: u32 where "cJSON_Invalid \<equiv> 0"
abbreviation cJSON_False :: u32 where "cJSON_False \<equiv> 1"
abbreviation cJSON_True :: u32 where "cJSON_True \<equiv> 2"
abbreviation cJSON_NULL :: u32 where "cJSON_NULL \<equiv> 4"
abbreviation cJSON_Number :: u32 where "cJSON_Number \<equiv> 8"
abbreviation cJSON_String :: u32 where "cJSON_String \<equiv> 16"
abbreviation cJSON_Array :: u32 where "cJSON_Array \<equiv> 32"
abbreviation cJSON_Object :: u32 where "cJSON_Object \<equiv> 64"
abbreviation cJSON_Raw :: u32 where "cJSON_Raw \<equiv> 128"
abbreviation cJSON_IsReference :: u32 where "cJSON_IsReference \<equiv> 256"
abbreviation cJSON_StringIsConst :: u32 where "cJSON_StringIsConst \<equiv> 512"

abbreviation CJSON_NESTING_LIMIT :: nat where "CJSON_NESTING_LIMIT \<equiv> 1000"

text \<open>An item after \<open>memset(node, 0, sizeof(cJSON))\<close>.\<close>

definition zero_item :: item where
  "zero_item = \<lparr>i_type = 0, i_valuestring = None, i_valueint = 0, i_valuedouble = Fin False 0 0, i_string = None\<rparr>"

subsection \<open>Memory\<close>

text \<open>
  The allocator behind the hooks: its answer to the n-th request for a number of bytes, the requests
  made so far, and the blocks it has given out and not got back.
\<close>

record heap =
  h_answer :: "nat \<Rightarrow> nat \<Rightarrow> bool"
  h_calls :: nat
  h_live :: int

definition allocate :: "nat \<Rightarrow> heap \<Rightarrow> bool \<times> heap" where
  "allocate bytes h =
     (let ok = h_answer h (h_calls h) bytes in
      (ok, h\<lparr>h_calls := Suc (h_calls h), h_live := h_live h + (if ok then 1 else 0)\<rparr>))"

definition deallocate :: "heap \<Rightarrow> heap" where
  "deallocate h = h\<lparr>h_live := h_live h - 1\<rparr>"

definition sizeof_cJSON :: nat where
  "sizeof_cJSON = 64"

definition cJSON_New_Item :: "heap \<Rightarrow> item option \<times> heap" where
  "cJSON_New_Item h =
     (let (ok, h) = allocate sizeof_cJSON h in (if ok then Some zero_item else None, h))"

definition cJSON_strdup :: "u8 list option \<Rightarrow> heap \<Rightarrow> (u8 list option \<times> heap) outcome" where
  "cJSON_strdup s h =
     (case s of
        None \<Rightarrow> Inr (None, h)
      | Some s \<Rightarrow>
          bind_res (c_str s) (\<lambda>cs.
          let (ok, h) = allocate (length cs + 1) h in
          Inr (if ok then Some (cs @ [0]) else None, h)))"

text \<open>
  \<open>cJSON_Delete\<close> frees an item, the items after it, and below each the children and the two strings,
  except what a flag says is not the item's own.
\<close>

definition free_if :: "bool \<Rightarrow> heap \<Rightarrow> heap" where
  "free_if b h = (if b then deallocate h else h)"

fun cJSON_Delete :: "cJSON list \<Rightarrow> heap \<Rightarrow> heap" where
  "cJSON_Delete [] h = h"
| "cJSON_Delete (Item f cs # next) h =
     (let reference = (i_type f AND cJSON_IsReference \<noteq> 0);
          h = (if reference then h else cJSON_Delete cs h);
          h = free_if (\<not> reference \<and> i_valuestring f \<noteq> None) h;
          h = free_if (i_type f AND cJSON_StringIsConst = 0 \<and> i_string f \<noteq> None) h
      in cJSON_Delete next (deallocate h))"

subsection \<open>The parse buffer\<close>

text \<open>
  \<open>b_content\<close> is the memory the input pointer points to, \<open>b_length\<close> the length the caller gave for it.
\<close>

record parse_buffer =
  b_content :: "u8 list"
  b_length :: nat
  b_offset :: nat
  b_depth :: nat
  b_heap :: heap

definition can_read :: "parse_buffer \<Rightarrow> nat \<Rightarrow> bool" where
  "can_read b count \<longleftrightarrow> b_offset b + count \<le> b_length b"

definition can_access_at_index :: "parse_buffer \<Rightarrow> nat \<Rightarrow> bool" where
  "can_access_at_index b index \<longleftrightarrow> b_offset b + index < b_length b"

definition buffer_byte :: "parse_buffer \<Rightarrow> nat \<Rightarrow> u8 outcome" where
  "buffer_byte b i = byte_at (b_content b) (b_offset b + i)"

text \<open>The tests \<open>can_access_at_index(b, 0) && buffer_at_offset(b)[0] == c\<close> and \<open>strncmp\<close> with a literal.\<close>

definition sees :: "parse_buffer \<Rightarrow> u8 \<Rightarrow> bool outcome" where
  "sees b c =
     (if can_access_at_index b 0 then bind_res (buffer_byte b 0) (\<lambda>x. Inr (x = c)) else Inr False)"

definition reads :: "parse_buffer \<Rightarrow> u8 list \<Rightarrow> bool outcome" where
  "reads b s =
     (if can_read b (length s) then
        bind_res (strncmp (drop (b_offset b) (b_content b)) s (length s)) (\<lambda>i. Inr (i = 0))
      else Inr False)"

definition advance :: "nat \<Rightarrow> parse_buffer \<Rightarrow> parse_buffer" where
  "advance k b = b\<lparr>b_offset := b_offset b + k\<rparr>"

definition step_back :: "parse_buffer \<Rightarrow> parse_buffer" where
  "step_back b = b\<lparr>b_offset := b_offset b - 1\<rparr>"

function skip_loop :: "parse_buffer \<Rightarrow> parse_buffer outcome" where
  "skip_loop b =
     (if can_access_at_index b 0 then
        bind_res (buffer_byte b 0) (\<lambda>c. if c \<le> 32 then skip_loop (advance 1 b) else Inr b)
      else Inr b)"
  by pat_completeness auto
termination
  by (relation "measure (\<lambda>b. b_length b - b_offset b)") (auto simp: can_access_at_index_def advance_def)

declare skip_loop.simps [simp del]

definition buffer_skip_whitespace :: "parse_buffer \<Rightarrow> parse_buffer outcome" where
  "buffer_skip_whitespace b =
     (if \<not> can_access_at_index b 0 then Inr b
      else
        bind_res (skip_loop b) (\<lambda>b.
        Inr (if b_offset b = b_length b then step_back b else b)))"

text \<open>\<open>None\<close> is the null pointer, returned where the buffer is not at its start.\<close>

definition skip_utf8_bom :: "parse_buffer \<Rightarrow> parse_buffer option outcome" where
  "skip_utf8_bom b =
     (if b_offset b \<noteq> 0 then Inr None
      else if can_access_at_index b 4 then
        bind_res (strncmp (b_content b) [0xEF, 0xBB, 0xBF] 3) (\<lambda>i.
        Inr (Some (if i = 0 then advance 3 b else b)))
      else Inr (Some b))"

subsection \<open>Numbers and strings\<close>

definition get_decimal_point :: u8 where
  "get_decimal_point = 0x2E"

text \<open>The bytes that may belong to a number; the flag is set where a point is among them.\<close>

definition number_byte :: "u8 \<Rightarrow> bool" where
  "number_byte c \<longleftrightarrow> digit c \<or> c = 0x2B \<or> c = 0x2D \<or> c = 0x65 \<or> c = 0x45"

function number_span :: "parse_buffer \<Rightarrow> nat \<Rightarrow> bool \<Rightarrow> (nat \<times> bool) outcome" where
  "number_span b i has_decimal_point =
     (if can_access_at_index b i then
        bind_res (buffer_byte b i) (\<lambda>c.
        if number_byte c then number_span b (Suc i) has_decimal_point
        else if c = 0x2E then number_span b (Suc i) True
        else Inr (i, has_decimal_point))
      else Inr (i, has_decimal_point))"
  by pat_completeness auto
termination
  by (relation "measure (\<lambda>(b, i, p). b_length b - (b_offset b + i))") (auto simp: can_access_at_index_def)

declare number_span.simps [simp del]

text \<open>
  The temporary copy of the text is freed again on both ways out; its initial contents do not matter,
  since \<open>memcpy\<close> and the terminator fill it.
\<close>

definition parse_number :: "item \<Rightarrow> parse_buffer \<Rightarrow> (bool \<times> item \<times> parse_buffer) outcome" where
  "parse_number f b =
     bind_res (number_span b 0 False) (\<lambda>(n, has_decimal_point).
     let (ok, h) = allocate (n + 1) (b_heap b);
         b = b\<lparr>b_heap := h\<rparr>
     in if \<not> ok then Inr (False, f, b)
        else
          bind_res (memcpy (replicate (n + 1) 0) 0 (drop (b_offset b) (b_content b)) n) (\<lambda>number_c_string.
          let text = take n number_c_string;
              text = (if has_decimal_point then map (\<lambda>c. if c = 0x2E then get_decimal_point else c) text else text);
              (number, used) = strtod text;
              b = b\<lparr>b_heap := deallocate (b_heap b)\<rparr>
          in if used = 0 then Inr (False, f, b)
             else Inr (True,
                       f\<lparr>i_valuedouble := number, i_valueint := saturate number, i_type := cJSON_Number\<rparr>,
                       advance used b)))"

definition parse_string :: "item \<Rightarrow> parse_buffer \<Rightarrow> (bool \<times> item \<times> parse_buffer) outcome" where
  "parse_string f b =
     (let input_pointer = b_offset b + 1;
          fail = (\<lambda>p h. Inr (False, f, b\<lparr>b_offset := p, b_heap := h\<rparr>))
      in bind_res (buffer_byte b 0) (\<lambda>c.
         if c \<noteq> 0x22 then fail input_pointer (b_heap b)
         else
           bind_res (scan_string (b_content b) (b_length b) input_pointer 0) (\<lambda>r.
           case r of
             None \<Rightarrow> fail input_pointer (b_heap b)
           | Some (input_end, skipped_bytes) \<Rightarrow>
               (let allocation_length = input_end - b_offset b - skipped_bytes;
                    (ok, h) = allocate (allocation_length + 1) (b_heap b)
                in if \<not> ok then fail input_pointer h
                   else
                     bind_res (unescape (b_content b) input_end (allocation_length + 1) input_pointer []) (\<lambda>(p, res).
                     case res of
                       None \<Rightarrow> fail p (deallocate h)
                     | Some out \<Rightarrow>
                         bind_res (put_bytes (allocation_length + 1) out [0]) (\<lambda>out.
                         Inr (True, f\<lparr>i_type := cJSON_String, i_valuestring := Some out\<rparr>,
                              b\<lparr>b_offset := input_end + 1, b_heap := h\<rparr>)))))))"

subsection \<open>Arrays and objects\<close>

text \<open>
  The loops over the elements, given the function that parses a value. They return the chain of items
  attached so far, also where they fail, since the caller then frees it. The bound on the iterations is
  an artefact of the model; it is never reached, since every element is at least one byte long.
\<close>

fun array_loop ::
    "(item \<Rightarrow> parse_buffer \<Rightarrow> (bool \<times> cJSON \<times> parse_buffer) outcome) \<Rightarrow> nat \<Rightarrow> cJSON list \<Rightarrow> parse_buffer \<Rightarrow>
       (bool \<times> cJSON list \<times> parse_buffer) outcome" where
  "array_loop pv 0 head b = Inl Out_of_fuel"
| "array_loop pv (Suc n) head b =
     (case cJSON_New_Item (b_heap b) of
        (None, h) \<Rightarrow> Inr (False, head, b\<lparr>b_heap := h\<rparr>)
      | (Some new_item, h) \<Rightarrow>
          bind_res (buffer_skip_whitespace (advance 1 (b\<lparr>b_heap := h\<rparr>))) (\<lambda>b.
          bind_res (pv new_item b) (\<lambda>(ok, current_item, b).
          if \<not> ok then Inr (False, head @ [current_item], b)
          else
            bind_res (buffer_skip_whitespace b) (\<lambda>b.
            bind_res (sees b 0x2C) (\<lambda>comma.
            if comma then array_loop pv n (head @ [current_item]) b
            else
              bind_res (sees b 0x5D) (\<lambda>closed.
              Inr (closed, head @ [current_item], b)))))))"

declare array_loop.simps(2) [simp del]

definition parse_array ::
    "(item \<Rightarrow> parse_buffer \<Rightarrow> (bool \<times> cJSON \<times> parse_buffer) outcome) \<Rightarrow> item \<Rightarrow> parse_buffer \<Rightarrow>
       (bool \<times> cJSON \<times> parse_buffer) outcome" where
  "parse_array pv f b =
     (if CJSON_NESTING_LIMIT \<le> b_depth b then Inr (False, Item f [], b)
      else
        let b = b\<lparr>b_depth := b_depth b + 1\<rparr>;
            success = (\<lambda>head b.
              Inr (True, Item (f\<lparr>i_type := cJSON_Array\<rparr>) head, advance 1 (b\<lparr>b_depth := b_depth b - 1\<rparr>)));
            fail = (\<lambda>head b. Inr (False, Item f [], b\<lparr>b_heap := cJSON_Delete head (b_heap b)\<rparr>))
        in bind_res (buffer_byte b 0) (\<lambda>c.
           if c \<noteq> 0x5B then fail [] b
           else
             bind_res (buffer_skip_whitespace (advance 1 b)) (\<lambda>b.
             bind_res (sees b 0x5D) (\<lambda>empty.
             if empty then success [] b
             else if \<not> can_access_at_index b 0 then fail [] (step_back b)
             else
               bind_res (array_loop pv (Suc (b_length b)) [] (step_back b)) (\<lambda>(ok, head, b).
               if ok then success head b else fail head b)))))"

fun object_loop ::
    "(item \<Rightarrow> parse_buffer \<Rightarrow> (bool \<times> cJSON \<times> parse_buffer) outcome) \<Rightarrow> nat \<Rightarrow> cJSON list \<Rightarrow> parse_buffer \<Rightarrow>
       (bool \<times> cJSON list \<times> parse_buffer) outcome" where
  "object_loop pv 0 head b = Inl Out_of_fuel"
| "object_loop pv (Suc n) head b =
     (case cJSON_New_Item (b_heap b) of
        (None, h) \<Rightarrow> Inr (False, head, b\<lparr>b_heap := h\<rparr>)
      | (Some new_item, h) \<Rightarrow>
          (let b = b\<lparr>b_heap := h\<rparr> in
           if \<not> can_access_at_index b 1 then Inr (False, head @ [Item new_item []], b)
           else
             bind_res (buffer_skip_whitespace (advance 1 b)) (\<lambda>b.
             bind_res (parse_string new_item b) (\<lambda>(ok, current_item, b).
             if \<not> ok then Inr (False, head @ [Item current_item []], b)
             else
               bind_res (buffer_skip_whitespace b) (\<lambda>b.
               let current_item = current_item\<lparr>i_string := i_valuestring current_item, i_valuestring := None\<rparr> in
               bind_res (sees b 0x3A) (\<lambda>colon.
               if \<not> colon then Inr (False, head @ [Item current_item []], b)
               else
                 bind_res (buffer_skip_whitespace (advance 1 b)) (\<lambda>b.
                 bind_res (pv current_item b) (\<lambda>(ok, current_item, b).
                 if \<not> ok then Inr (False, head @ [current_item], b)
                 else
                   bind_res (buffer_skip_whitespace b) (\<lambda>b.
                   bind_res (sees b 0x2C) (\<lambda>comma.
                   if comma then object_loop pv n (head @ [current_item]) b
                   else
                     bind_res (sees b 0x7D) (\<lambda>closed.
                     Inr (closed, head @ [current_item], b))))))))))))"

declare object_loop.simps(2) [simp del]

definition parse_object ::
    "(item \<Rightarrow> parse_buffer \<Rightarrow> (bool \<times> cJSON \<times> parse_buffer) outcome) \<Rightarrow> item \<Rightarrow> parse_buffer \<Rightarrow>
       (bool \<times> cJSON \<times> parse_buffer) outcome" where
  "parse_object pv f b =
     (if CJSON_NESTING_LIMIT \<le> b_depth b then Inr (False, Item f [], b)
      else
        let b = b\<lparr>b_depth := b_depth b + 1\<rparr>;
            success = (\<lambda>head b.
              Inr (True, Item (f\<lparr>i_type := cJSON_Object\<rparr>) head, advance 1 (b\<lparr>b_depth := b_depth b - 1\<rparr>)));
            fail = (\<lambda>head b. Inr (False, Item f [], b\<lparr>b_heap := cJSON_Delete head (b_heap b)\<rparr>))
        in bind_res (sees b 0x7B) (\<lambda>opened.
           if \<not> opened then fail [] b
           else
             bind_res (buffer_skip_whitespace (advance 1 b)) (\<lambda>b.
             bind_res (sees b 0x7D) (\<lambda>empty.
             if empty then success [] b
             else if \<not> can_access_at_index b 0 then fail [] (step_back b)
             else
               bind_res (object_loop pv (Suc (b_length b)) [] (step_back b)) (\<lambda>(ok, head, b).
               if ok then success head b else fail head b)))))"

subsection \<open>Values\<close>

definition lift_item ::
    "(bool \<times> item \<times> parse_buffer) outcome \<Rightarrow> (bool \<times> cJSON \<times> parse_buffer) outcome" where
  "lift_item r = bind_res r (\<lambda>(ok, f, b). Inr (ok, Item f [], b))"

text \<open>
  The dispatcher. The number bounds the nesting that is still possible: one more than the levels left
  below \<open>CJSON_NESTING_LIMIT\<close> is enough, since \<open>parse_array\<close> and \<open>parse_object\<close> stop at the limit.
\<close>

fun parse_value :: "nat \<Rightarrow> item \<Rightarrow> parse_buffer \<Rightarrow> (bool \<times> cJSON \<times> parse_buffer) outcome" where
  "parse_value 0 f b = Inl Out_of_fuel"
| "parse_value (Suc n) f b =
     bind_res (reads b (lit ''null'')) (\<lambda>is_null.
     if is_null then Inr (True, Item (f\<lparr>i_type := cJSON_NULL\<rparr>) [], advance 4 b)
     else
       bind_res (reads b (lit ''false'')) (\<lambda>is_false.
       if is_false then Inr (True, Item (f\<lparr>i_type := cJSON_False\<rparr>) [], advance 5 b)
       else
         bind_res (reads b (lit ''true'')) (\<lambda>is_true.
         if is_true then Inr (True, Item (f\<lparr>i_type := cJSON_True, i_valueint := 1\<rparr>) [], advance 4 b)
         else if \<not> can_access_at_index b 0 then Inr (False, Item f [], b)
         else
           bind_res (buffer_byte b 0) (\<lambda>c.
           if c = 0x22 then lift_item (parse_string f b)
           else if c = 0x2D \<or> digit c then lift_item (parse_number f b)
           else if c = 0x5B then parse_array (parse_value n) f b
           else if c = 0x7B then parse_object (parse_value n) f b
           else Inr (False, Item f [], b)))))"

subsection \<open>The entry points\<close>

text \<open>
  What a call leaves behind: the item or the null pointer, the position stored through
  \<open>return_parse_end\<close> where that is wanted, and the position in \<open>global_error\<close>, \<open>None\<close> where its pointer
  is null. Positions are relative to the start of the input.
\<close>

record parse_result =
  r_item :: "cJSON option"
  r_end :: "nat option"
  r_error :: "nat option"
  r_heap :: heap

definition cJSON_ParseWithLengthOpts ::
    "u8 list option \<Rightarrow> nat \<Rightarrow> bool \<Rightarrow> bool \<Rightarrow> heap \<Rightarrow> parse_result outcome" where
  "cJSON_ParseWithLengthOpts value buffer_length want_end require_null_terminated h =
     (let fail = (\<lambda>items offset len h.
            let position = (if offset < len then offset else if 0 < len then len - 1 else 0) in
            Inr \<lparr>r_item = None,
                 r_end = (if value \<noteq> None \<and> want_end then Some position else None),
                 r_error = (if value = None then None else Some position),
                 r_heap = cJSON_Delete items h\<rparr>)
      in case value of
           None \<Rightarrow> fail [] 0 0 h
         | Some content \<Rightarrow>
             if buffer_length = 0 then fail [] 0 0 h
             else
               (case cJSON_New_Item h of
                  (None, h) \<Rightarrow> fail [] 0 buffer_length h
                | (Some f, h) \<Rightarrow>
                    let b = \<lparr>b_content = content, b_length = buffer_length, b_offset = 0, b_depth = 0, b_heap = h\<rparr> in
                    bind_res (skip_utf8_bom b) (\<lambda>skipped.
                    bind_res (case skipped of
                                None \<Rightarrow> Inr (False, Item f [], b)
                              | Some b \<Rightarrow>
                                  bind_res (buffer_skip_whitespace b) (\<lambda>b.
                                  parse_value (Suc CJSON_NESTING_LIMIT) f b)) (\<lambda>(ok, it, b).
                    if \<not> ok then fail [it] (b_offset b) buffer_length (b_heap b)
                    else
                      bind_res (if require_null_terminated then
                                  bind_res (buffer_skip_whitespace b) (\<lambda>b.
                                  if b_length b \<le> b_offset b then Inr (False, b)
                                  else bind_res (buffer_byte b 0) (\<lambda>c. Inr (c = 0, b)))
                                else Inr (True, b)) (\<lambda>(ended, b).
                      if \<not> ended then fail [it] (b_offset b) buffer_length (b_heap b)
                      else Inr \<lparr>r_item = Some it, r_end = (if want_end then Some (b_offset b) else None),
                                r_error = None, r_heap = b_heap b\<rparr>)))))"

definition cJSON_ParseWithOpts ::
    "u8 list option \<Rightarrow> bool \<Rightarrow> bool \<Rightarrow> nat option \<Rightarrow> heap \<Rightarrow> parse_result outcome" where
  "cJSON_ParseWithOpts value want_end require_null_terminated global_error h =
     (case value of
        None \<Rightarrow> Inr \<lparr>r_item = None, r_end = None, r_error = global_error, r_heap = h\<rparr>
      | Some content \<Rightarrow>
          bind_res (strlen content) (\<lambda>n.
          cJSON_ParseWithLengthOpts value (n + 1) want_end require_null_terminated h))"

definition cJSON_Parse :: "u8 list option \<Rightarrow> nat option \<Rightarrow> heap \<Rightarrow> parse_result outcome" where
  "cJSON_Parse value global_error h = cJSON_ParseWithOpts value False False global_error h"

definition cJSON_ParseWithLength :: "u8 list option \<Rightarrow> nat \<Rightarrow> heap \<Rightarrow> parse_result outcome" where
  "cJSON_ParseWithLength value buffer_length h = cJSON_ParseWithLengthOpts value buffer_length False False h"

subsection \<open>Facts about the buffer\<close>

definition wf_buffer :: "parse_buffer \<Rightarrow> bool" where
  "wf_buffer b \<longleftrightarrow> b_length b \<le> length (b_content b)"

lemma advance_simps [simp]:
  "b_content (advance k b) = b_content b" "b_length (advance k b) = b_length b"
  "b_offset (advance k b) = b_offset b + k" "b_depth (advance k b) = b_depth b"
  "b_heap (advance k b) = b_heap b" "advance j (advance k b) = advance (k + j) b" "advance 0 b = b"
  by (simp_all add: advance_def add.assoc)

lemma step_back_advance: "step_back (advance (Suc k) b) = advance k b"
  by (simp add: step_back_def advance_def)

lemma step_back_simps [simp]:
  "b_content (step_back b) = b_content b" "b_length (step_back b) = b_length b"
  "b_offset (step_back b) = b_offset b - 1" "b_depth (step_back b) = b_depth b"
  "b_heap (step_back b) = b_heap b"
  by (simp_all add: step_back_def)

lemma wf_buffer_simps [simp]:
  "wf_buffer (advance k b) = wf_buffer b" "wf_buffer (step_back b) = wf_buffer b"
  "wf_buffer (b\<lparr>b_heap := h\<rparr>) = wf_buffer b" "wf_buffer (b\<lparr>b_depth := d\<rparr>) = wf_buffer b"
  "wf_buffer (b\<lparr>b_offset := i\<rparr>) = wf_buffer b"
  by (simp_all add: wf_buffer_def)

lemma buffer_byte_ok:
  "wf_buffer b \<Longrightarrow> b_offset b + i < b_length b \<Longrightarrow> buffer_byte b i = Inr (b_content b ! (b_offset b + i))"
  by (simp add: buffer_byte_def wf_buffer_def)

lemma sees_ok:
  "wf_buffer b \<Longrightarrow> sees b c = Inr (b_offset b < b_length b \<and> b_content b ! b_offset b = c)"
  by (simp add: sees_def can_access_at_index_def buffer_byte_ok)

lemma reads_ok:
  assumes "wf_buffer b" "0 \<notin> set s"
  shows "reads b s =
    Inr (b_offset b + length s \<le> b_length b \<and> take (length s) (drop (b_offset b) (b_content b)) = s)"
proof (cases "b_offset b + length s \<le> b_length b")
  case True
  then have "length s \<le> length (drop (b_offset b) (b_content b))" using assms(1) by (simp add: wf_buffer_def)
  then obtain i where "strncmp (drop (b_offset b) (b_content b)) s (length s) = Inr i"
    "i = 0 \<longleftrightarrow> take (length s) (drop (b_offset b) (b_content b)) = s"
    using strncmp_literal assms(2) by blast
  then show ?thesis using True by (simp add: reads_def can_read_def)
qed (simp add: reads_def can_read_def)

text \<open>The white space is skipped up to the first byte above 32 or the end.\<close>

definition blanks :: "parse_buffer \<Rightarrow> nat" where
  "blanks b = length (takeWhile (\<lambda>c. c \<le> 32) (segment (b_content b) (b_offset b) (b_length b)))"

lemma skip_loop_ok: "wf_buffer b \<Longrightarrow> skip_loop b = Inr (advance (blanks b) b)"
proof (induction b rule: skip_loop.induct)
  case (1 b)
  note step = skip_loop.simps [of b]
  show ?case
  proof (cases "b_offset b < b_length b")
    case True
    then have "segment (b_content b) (b_offset b) (b_length b) =
        b_content b ! b_offset b # segment (b_content b) (Suc (b_offset b)) (b_length b)"
      using "1.prems" by (simp add: segment_Cons wf_buffer_def)
    then have "blanks b = (if b_content b ! b_offset b \<le> 32 then Suc (blanks (advance 1 b)) else 0)"
      by (simp add: blanks_def)
    then show ?thesis using True "1.prems" "1.IH" [of "b_content b ! b_offset b"]
      by (simp add: step can_access_at_index_def buffer_byte_ok)
  next
    case False
    then show ?thesis by (simp add: step can_access_at_index_def blanks_def)
  qed
qed

lemma blanks_le: "wf_buffer b \<Longrightarrow> blanks b \<le> b_length b - b_offset b"
  unfolding blanks_def wf_buffer_def by (metis length_segment length_takeWhile_le)

definition skipped :: "parse_buffer \<Rightarrow> nat" where
  "skipped b = (if b_offset b + blanks b = b_length b then blanks b - 1 else blanks b)"

lemma buffer_skip_whitespace_ok:
  assumes "wf_buffer b"
  shows "buffer_skip_whitespace b = Inr (advance (skipped b) b)"
proof (cases "b_offset b < b_length b")
  case True
  then show ?thesis using skip_loop_ok [OF assms]
    by (auto simp: buffer_skip_whitespace_def can_access_at_index_def skipped_def step_back_advance
        dest!: less_imp_Suc_add)
next
  case False
  then show ?thesis using blanks_le [OF assms]
    by (simp add: buffer_skip_whitespace_def can_access_at_index_def skipped_def)
qed

lemma skipped_bounds:
  assumes "wf_buffer b"
  shows "b_offset b < b_length b \<Longrightarrow> b_offset b + skipped b < b_length b"
    and "b_length b \<le> b_offset b \<Longrightarrow> skipped b = 0"
  using blanks_le [OF assms] by (auto simp: skipped_def)

end
