(* ===== verification/Json_Safe.thy ===== *)
theory Json_Safe
  imports Json_Parse
begin

text \<open>
  The parser never leaves the memory of its input or of the blocks it allocates, ends on every input,
  and gives back what it took: every function is shown to keep a contract that relates the buffer
  before and after, the item it returns and the blocks it holds. The contract of the function that
  parses a value is a locale, so that the facts about arrays and objects are proved once for any such
  function and then used for \<open>parse_value\<close> itself, by induction on the nesting that is left.
\<close>

subsection \<open>Facts about the memory\<close>

text \<open>The blocks of an item and of everything below it, when no flag says that they belong elsewhere.\<close>

fun blocks :: "cJSON \<Rightarrow> int" where
  "blocks (Item f cs) = 1 + of_bool (i_valuestring f \<noteq> None) + of_bool (i_string f \<noteq> None) + sum_list (map blocks cs)"

fun owned :: "cJSON \<Rightarrow> bool" where
  "owned (Item f cs) \<longleftrightarrow> i_type f AND cJSON_IsReference = 0 \<and> i_type f AND cJSON_StringIsConst = 0 \<and> list_all owned cs"

lemma deallocate_simps [simp]:
  "h_answer (deallocate h) = h_answer h" "h_live (deallocate h) = h_live h - 1"
  by (simp_all add: deallocate_def)

lemma free_if_simps [simp]:
  "h_answer (free_if b h) = h_answer h" "h_live (free_if b h) = h_live h - of_bool b"
  by (simp_all add: free_if_def)

lemma cJSON_Delete_owned:
  "list_all owned items \<Longrightarrow>
     h_live (cJSON_Delete items h) = h_live h - sum_list (map blocks items) \<and>
     h_answer (cJSON_Delete items h) = h_answer h"
proof (induction items h rule: cJSON_Delete.induct)
  case (2 f cs rest h)
  let ?h1 = "free_if (i_string f \<noteq> None) (free_if (i_valuestring f \<noteq> None) (cJSON_Delete cs h))"
  have "h_live (cJSON_Delete cs h) = h_live h - sum_list (map blocks cs) \<and> h_answer (cJSON_Delete cs h) = h_answer h"
    using "2.prems" "2.IH"(1) [of False] by simp
  moreover have "h_live (cJSON_Delete rest (deallocate ?h1)) = h_live (deallocate ?h1) - sum_list (map blocks rest) \<and>
      h_answer (cJSON_Delete rest (deallocate ?h1)) = h_answer (deallocate ?h1)"
    using "2.prems" "2.IH"(2) [of False "cJSON_Delete cs h" "free_if (i_valuestring f \<noteq> None) (cJSON_Delete cs h)" ?h1] by simp
  ultimately show ?case using "2.prems" by (simp add: Let_def)
qed simp

lemma allocate_cases:
  obtains h' where "allocate k h = (True, h')" "h_answer h' = h_answer h" "h_live h' = h_live h + 1"
  | h' where "allocate k h = (False, h')" "h_answer h' = h_answer h" "h_live h' = h_live h"
  by (cases "h_answer h (h_calls h) k") (auto simp: allocate_def Let_def)

lemma cJSON_New_Item_cases:
  obtains h' where "cJSON_New_Item h = (Some zero_item, h')" "h_answer h' = h_answer h" "h_live h' = h_live h + 1"
  | h' where "cJSON_New_Item h = (None, h')" "h_answer h' = h_answer h" "h_live h' = h_live h"
  by (cases rule: allocate_cases [of sizeof_cJSON h]) (auto simp: cJSON_New_Item_def)

subsection \<open>What the parsers keep\<close>

text \<open>The input stays, the answers of the allocator stay, and so many blocks are added.\<close>

definition keeps :: "int \<Rightarrow> parse_buffer \<Rightarrow> parse_buffer \<Rightarrow> bool" where
  "keeps k b b' \<longleftrightarrow> b_content b' = b_content b \<and> b_length b' = b_length b \<and>
     h_answer (b_heap b') = h_answer (b_heap b) \<and> h_live (b_heap b') = h_live (b_heap b) + k"

definition progress :: "parse_buffer \<Rightarrow> parse_buffer \<Rightarrow> bool" where
  "progress b b' \<longleftrightarrow> b_offset b < b_offset b' \<and> b_offset b' \<le> b_length b' \<and> b_depth b' = b_depth b"

lemma number_span_ok:
  "wf_buffer b \<Longrightarrow> \<exists>n p. number_span b i pt = Inr (n, p) \<and> i \<le> n \<and> (n = i \<or> b_offset b + n \<le> b_length b)"
proof (induction b i pt rule: number_span.induct)
  case (1 b i pt)
  note step = number_span.simps [of b i pt]
  show ?case
  proof (cases "b_offset b + i < b_length b")
    case True
    define c where "c = b_content b ! (b_offset b + i)"
    have c: "buffer_byte b i = Inr c" using True "1.prems" by (simp add: buffer_byte_ok c_def)
    show ?thesis
      using True c "1.prems" "1.IH"(1) [of c] "1.IH"(2) [of c]
      by (fastforce simp: step can_access_at_index_def)
  next
    case False
    then show ?thesis by (simp add: step can_access_at_index_def)
  qed
qed

lemma strtod_used: "snd (strtod s) \<le> length s"
  by (simp add: strtod_def split_def Let_def)

lemma parse_number_cases:
  assumes "wf_buffer b"
  obtains (ok) d b' where
      "parse_number f b = Inr (True, f\<lparr>i_valuedouble := d, i_valueint := saturate d, i_type := cJSON_Number\<rparr>, b')"
      "keeps 0 b b'" "progress b b'"
  | (fail) b' where "parse_number f b = Inr (False, f, b')" "keeps 0 b b'"
proof -
  obtain n p where n: "number_span b 0 False = Inr (n, p)" "n = 0 \<or> b_offset b + n \<le> b_length b"
    using number_span_ok [OF assms, of 0 False] by auto
  have len: "n \<le> length (drop (b_offset b) (b_content b))" using n(2) assms by (auto simp: wf_buffer_def)
  show ?thesis
  proof (cases rule: allocate_cases [of "n + 1" "b_heap b"])
    case (1 h')
    define chars where "chars = (if p then map (\<lambda>c. if c = 0x2E then get_decimal_point else c)
       (take n (drop (b_offset b) (b_content b))) else take n (drop (b_offset b) (b_content b)))"
    have "length chars = n" using len by (simp add: chars_def)
    then have used: "snd (strtod chars) \<le> n" using strtod_used [of chars] by simp
    let ?d = "fst (strtod chars)" and ?used = "snd (strtod chars)"
    let ?b1 = "b\<lparr>b_heap := deallocate h'\<rparr>"
    let ?f1 = "f\<lparr>i_valuedouble := ?d, i_valueint := saturate ?d, i_type := cJSON_Number\<rparr>"
    have "parse_number f b = (if ?used = 0 then Inr (False, f, ?b1) else Inr (True, ?f1, advance ?used ?b1))"
      using 1(1) len by (simp add: parse_number_def n(1) memcpy_def chars_def Let_def split_def)
    moreover have "keeps 0 b ?b1" "keeps 0 b (advance ?used ?b1)" using 1(2,3) by (simp_all add: keeps_def)
    moreover have "progress b (advance ?used ?b1)" if "?used \<noteq> 0"
      using that used n(2) by (auto simp: progress_def)
    ultimately show ?thesis using ok fail by (cases "?used = 0") simp_all
  next
    case (2 h')
    then show ?thesis using fail [of "b\<lparr>b_heap := h'\<rparr>"] by (simp add: parse_number_def n(1) keeps_def)
  qed
qed

lemma parse_string_cases:
  assumes "wf_buffer b" "b_offset b < b_length b"
  obtains (ok) str b' where
      "parse_string f b = Inr (True, f\<lparr>i_type := cJSON_String, i_valuestring := Some str\<rparr>, b')"
      "0 \<in> set str" "keeps 1 b b'" "progress b b'"
  | (fail) b' where "parse_string f b = Inr (False, f, b')" "keeps 0 b b'"
proof -
  have failed: thesis if "parse_string f b = Inr (False, f, b\<lparr>b_offset := p, b_heap := h\<rparr>)"
    "h_answer h = h_answer (b_heap b)" "h_live h = h_live (b_heap b)" for p h
    using fail [OF that(1)] that(2,3) by (simp add: keeps_def)
  let ?m = "b_content b" and ?p = "b_offset b + 1"
  have byte: "buffer_byte b 0 = Inr (?m ! b_offset b)" using assms by (simp add: buffer_byte_ok)
  show ?thesis
  proof (cases "?m ! b_offset b = 0x22")
    case False
    then show ?thesis by (intro failed [where p = ?p and h = "b_heap b"]) (simp_all add: parse_string_def byte)
  next
    case q: True
    obtain r where r: "scan_string ?m (b_length b) ?p 0 = Inr r"
      "\<And>e s. r = Some (e, s) \<Longrightarrow> ?p \<le> e \<and> e < b_length b \<and> s = escapes (segment ?m ?p e)"
      using scan_string_result [of "b_length b" ?m ?p 0] assms(1) by (auto simp: wf_buffer_def)
    show ?thesis
    proof (cases r)
      case None
      then show ?thesis using r(1) q
        by (intro failed [where p = ?p and h = "b_heap b"]) (simp_all add: parse_string_def byte)
    next
      case (Some es)
      obtain e s where es: "r = Some (e, s)" using Some by (cases es) auto
      note e = r(2) [OF es]
      define k where "k = e - b_offset b - s"
      have kd: "e - (b_offset b + s) = k" by (simp add: k_def)
      have in_bounds: "e < length ?m" using e assms(1) by (auto simp: wf_buffer_def)
      have "s \<le> escapes_near (segment ?m ?p e)" using e by (simp add: escapes_near_def)
      moreover have "2 * escapes_near (segment ?m ?p e) \<le> e - ?p"
        using escapes_near_length [of "segment ?m ?p e"] in_bounds by (simp add: length_segment)
      ultimately have "length ([] :: u8 list) + (e - ?p) < (k + 1) + escapes_near (segment ?m ?p e)"
        using e by (simp add: k_def)
      from unescape_result [OF in_bounds this] obtain p' res where
        u: "unescape ?m e (k + 1) ?p [] = Inr (p', res)" "\<And>out. res = Some out \<Longrightarrow> length out < k + 1"
        by blast
      show ?thesis
      proof (cases rule: allocate_cases [of "k + 1" "b_heap b"])
        case (1 h')
        show ?thesis
        proof (cases res)
          case None
          then show ?thesis using 1 r(1) es q u(1)
            by (intro failed [where p = p' and h = "deallocate h'"]) (simp_all add: parse_string_def byte Let_def kd)
        next
          case (Some out)
          let ?b1 = "b\<lparr>b_offset := e + 1, b_heap := h'\<rparr>"
          have "length out < k + 1" using u(2) Some by blast
          then have "parse_string f b =
              Inr (True, f\<lparr>i_type := cJSON_String, i_valuestring := Some (out @ [0])\<rparr>, ?b1)"
            using 1(1) r(1) es q u(1) Some by (simp add: parse_string_def byte Let_def kd put_bytes_def)
          moreover have "keeps 1 b ?b1" "progress b ?b1" using 1(2,3) e by (simp_all add: keeps_def progress_def)
          moreover have "0 \<in> set (out @ [0])" by simp
          ultimately show ?thesis by (intro ok)
        qed
      next
        case (2 h')
        then show ?thesis using r(1) es q
          by (intro failed [where p = ?p and h = h']) (simp_all add: parse_string_def byte Let_def kd)
      qed
    qed
  qed
qed

subsection \<open>The contract of a value parser\<close>

text \<open>
  The shape of a parsed item: the type says which of the other fields are set, members of an object
  have names and elements of an array have none, and a number has the saturated integer beside it.
\<close>

definition unnamed :: "cJSON \<Rightarrow> bool" where
  "unnamed c \<longleftrightarrow> i_string (item_of c) = None"

definition named :: "cJSON \<Rightarrow> bool" where
  "named c \<longleftrightarrow> (\<exists>s. i_string (item_of c) = Some s \<and> 0 \<in> set s)"

fun well_typed :: "cJSON \<Rightarrow> bool" where
  "well_typed (Item f cs) \<longleftrightarrow>
     (i_type f = cJSON_NULL \<or> i_type f = cJSON_False \<or> i_type f = cJSON_True \<and> i_valueint f = 1 \<or>
      i_type f = cJSON_Number \<and> i_valueint f = saturate (i_valuedouble f)) \<and> i_valuestring f = None \<and> cs = []
     \<or> i_type f = cJSON_String \<and> (\<exists>s. i_valuestring f = Some s \<and> 0 \<in> set s) \<and> cs = []
     \<or> i_type f = cJSON_Array \<and> i_valuestring f = None \<and>
         list_all (\<lambda>c. unnamed c \<and> well_typed c) cs
     \<or> i_type f = cJSON_Object \<and> i_valuestring f = None \<and>
         list_all (\<lambda>c. named c \<and> well_typed c) cs"

fun height :: "cJSON \<Rightarrow> nat" where
  "height (Item f cs) =
     (if i_type f = cJSON_Array \<or> i_type f = cJSON_Object then Suc (fold max (map height cs) 0) else 0)"

definition fresh :: "item \<Rightarrow> bool" where
  "fresh f \<longleftrightarrow> i_valuestring f = None \<and> (i_type f = cJSON_Invalid \<or> i_type f = cJSON_String)"

definition parsed :: "item \<Rightarrow> parse_buffer \<Rightarrow> (bool \<times> cJSON \<times> parse_buffer) outcome \<Rightarrow> bool" where
  "parsed f b r \<longleftrightarrow>
     (\<exists>ok it b'. r = Inr (ok, it, b') \<and> keeps (blocks it - blocks (Item f [])) b b' \<and> owned it \<and>
        i_string (item_of it) = i_string f \<and>
        (ok \<longrightarrow> progress b b' \<and> well_typed it \<and> height it + b_depth b \<le> CJSON_NESTING_LIMIT))"

definition elements ::
    "(cJSON \<Rightarrow> bool) \<Rightarrow> cJSON list \<Rightarrow> parse_buffer \<Rightarrow> (bool \<times> cJSON list \<times> parse_buffer) outcome \<Rightarrow> bool" where
  "elements P head b r \<longleftrightarrow>
     (\<exists>ok cs b'. r = Inr (ok, head @ cs, b') \<and> keeps (sum_list (map blocks cs)) b b' \<and> list_all owned cs \<and>
        (ok \<longrightarrow> progress b b' \<and> b_offset b' < b_length b' \<and>
           list_all (\<lambda>c. P c \<and> well_typed c \<and> height c + b_depth b \<le> CJSON_NESTING_LIMIT) cs))"

lemma keeps_trans: "keeps j a b \<Longrightarrow> keeps k b c \<Longrightarrow> keeps (j + k) a c"
  by (simp add: keeps_def)

lemma keeps_simps [simp]:
  "keeps k b (advance i c) = keeps k b c" "keeps k b (c\<lparr>b_depth := d\<rparr>) = keeps k b c"
  "keeps k b (step_back c) = keeps k b c"
  "keeps k (advance i b) c = keeps k b c" "keeps k (b\<lparr>b_depth := d\<rparr>) c = keeps k b c"
  "keeps k (step_back b) c = keeps k b c" "keeps 0 b b"
  by (simp_all add: keeps_def)

lemma keeps_wf: "keeps k b b' \<Longrightarrow> wf_buffer b' = wf_buffer b" "keeps k b b' \<Longrightarrow> b_length b' = b_length b"
  by (simp_all add: keeps_def wf_buffer_def)

lemma elements_Nil: "keeps 0 b b' \<Longrightarrow> elements P head b (Inr (False, head, b'))"
  by (auto simp: elements_def intro: exI [of _ False])

lemma elements_fail:
  "keeps (blocks it) b b' \<Longrightarrow> owned it \<Longrightarrow> elements P head b (Inr (False, head @ [it], b'))"
  by (auto simp: elements_def intro: exI [of _ False])

lemma elements_last:
  assumes "keeps (blocks it) b b'" "owned it" "P it" "well_typed it" "height it + b_depth b \<le> CJSON_NESTING_LIMIT"
    "ok \<Longrightarrow> progress b b' \<and> b_offset b' < b_length b'"
  shows "elements P head b (Inr (ok, head @ [it], b'))"
  using assms by (simp add: elements_def)

lemma elements_step:
  assumes "elements P (head @ [it]) b1 r" "keeps (blocks it) b b1" "owned it" "P it" "well_typed it"
    "height it + b_depth b \<le> CJSON_NESTING_LIMIT" "b_offset b < b_offset b1" "b_depth b1 = b_depth b"
  shows "elements P head b r"
proof -
  obtain ok cs b' where r: "r = Inr (ok, (head @ [it]) @ cs, b')" "keeps (sum_list (map blocks cs)) b1 b'"
    "list_all owned cs"
    "ok \<longrightarrow> progress b1 b' \<and> b_offset b' < b_length b' \<and>
       list_all (\<lambda>c. P c \<and> well_typed c \<and> height c + b_depth b1 \<le> CJSON_NESTING_LIMIT) cs"
    using assms(1) unfolding elements_def by blast
  have "keeps (sum_list (map blocks (it # cs))) b b'" using keeps_trans [OF assms(2) r(2)] by simp
  moreover have "list_all owned (it # cs)" using assms(3) r(3) by simp
  moreover have "r = Inr (ok, head @ (it # cs), b')" using r(1) by simp
  moreover have "ok \<longrightarrow> progress b b' \<and> b_offset b' < b_length b' \<and>
       list_all (\<lambda>c. P c \<and> well_typed c \<and> height c + b_depth b \<le> CJSON_NESTING_LIMIT) (it # cs)"
    using r(4) assms(4-8) by (auto simp: progress_def)
  ultimately show ?thesis unfolding elements_def by blast
qed

lemma fresh_zero [simp]: "fresh zero_item"
  by (simp add: fresh_def zero_item_def)

lemma blocks_zero [simp]: "blocks (Item zero_item []) = 1" "i_string zero_item = None"
  by (simp_all add: zero_item_def)

lemma elements_container:
  assumes "elements P [] b r" "b_depth b = Suc (b_depth b0)" "keeps 0 b0 b" "b_offset b0 \<le> b_offset b"
    "b_depth b0 < CJSON_NESTING_LIMIT" "fresh f"
    "t = cJSON_Array \<and> P = unnamed \<or> t = cJSON_Object \<and> P = named"
  shows "parsed f b0
     (bind_res r (\<lambda>(ok, head, b).
        if ok then Inr (True, Item (f\<lparr>i_type := t\<rparr>) head, advance (Suc 0) (b\<lparr>b_depth := b_depth b - Suc 0\<rparr>))
        else Inr (False, Item f [], b\<lparr>b_heap := cJSON_Delete head (b_heap b)\<rparr>)))"
proof -
  obtain ok cs b' where r: "r = Inr (ok, cs, b')" "keeps (sum_list (map blocks cs)) b b'" "list_all owned cs"
    "ok \<longrightarrow> progress b b' \<and> b_offset b' < b_length b' \<and>
       list_all (\<lambda>c. P c \<and> well_typed c \<and> height c + b_depth b \<le> CJSON_NESTING_LIMIT) cs"
    using assms(1) by (auto simp: elements_def)
  have k: "keeps (sum_list (map blocks cs)) b0 b'" using keeps_trans [OF assms(3) r(2)] by simp
  show ?thesis
  proof (cases ok)
    case True
    have "owned (Item (f\<lparr>i_type := t\<rparr>) cs)" using r(3) assms(7) by auto
    moreover have "fold max (map height cs) 0 + b_depth b \<le> CJSON_NESTING_LIMIT"
      if "list_all (\<lambda>c. height c + b_depth b \<le> CJSON_NESTING_LIMIT) cs"
    proof -
      have "x + b_depth b \<le> CJSON_NESTING_LIMIT \<Longrightarrow> fold max (map height cs) x + b_depth b \<le> CJSON_NESTING_LIMIT" for x
        using that by (induction cs arbitrary: x) auto
      then show ?thesis using assms(2,5) by simp
    qed
    ultimately show ?thesis using r(1,4) True k assms(2,4-7)
      by (auto simp: parsed_def progress_def fresh_def list.pred_set)
  next
    case False
    then show ?thesis using r(1,3) k cJSON_Delete_owned [of cs "b_heap b'"] assms(6)
      by (auto simp: parsed_def keeps_def fresh_def intro!: exI [of _ False])
  qed
qed

text \<open>Behind an element: another one, or the end.\<close>

lemma elements_tail:
  assumes "keeps (blocks it) b b3" "owned it" "P it" "well_typed it" "height it + b_depth b \<le> CJSON_NESTING_LIMIT"
    "wf_buffer b3" "b_offset b < b_offset b3" "b_offset b3 \<le> b_length b3" "b_depth b3 = b_depth b"
    and again: "\<And>b4. wf_buffer b4 \<Longrightarrow> b_offset b < b_offset b4 \<Longrightarrow> b_offset b4 < b_length b4 \<Longrightarrow>
      b_depth b4 = b_depth b \<Longrightarrow> b_length b4 = b_length b \<Longrightarrow> elements P (head @ [it]) b4 (loop b4)"
  shows "elements P head b
     (bind_res (buffer_skip_whitespace b3) (\<lambda>b.
      bind_res (sees b 0x2C) (\<lambda>comma.
      if comma then loop b
      else bind_res (sees b c) (\<lambda>closed. Inr (closed, head @ [it], b)))))"
    (is "elements P head b ?r")
proof -
  define b4 where "b4 = advance (skipped b3) b3"
  have b4: "keeps (blocks it) b b4" "wf_buffer b4" "b_depth b4 = b_depth b" "b_offset b < b_offset b4"
      "b_offset b4 \<le> b_length b4"
    using assms(1,6-9) skipped_bounds [of b3] by (simp_all add: b4_def) linarith
  have "buffer_skip_whitespace b3 = Inr b4" using buffer_skip_whitespace_ok [OF assms(6)] by (simp add: b4_def)
  note r = this sees_ok [OF b4(2)]
  show ?thesis
  proof (cases "b_offset b4 < b_length b4 \<and> b_content b4 ! b_offset b4 = 0x2C")
    case True
    then have "elements P (head @ [it]) b4 (loop b4)" using again b4 keeps_wf(2) [OF b4(1)] by simp
    then show ?thesis using True elements_step [where P = P, OF _ b4(1) assms(2-5)] b4 by (simp add: r)
  next
    case False
    let ?closed = "b_offset b4 < b_length b4 \<and> b_content b4 ! b_offset b4 = c"
    have "?r = Inr (?closed, head @ [it], b4)" using False by (auto simp: r)
    moreover have "elements P head b (Inr (?closed, head @ [it], b4))"
      by (rule elements_last [where P = P, OF b4(1) assms(2-5)]) (use b4 in \<open>simp_all add: progress_def\<close>)
    ultimately show ?thesis by simp
  qed
qed

lemma elements_fail_zero:
  "keeps 1 b b' \<Longrightarrow> elements P head b (Inr (False, head @ [Item zero_item []], b'))"
  by (rule elements_fail) (simp_all add: zero_item_def)

locale value_parser =
  fixes pv :: "item \<Rightarrow> parse_buffer \<Rightarrow> (bool \<times> cJSON \<times> parse_buffer) outcome" and room :: nat
  assumes pv_parsed:
    "wf_buffer b \<Longrightarrow> b_depth b \<le> CJSON_NESTING_LIMIT \<Longrightarrow> CJSON_NESTING_LIMIT < b_depth b + room \<Longrightarrow>
       fresh f \<Longrightarrow> parsed f b (pv f b)"
begin

lemma array_loop_elements:
  assumes "wf_buffer b" "b_offset b < b_length b" "b_length b < n + b_offset b"
    "b_depth b \<le> CJSON_NESTING_LIMIT" "CJSON_NESTING_LIMIT < b_depth b + room"
  shows "elements unnamed head b (array_loop pv n head b)"
  using assms
proof (induction n arbitrary: head b)
  case 0
  then show ?case by simp
next
  case (Suc n)
  show ?case
  proof (cases rule: cJSON_New_Item_cases [of "b_heap b"])
    case (2 h)
    then have "keeps 0 b (b\<lparr>b_heap := h\<rparr>)" by (simp add: keeps_def)
    then show ?thesis using 2(1) elements_Nil by (simp add: array_loop.simps(2))
  next
    case (1 h)
    define b1 where "b1 = advance 1 (b\<lparr>b_heap := h\<rparr>)"
    define b2 where "b2 = advance (skipped b1) b1"
    have k2: "keeps 1 b b2" using 1 by (simp add: b1_def b2_def keeps_def)
    have wf1: "wf_buffer b1" using Suc.prems(1) by (simp add: b1_def)
    have d2: "b_depth b2 = b_depth b" "b_offset b < b_offset b2" by (simp_all add: b1_def b2_def)
    have "parsed zero_item b2 (pv zero_item b2)"
      by (rule pv_parsed) (use wf1 d2 Suc.prems in \<open>simp_all add: b2_def\<close>)
    then obtain ok it b3 where pv: "pv zero_item b2 = Inr (ok, it, b3)" "keeps (blocks it - 1) b2 b3" "owned it"
      "unnamed it"
      "ok \<Longrightarrow> progress b2 b3 \<and> well_typed it \<and> height it + b_depth b2 \<le> CJSON_NESTING_LIMIT"
      by (auto simp: parsed_def zero_item_def unnamed_def)
    have k3: "keeps (blocks it) b b3" using keeps_trans [OF k2 pv(2)] by simp
    have wf3: "wf_buffer b3" using keeps_wf(1) [OF k3] Suc.prems(1) by simp
    have "buffer_skip_whitespace (advance (Suc 0) (b\<lparr>b_heap := h\<rparr>)) = Inr b2"
      using buffer_skip_whitespace_ok [OF wf1] by (simp add: b1_def b2_def)
    note loop = 1(1) this pv(1)
    show ?thesis
    proof (cases ok)
      case False
      then have "array_loop pv (Suc n) head b = Inr (False, head @ [it], b3)" by (simp add: array_loop.simps(2) loop)
      then show ?thesis using elements_fail [OF k3 pv(3)] by simp
    next
      case True
      note ok = pv(5) [OF True]
      have h: "height it + b_depth b \<le> CJSON_NESTING_LIMIT" using ok d2(1) by simp
      have "array_loop pv (Suc n) head b =
         (bind_res (buffer_skip_whitespace b3) (\<lambda>b.
          bind_res (sees b 0x2C) (\<lambda>comma.
          if comma then array_loop pv n (head @ [it]) b
          else bind_res (sees b 0x5D) (\<lambda>closed. Inr (closed, head @ [it], b)))))"
        using True by (simp add: array_loop.simps(2) loop)
      also have "elements unnamed head b \<dots>"
        by (intro elements_tail [where P = unnamed, OF k3 pv(3,4)] Suc.IH)
          (use ok h wf3 d2 Suc.prems in \<open>auto simp: progress_def\<close>)
      finally show ?thesis .
    qed
  qed
qed

lemma parse_array_parsed:
  assumes "wf_buffer b" "b_offset b < b_length b" "b_depth b \<le> CJSON_NESTING_LIMIT"
    "CJSON_NESTING_LIMIT \<le> b_depth b + room" "fresh f"
  shows "parsed f b (parse_array pv f b)"
proof (cases "CJSON_NESTING_LIMIT \<le> b_depth b")
  case True
  then show ?thesis using assms(5)
    by (auto simp: parse_array_def parsed_def fresh_def intro!: exI [of _ False])
next
  case False
  define b1 where "b1 = b\<lparr>b_depth := Suc (b_depth b)\<rparr>"
  define b2 where "b2 = advance (skipped (advance 1 b1)) (advance 1 b1)"
  have wf: "wf_buffer (advance 1 b1)" "wf_buffer b2" using assms(1) by (simp_all add: b1_def b2_def)
  have byte: "buffer_byte b1 0 = Inr (b_content b ! b_offset b)"
    using buffer_byte_ok [of b1 0] assms(1,2) by (simp add: b1_def)
  have skip: "buffer_skip_whitespace (advance (Suc 0) b1) = Inr b2"
    using buffer_skip_whitespace_ok [OF wf(1)] by (simp add: b2_def)
  have k: "keeps 0 b b1" "keeps 0 b b2" "keeps 0 b (step_back b2\<lparr>b_heap := b_heap b2\<rparr>)"
    by (simp_all add: b1_def b2_def keeps_def)
  have failed: "parsed f b (Inr (False, Item f [], b'))" if "keeps 0 b b'" for b'
    using that assms(5) by (auto simp: parsed_def fresh_def intro!: exI [of _ False])
  note unfolded = parse_array_def False b1_def [symmetric] byte skip sees_ok [OF wf(2)] Let_def
  show ?thesis
  proof (cases "b_content b ! b_offset b = 0x5B \<and> b_offset b2 < b_length b2 \<and> b_content b2 ! b_offset b2 \<noteq> 0x5D")
    case True
    let ?r = "array_loop pv (Suc (b_length b2)) [] (step_back b2)"
    have "elements unnamed [] (step_back b2) ?r"
      by (rule array_loop_elements)
        (use wf(2) True False assms(4) in \<open>simp_all add: b1_def b2_def\<close>)
    then have "parsed f b (bind_res ?r (\<lambda>(ok, head, b).
        if ok then Inr (True, Item (f\<lparr>i_type := cJSON_Array\<rparr>) head, advance (Suc 0) (b\<lparr>b_depth := b_depth b - Suc 0\<rparr>))
        else Inr (False, Item f [], b\<lparr>b_heap := cJSON_Delete head (b_heap b)\<rparr>)))"
      by (rule elements_container) (use False assms(5) k in \<open>simp_all add: b1_def b2_def\<close>)
    then show ?thesis using True by (auto simp: unfolded can_access_at_index_def)
  next
    case neg: False
    show ?thesis
    proof (cases "b_content b ! b_offset b = 0x5B \<and> b_offset b2 < b_length b2")
      case True
      then have "parse_array pv f b =
          Inr (True, Item (f\<lparr>i_type := cJSON_Array\<rparr>) [], advance 1 (b2\<lparr>b_depth := b_depth b2 - 1\<rparr>))"
        using neg by (simp add: unfolded)
      then show ?thesis using k True assms(5) False
        by (auto simp: parsed_def progress_def fresh_def b1_def b2_def)
    next
      case False
      then show ?thesis using k
        by (auto simp: unfolded can_access_at_index_def intro!: failed)
    qed
  qed
qed

lemma object_loop_elements:
  assumes "wf_buffer b" "b_offset b < b_length b" "b_length b < n + b_offset b"
    "b_depth b \<le> CJSON_NESTING_LIMIT" "CJSON_NESTING_LIMIT < b_depth b + room"
  shows "elements named head b (object_loop pv n head b)"
  using assms
proof (induction n arbitrary: head b)
  case 0
  then show ?case by simp
next
  case (Suc n)
  show ?case
  proof (cases rule: cJSON_New_Item_cases [of "b_heap b"])
    case (2 h)
    then have "keeps 0 b (b\<lparr>b_heap := h\<rparr>)" by (simp add: keeps_def)
    then show ?thesis using 2(1) elements_Nil by (simp add: object_loop.simps(2))
  next
    case (1 h)
    let ?b0 = "b\<lparr>b_heap := h\<rparr>"
    have k0: "keeps 1 b ?b0" using 1 by (simp add: keeps_def)
    show ?thesis
    proof (cases "can_access_at_index ?b0 1")
      case False
      then have "object_loop pv (Suc n) head b = Inr (False, head @ [Item zero_item []], ?b0)"
        by (simp add: object_loop.simps(2) 1(1))
      then show ?thesis using elements_fail_zero [OF k0] by simp
    next
      case more: True
      define b1 where "b1 = advance (skipped (advance 1 ?b0)) (advance 1 ?b0)"
      have wf1: "wf_buffer (advance 1 ?b0)" "wf_buffer b1" using Suc.prems(1) by (simp_all add: b1_def)
      have b1: "b_offset b < b_offset b1" "b_offset b1 < b_length b1" "b_depth b1 = b_depth b"
        using skipped_bounds(1) [OF wf1(1)] more by (simp_all add: b1_def can_access_at_index_def)
      have k1: "keeps 1 b b1" using k0 by (simp add: b1_def)
      have skip1: "buffer_skip_whitespace (advance (Suc 0) ?b0) = Inr b1"
        using buffer_skip_whitespace_ok [OF wf1(1)] by (simp add: b1_def)
      note step1 = object_loop.simps(2) 1(1) more skip1 Let_def
      from wf1(2) b1(2) show ?thesis
      proof (rule parse_string_cases [where f = zero_item], goal_cases)
        case fail: (2 b2)
        have "keeps 1 b b2" using keeps_trans [OF k1 fail(2)] by simp
        moreover have "object_loop pv (Suc n) head b = Inr (False, head @ [Item zero_item []], b2)"
          using more by (simp add: step1 fail(1))
        ultimately show ?thesis using elements_fail_zero by simp
      next
        case ok: (1 key b2)
        define f where "f = zero_item\<lparr>i_type := cJSON_String, i_valuestring := None, i_string := Some key\<rparr>"
        have f: "fresh f" "blocks (Item f []) = 2" "i_string f = Some key" "owned (Item f [])"
          by (simp_all add: f_def fresh_def zero_item_def)
        define b3 where "b3 = advance (skipped b2) b2"
        have k2: "keeps 2 b b2" using keeps_trans [OF k1 ok(3)] by simp
        then have k3: "keeps 2 b b3" by (simp add: b3_def)
        have wf2: "wf_buffer b2" "wf_buffer b3" using keeps_wf(1) [OF k2] Suc.prems(1) by (simp_all add: b3_def)
        have b3: "b_offset b < b_offset b3" "b_depth b3 = b_depth b" using ok(4) b1 by (simp_all add: b3_def progress_def)
        have skip2: "buffer_skip_whitespace b2 = Inr b3"
          using buffer_skip_whitespace_ok [OF wf2(1)] by (simp add: b3_def)
        have "(zero_item\<lparr>i_type := cJSON_String, i_valuestring := Some key, i_string := Some key,
            i_valuestring := None\<rparr>) = f" by (simp add: f_def)
        note step2 = step1 ok(1) skip2 sees_ok [OF wf2(2)] this f_def [symmetric]
        show ?thesis
        proof (cases "b_offset b3 < b_length b3 \<and> b_content b3 ! b_offset b3 = 0x3A")
          case False
          then have "object_loop pv (Suc n) head b = Inr (False, head @ [Item f []], b3)"
            using more by (auto simp: step2)
          moreover have "keeps (blocks (Item f [])) b b3" using k3 f(2) by metis
          ultimately show ?thesis using elements_fail [OF _ f(4)] by metis
        next
          case colon: True
          define b4 where "b4 = advance (skipped (advance 1 b3)) (advance 1 b3)"
          have k4: "keeps 2 b b4" using k3 by (simp add: b4_def)
          have wf4: "wf_buffer (advance 1 b3)" "wf_buffer b4" using wf2(2) by (simp_all add: b4_def)
          have b4: "b_offset b < b_offset b4" "b_depth b4 = b_depth b" using b3 by (simp_all add: b4_def)
          have skip4: "buffer_skip_whitespace (advance (Suc 0) b3) = Inr b4"
            using buffer_skip_whitespace_ok [OF wf4(1)] by (simp add: b4_def)
          have "parsed f b4 (pv f b4)"
            by (rule pv_parsed) (use wf4(2) b4 Suc.prems f(1) in simp_all)
          then obtain fin it b5 where pv: "pv f b4 = Inr (fin, it, b5)" "keeps (blocks it - 2) b4 b5" "owned it"
            "named it"
            "fin \<Longrightarrow> progress b4 b5 \<and> well_typed it \<and> height it + b_depth b4 \<le> CJSON_NESTING_LIMIT"
            using f(2,3) ok(2) by (auto simp: parsed_def named_def)
          have k5: "keeps (blocks it) b b5" using keeps_trans [OF k4 pv(2)] by simp
          have wf5: "wf_buffer b5" using keeps_wf(1) [OF k5] Suc.prems(1) by simp
          note step4 = step2 skip4 pv(1)
          show ?thesis
          proof (cases fin)
            case False
            then have "object_loop pv (Suc n) head b = Inr (False, head @ [it], b5)"
              using more colon by (simp add: step4)
            then show ?thesis using elements_fail [OF k5 pv(3)] by simp
          next
            case True
            note good = pv(5) [OF True]
            have "object_loop pv (Suc n) head b =
               (bind_res (buffer_skip_whitespace b5) (\<lambda>b.
                bind_res (sees b 0x2C) (\<lambda>comma.
                if comma then object_loop pv n (head @ [it]) b
                else bind_res (sees b 0x7D) (\<lambda>closed. Inr (closed, head @ [it], b)))))"
              using more colon True by (simp add: step4)
            also have "elements named head b \<dots>"
              by (intro elements_tail [where P = named, OF k5 pv(3,4)] Suc.IH)
                (use good wf5 b4 Suc.prems in \<open>auto simp: progress_def\<close>)
            finally show ?thesis .
          qed
        qed
      qed
    qed
  qed
qed

lemma parse_object_parsed:
  assumes "wf_buffer b" "b_offset b < b_length b" "b_depth b \<le> CJSON_NESTING_LIMIT"
    "CJSON_NESTING_LIMIT \<le> b_depth b + room" "fresh f"
  shows "parsed f b (parse_object pv f b)"
proof (cases "CJSON_NESTING_LIMIT \<le> b_depth b")
  case True
  then show ?thesis using assms(5)
    by (auto simp: parse_object_def parsed_def fresh_def intro!: exI [of _ False])
next
  case False
  define b1 where "b1 = b\<lparr>b_depth := Suc (b_depth b)\<rparr>"
  define b2 where "b2 = advance (skipped (advance 1 b1)) (advance 1 b1)"
  have wf: "wf_buffer (advance 1 b1)" "wf_buffer b2" using assms(1) by (simp_all add: b1_def b2_def)
  have byte: "sees b1 0x7B = Inr (b_content b ! b_offset b = 0x7B)"
    using sees_ok [of b1 "0x7B"] assms(1,2) by (simp add: b1_def)
  have skip: "buffer_skip_whitespace (advance (Suc 0) b1) = Inr b2"
    using buffer_skip_whitespace_ok [OF wf(1)] by (simp add: b2_def)
  have k: "keeps 0 b b1" "keeps 0 b b2" "keeps 0 b (step_back b2\<lparr>b_heap := b_heap b2\<rparr>)"
    by (simp_all add: b1_def b2_def keeps_def)
  have failed: "parsed f b (Inr (False, Item f [], b'))" if "keeps 0 b b'" for b'
    using that assms(5) by (auto simp: parsed_def fresh_def intro!: exI [of _ False])
  note unfolded = parse_object_def False b1_def [symmetric] byte skip sees_ok [OF wf(2)] Let_def
  show ?thesis
  proof (cases "b_content b ! b_offset b = 0x7B \<and> b_offset b2 < b_length b2 \<and> b_content b2 ! b_offset b2 \<noteq> 0x7D")
    case True
    let ?r = "object_loop pv (Suc (b_length b2)) [] (step_back b2)"
    have "elements named [] (step_back b2) ?r"
      by (rule object_loop_elements)
        (use wf(2) True False assms(4) in \<open>simp_all add: b1_def b2_def\<close>)
    then have "parsed f b (bind_res ?r (\<lambda>(ok, head, b).
        if ok then Inr (True, Item (f\<lparr>i_type := cJSON_Object\<rparr>) head, advance (Suc 0) (b\<lparr>b_depth := b_depth b - Suc 0\<rparr>))
        else Inr (False, Item f [], b\<lparr>b_heap := cJSON_Delete head (b_heap b)\<rparr>)))"
      by (rule elements_container) (use False assms(5) k in \<open>simp_all add: b1_def b2_def\<close>)
    then show ?thesis using True by (auto simp: unfolded can_access_at_index_def)
  next
    case neg: False
    show ?thesis
    proof (cases "b_content b ! b_offset b = 0x7B \<and> b_offset b2 < b_length b2")
      case True
      then have "parse_object pv f b =
          Inr (True, Item (f\<lparr>i_type := cJSON_Object\<rparr>) [], advance 1 (b2\<lparr>b_depth := b_depth b2 - 1\<rparr>))"
        using neg by (simp add: unfolded)
      then show ?thesis using k True assms(5) False
        by (auto simp: parsed_def progress_def fresh_def b1_def b2_def)
    next
      case False
      then show ?thesis using k
        by (auto simp: unfolded can_access_at_index_def intro!: failed)
    qed
  qed
qed

end

subsection \<open>Values and documents\<close>

lemma lift_item_parsed:
  assumes "r = Inr (ok, f', b')" "parsed f b (Inr (ok, Item f' [], b'))"
  shows "parsed f b (lift_item r)"
  using assms by (simp add: lift_item_def)

lemma parsed_ok:
  assumes "keeps k b b'" "owned it" "i_string (item_of it) = i_string f" "progress b b'" "well_typed it"
    "height it + b_depth b \<le> CJSON_NESTING_LIMIT" "k = blocks it - blocks (Item f [])"
  shows "parsed f b (Inr (True, it, b'))"
  using assms unfolding parsed_def by blast

lemma literal_parsed:
  assumes "fresh f" "b_offset b + k \<le> b_length b" "0 < k" "b_depth b \<le> CJSON_NESTING_LIMIT"
    "f' = f\<lparr>i_type := cJSON_NULL\<rparr> \<or> f' = f\<lparr>i_type := cJSON_False\<rparr> \<or> f' = f\<lparr>i_type := cJSON_True, i_valueint := 1\<rparr>"
  shows "parsed f b (Inr (True, Item f' [], advance k b))"
proof -
  have f': "i_valuestring f' = None" "i_string f' = i_string f" "i_valuestring f = None"
    "i_type f' = cJSON_NULL \<or> i_type f' = cJSON_False \<or> i_type f' = cJSON_True \<and> i_valueint f' = 1"
    using assms(1,5) by (auto simp: fresh_def)
  have "keeps 0 b (advance k b)" "progress b (advance k b)" using assms(2,3) by (simp_all add: progress_def)
  then show ?thesis using f' assms(4)
    by (intro parsed_ok [where k = 0]) auto
qed

lemma parsed_fail: "fresh f \<Longrightarrow> keeps 0 b b' \<Longrightarrow> parsed f b (Inr (False, Item f [], b'))"
  by (auto simp: parsed_def fresh_def intro!: exI [of _ False])

lemma parse_value_parser: "value_parser (parse_value n) n"
proof (induction n)
  case 0
  show ?case by unfold_locales simp
next
  case (Suc n)
  note array = value_parser.parse_array_parsed [OF Suc.IH]
  note object = value_parser.parse_object_parsed [OF Suc.IH]
  show ?case
  proof (unfold_locales, goal_cases)
    case (1 b f)
    note wf = \<open>wf_buffer b\<close> and depth = \<open>b_depth b \<le> CJSON_NESTING_LIMIT\<close> and fresh = \<open>fresh f\<close>
    have room: "CJSON_NESTING_LIMIT \<le> b_depth b + n" using 1(3) by simp
    have words: "0 \<notin> set (lit ''null'')" "0 \<notin> set (lit ''false'')" "0 \<notin> set (lit ''true'')"
      "length (lit ''null'') = 4" "length (lit ''false'') = 5" "length (lit ''true'') = 4"
      by (simp_all add: lit_def)
    let ?word = "\<lambda>s. b_offset b + length s \<le> b_length b \<and> take (length s) (drop (b_offset b) (b_content b)) = s"
    note unfolded = parse_value.simps(2) reads_ok [OF wf words(1)] reads_ok [OF wf words(2)] reads_ok [OF wf words(3)]
      bind_res_Inr
    consider (word) "?word (lit ''null'') \<or> ?word (lit ''false'') \<or> ?word (lit ''true'')"
      | (past) "\<not> ?word (lit ''null'')" "\<not> ?word (lit ''false'')" "\<not> ?word (lit ''true'')" "b_length b \<le> b_offset b"
      | (inside) "\<not> ?word (lit ''null'')" "\<not> ?word (lit ''false'')" "\<not> ?word (lit ''true'')" "b_offset b < b_length b"
      by linarith
    then show ?case
    proof cases
      case word
      then show ?thesis using fresh depth words(4-6)
        by (auto simp: unfolded intro!: literal_parsed)
    next
      case past
      then show ?thesis using parsed_fail [OF fresh]
        by (simp only: unfolded if_False not_False_eq_True if_True can_access_at_index_def)
          (simp add: not_less)
    next
      case inside
      define c where "c = b_content b ! b_offset b"
      have byte: "buffer_byte b 0 = Inr c" using buffer_byte_ok [OF wf, of 0] inside(4) by (simp add: c_def)
      have eq: "parse_value (Suc n) f b =
         (if c = 0x22 then lift_item (parse_string f b)
          else if c = 0x2D \<or> digit c then lift_item (parse_number f b)
          else if c = 0x5B then parse_array (parse_value n) f b
          else if c = 0x7B then parse_object (parse_value n) f b
          else Inr (False, Item f [], b))"
        using inside by (simp only: unfolded if_False can_access_at_index_def byte) simp
      have str: "parsed f b (lift_item (parse_string f b))"
        using wf inside(4)
      proof (rule parse_string_cases [where f = f], goal_cases)
        case (1 str b')
        have "parsed f b (Inr (True, Item (f\<lparr>i_type := cJSON_String, i_valuestring := Some str\<rparr>) [], b'))"
          by (rule parsed_ok [OF 1(3)]) (use 1(2,4) fresh depth in \<open>auto simp: fresh_def\<close>)
        then show ?case by (rule lift_item_parsed [OF 1(1)])
      next
        case (2 b')
        show ?case by (rule lift_item_parsed [OF 2(1) parsed_fail [OF fresh 2(2)]])
      qed
      have num: "parsed f b (lift_item (parse_number f b))"
        using wf
      proof (rule parse_number_cases [where f = f], goal_cases)
        case (1 d b')
        have "parsed f b (Inr (True, Item (f\<lparr>i_valuedouble := d, i_valueint := saturate d,
            i_type := cJSON_Number\<rparr>) [], b'))"
          by (rule parsed_ok [OF 1(2)]) (use 1(3) fresh depth in \<open>auto simp: fresh_def\<close>)
        then show ?case by (rule lift_item_parsed [OF 1(1)])
      next
        case (2 b')
        show ?case by (rule lift_item_parsed [OF 2(1) parsed_fail [OF fresh 2(2)]])
      qed
      show ?thesis
        unfolding eq using str num parsed_fail [OF fresh] array [OF wf inside(4) depth room fresh]
          object [OF wf inside(4) depth room fresh]
        by (simp split: if_split)
    qed
  qed
qed

interpretation pv: value_parser "parse_value n" n for n
  by (rule parse_value_parser)


text \<open>
  What the whole call promises. Where it fails everything is freed and the error position is inside the
  text; where it succeeds the caller owns the blocks of the tree and no others.
\<close>

definition document :: "u8 list \<Rightarrow> nat \<Rightarrow> bool \<Rightarrow> bool \<Rightarrow> heap \<Rightarrow> parse_result \<Rightarrow> bool" where
  "document content len want_end require_nt h r \<longleftrightarrow> h_answer (r_heap r) = h_answer h \<and>
     (case r_item r of
        None \<Rightarrow>
          h_live (r_heap r) = h_live h \<and>
          (\<exists>p. r_error r = Some p \<and> (p < len \<or> len = 0 \<and> p = 0) \<and> r_end r = (if want_end then Some p else None))
      | Some it \<Rightarrow>
          well_typed it \<and> unnamed it \<and> owned it \<and> height it \<le> CJSON_NESTING_LIMIT \<and>
          h_live (r_heap r) = h_live h + blocks it \<and> r_error r = None \<and>
          (\<exists>e. 0 < e \<and> e \<le> len \<and> r_end r = (if want_end then Some e else None) \<and>
             (require_nt \<longrightarrow> e < len \<and> content ! e = 0)))"

lemma skip_utf8_bom_ok:
  assumes "wf_buffer b" "b_offset b = 0"
  shows "\<exists>k. skip_utf8_bom b = Inr (Some (advance k b)) \<and> (k = 0 \<or> k = 3 \<and> 4 < b_length b)"
proof (cases "4 < b_length b")
  case True
  then have "length [0xEF, 0xBB, 0xBF :: u8] \<le> length (b_content b)" using assms(1) by (simp add: wf_buffer_def)
  from strncmp_literal [OF this] obtain i where "strncmp (b_content b) [0xEF, 0xBB, 0xBF] 3 = Inr i"
    by (auto simp: numeral_3_eq_3)
  then show ?thesis using True assms(2)
    by (cases "i = 0") (auto simp: skip_utf8_bom_def can_access_at_index_def intro: exI [of _ 0])
next
  case False
  then show ?thesis using assms(2) by (auto simp: skip_utf8_bom_def can_access_at_index_def intro: exI [of _ 0])
qed

lemma parse_document:
  assumes "len \<le> length content"
  shows "\<exists>r. cJSON_ParseWithLengthOpts (Some content) len we nt h = Inr r \<and> document content len we nt h r"
proof (cases "len = 0")
  case True
  then show ?thesis by (simp add: cJSON_ParseWithLengthOpts_def document_def)
next
  case len: False
  show ?thesis
  proof (cases rule: cJSON_New_Item_cases [of h])
    case (2 h1)
    then show ?thesis using len by (simp add: cJSON_ParseWithLengthOpts_def document_def)
  next
    case (1 h1)
    define b where "b = \<lparr>b_content = content, b_length = len, b_offset = 0, b_depth = 0, b_heap = h1\<rparr>"
    have wf: "wf_buffer b" using assms by (simp add: b_def wf_buffer_def)
    obtain k where bom: "skip_utf8_bom b = Inr (Some (advance k b))"
      using skip_utf8_bom_ok [OF wf] by (auto simp: b_def)
    define b1 where "b1 = advance (skipped (advance k b)) (advance k b)"
    have skip: "buffer_skip_whitespace (advance k b) = Inr b1"
      using buffer_skip_whitespace_ok [of "advance k b"] wf by (simp add: b1_def)
    have "parsed zero_item b1 (parse_value (Suc CJSON_NESTING_LIMIT) zero_item b1)"
      by (rule pv.pv_parsed) (use wf in \<open>simp_all add: b1_def b_def\<close>)
    then obtain ok it b2 where pv: "parse_value (Suc CJSON_NESTING_LIMIT) zero_item b1 = Inr (ok, it, b2)"
      "keeps (blocks it - 1) b1 b2" "owned it" "unnamed it"
      "ok \<Longrightarrow> progress b1 b2 \<and> well_typed it \<and> height it \<le> CJSON_NESTING_LIMIT"
      by (auto simp: parsed_def unnamed_def zero_item_def b1_def b_def)
    have k2: "keeps (blocks it - 1) b b2" using pv(2) by (simp add: b1_def)
    have len2: "b_content b2 = content" "b_length b2 = len" using k2 by (simp_all add: keeps_def b_def)
    have wf2: "wf_buffer b2" using keeps_wf(1) [OF k2] wf by simp
    define b3 where "b3 = advance (skipped b2) b2"
    have skip2: "buffer_skip_whitespace b2 = Inr b3" using buffer_skip_whitespace_ok [OF wf2] by (simp add: b3_def)
    have len3: "b_content b3 = content" "b_length b3 = len" "wf_buffer b3" "b_heap b3 = b_heap b2" "b_offset b2 \<le> b_offset b3"
      using len2 wf2 by (simp_all add: b3_def)
    have live: "h_live (b_heap b2) = h_live h + blocks it" "h_answer (b_heap b2) = h_answer h"
      using k2 1(2,3) by (simp_all add: keeps_def b_def)
    have deleted: "h_live (cJSON_Delete [it] (b_heap b2)) = h_live h" "h_answer (cJSON_Delete [it] (b_heap b2)) = h_answer h"
      using cJSON_Delete_owned [of "[it]" "b_heap b2"] pv(3) live by simp_all
    have "parse_value 1001 zero_item b1 = Inr (ok, it, b2)" using pv(1) by simp
    note unfolded = cJSON_ParseWithLengthOpts_def 1(1) b_def [symmetric] bom skip this skip2 Let_def document_def
    show ?thesis
    proof (cases ok)
      case False
      then show ?thesis using len deleted len2 by (simp add: unfolded)
    next
      case True
      note good = pv(5) [OF True]
      have off: "0 < b_offset b2" "b_offset b2 \<le> len" using good len2 by (simp_all add: progress_def)
      show ?thesis
      proof (cases "nt \<and> \<not> (b_offset b3 < len \<and> content ! b_offset b3 = 0)")
        case bad: True
        show ?thesis
        proof (cases "b_offset b3 < len")
          case True
          then have "buffer_byte b3 0 = Inr (content ! b_offset b3)" using buffer_byte_ok [of b3 0] len3 by simp
          then show ?thesis using \<open>ok\<close> bad True len deleted len3 by (simp add: unfolded)
        next
          case False
          then show ?thesis using \<open>ok\<close> bad len deleted len3 by (simp add: unfolded)
        qed
      next
        case nt: False
        show ?thesis
        proof (cases nt)
          case True
          then have at: "b_offset b3 < len" "content ! b_offset b3 = 0" using nt by auto
          then have "buffer_byte b3 0 = Inr 0" using buffer_byte_ok [of b3 0] len3 by simp
          then show ?thesis using \<open>ok\<close> True at off len len3 live pv(3,4) good
            by (auto simp: unfolded intro!: exI [of _ "b_offset b3"])
        next
          case False
          then show ?thesis using \<open>ok\<close> off len live pv(3,4) good
            by (auto simp: unfolded intro!: exI [of _ "b_offset b2"])
        qed
      qed
    qed
  qed
qed


lemma parse_document_result:
  assumes "len \<le> length content" "cJSON_ParseWithLengthOpts (Some content) len we nt h = Inr r"
  shows "document content len we nt h r"
  using parse_document [OF assms(1), of we nt h] assms(2) by auto

text \<open>With the flag set, the call returns the same tree as without it, and only white space up to a last NUL follows.\<close>

lemma blanks_white:
  assumes "wf_buffer b" "b_offset b \<le> i" "i < b_offset b + blanks b"
  shows "b_content b ! i \<le> 32"
proof -
  let ?s = "segment (b_content b) (b_offset b) (b_length b)"
  have n: "i - b_offset b < length (takeWhile (\<lambda>c. c \<le> 32) ?s)"
    using assms(2,3) by (simp add: blanks_def)
  then have "?s ! (i - b_offset b) \<le> 32"
    using set_takeWhileD nth_mem takeWhile_nth by metis
  moreover have "?s ! (i - b_offset b) = b_content b ! i"
    using assms n length_takeWhile_le [of "\<lambda>c. c \<le> 32" ?s] by (simp add: segment_def wf_buffer_def)
  ultimately show ?thesis by simp
qed

lemma blanks_stop:
  assumes "wf_buffer b" "b_offset b + blanks b < b_length b"
  shows "32 < b_content b ! (b_offset b + blanks b)"
proof -
  let ?s = "segment (b_content b) (b_offset b) (b_length b)"
  have n: "blanks b < length ?s" using assms by (simp add: length_segment wf_buffer_def)
  then have "\<not> ?s ! blanks b \<le> 32"
    unfolding blanks_def by (rule nth_length_takeWhile)
  moreover have "?s ! blanks b = b_content b ! (b_offset b + blanks b)"
    using assms n by (simp add: segment_def wf_buffer_def)
  ultimately show ?thesis by simp
qed

text \<open>A NUL found behind white space is the last byte of the buffer: the NUL itself counts as white space.\<close>

lemma skipped_to_terminator:
  assumes "wf_buffer b" "b_offset b + skipped b < b_length b" "b_content b ! (b_offset b + skipped b) = 0"
  shows "b_offset b < b_length b \<and> b_offset b + skipped b = b_length b - 1 \<and>
    (\<forall>i \<in> {b_offset b..<b_length b}. b_content b ! i \<le> 32)"
proof -
  have "b_offset b + blanks b = b_length b"
  proof (rule ccontr)
    assume "b_offset b + blanks b \<noteq> b_length b"
    then have "32 < b_content b ! (b_offset b + skipped b)"
      using blanks_stop [OF assms(1)] assms(2) by (simp add: skipped_def)
    then show False using assms(3) by simp
  qed
  then show ?thesis using assms(2) blanks_white [OF assms(1)] by (auto simp: skipped_def)
qed

lemma parse_to_terminator:
  assumes "len \<le> length content" "cJSON_ParseWithLengthOpts (Some content) len we True h = Inr r" "r_item r = Some it"
  shows "\<exists>r0 v. cJSON_ParseWithLengthOpts (Some content) len True False h = Inr r0 \<and> r_item r0 = Some it \<and> r_end r0 = Some v \<and>
    v < len \<and> (\<forall>i \<in> {v..<len}. content ! i \<le> 32) \<and> content ! (len - 1) = 0 \<and> r_end r = (if we then Some (len - 1) else None)"
proof (cases rule: cJSON_New_Item_cases [of h])
  case (2 h1)
  then show ?thesis using assms(2,3) by (auto simp: cJSON_ParseWithLengthOpts_def Let_def split: if_splits)
next
  case (1 h1)
  define b where "b = \<lparr>b_content = content, b_length = len, b_offset = 0, b_depth = 0, b_heap = h1\<rparr>"
  have wf: "wf_buffer b" using assms by (simp add: b_def wf_buffer_def)
  obtain k where bom: "skip_utf8_bom b = Inr (Some (advance k b))"
    using skip_utf8_bom_ok [OF wf] by (auto simp: b_def)
  define b1 where "b1 = advance (skipped (advance k b)) (advance k b)"
  have skip: "buffer_skip_whitespace (advance k b) = Inr b1"
    using buffer_skip_whitespace_ok [of "advance k b"] wf by (simp add: b1_def)
  have "parsed zero_item b1 (parse_value (Suc CJSON_NESTING_LIMIT) zero_item b1)"
    by (rule pv.pv_parsed) (use wf in \<open>simp_all add: b1_def b_def\<close>)
  then obtain ok it2 b2 where pv: "parse_value (Suc CJSON_NESTING_LIMIT) zero_item b1 = Inr (ok, it2, b2)"
    "keeps (blocks it2 - 1) b1 b2"
    by (auto simp: parsed_def unnamed_def zero_item_def b1_def b_def)
  have k2: "keeps (blocks it2 - 1) b b2" using pv(2) by (simp add: b1_def)
  have at2: "b_content b2 = content" "b_length b2 = len" using k2 by (simp_all add: keeps_def b_def)
  have wf2: "wf_buffer b2" using keeps_wf(1) [OF k2] wf by simp
  have skip2: "buffer_skip_whitespace b2 = Inr (advance (skipped b2) b2)" by (rule buffer_skip_whitespace_ok [OF wf2])
  have pv2: "parse_value 1001 zero_item b1 = Inr (ok, it2, b2)" using pv(1) by simp
  note unfolded = cJSON_ParseWithLengthOpts_def 1(1) b_def [symmetric] bom skip pv2 skip2 Let_def
  have len: "0 < len"
  proof (rule ccontr)
    assume "\<not> 0 < len"
    then have "r_item r = None" using assms(2) by (auto simp: cJSON_ParseWithLengthOpts_def)
    then show False using assms(3) by simp
  qed
  have ok using assms(2,3) len by (auto simp: unfolded split: if_splits)
  have room: "b_offset b2 + skipped b2 < len"
    using assms(2,3) len at2 by (auto simp: unfolded split: if_splits)
  then have byte: "buffer_byte (advance (skipped b2) b2) 0 = Inr (content ! (b_offset b2 + skipped b2))"
    using buffer_byte_ok [of "advance (skipped b2) b2" 0] at2 wf2 by simp
  have "content ! (b_offset b2 + skipped b2) = 0" "it2 = it"
    "r_end r = (if we then Some (b_offset b2 + skipped b2) else None)"
    using assms(2,3) len at2 room byte \<open>ok\<close> by (auto simp: unfolded split: if_splits)
  moreover note skipped_to_terminator [OF wf2]
  ultimately show ?thesis using room len at2 \<open>ok\<close> by (auto simp: unfolded)
qed

subsection \<open>Theorems\<close>

text \<open>A document on which the hypotheses below hold, with an allocator that never fails.\<close>

definition plenty :: heap where
  "plenty = \<lparr>h_answer = (\<lambda>_ _. True), h_calls = 0, h_live = 0\<rparr>"

definition sample :: "u8 list" where
  "sample = lit ''[true]''"

lemma sample_parses:
  "\<exists>r it. cJSON_ParseWithLengthOpts (Some sample) 6 True False plenty = Inr r \<and> r_item r = Some it"
proof -
  have "case cJSON_ParseWithLengthOpts (Some sample) 6 True False plenty of
      Inl e \<Rightarrow> False | Inr r \<Rightarrow> r_item r \<noteq> None"
    by code_simp
  then show ?thesis by (auto split: sum.splits)
qed

lemma length_sample: "length sample = 6"
  by (simp add: sample_def lit_def)

text \<open>
  C5. The JSON parser returns on every text: whatever the bytes, the flags and the answers of the
  allocator are, if the length it is told does not exceed the memory it is given, the call neither reads
  outside that memory nor writes outside a block it allocated, its loops and its recursion end, and the
  positions it reports, of the end or of the error, lie within the text.
\<close>

theorem parse_returns:
  assumes "len \<le> length content"
  shows "\<exists>r. cJSON_ParseWithLengthOpts (Some content) len want_end require_nt h = Inr r \<and>
           (case r_item r of
              None \<Rightarrow> \<exists>p. r_error r = Some p \<and> p < max 1 len
            | Some it \<Rightarrow> r_error r = None) \<and>
           (case r_end r of None \<Rightarrow> \<not> want_end | Some e \<Rightarrow> want_end \<and> e \<le> len)"
proof -
  obtain r where r: "cJSON_ParseWithLengthOpts (Some content) len want_end require_nt h = Inr r"
    "document content len want_end require_nt h r"
    using parse_document [OF assms] by blast
  show ?thesis using r by (cases "r_item r") (auto simp: document_def)
qed

theorem parse_returns_witness:
  "\<exists>r. cJSON_ParseWithLengthOpts (Some sample) 6 True True plenty = Inr r \<and>
     (case r_end r of None \<Rightarrow> False | Some e \<Rightarrow> e \<le> 6)"
  using parse_returns [of 6 sample True True plenty] length_sample by (auto split: option.splits)

text \<open>
  C6. The parser gives back what it took: a call that fails, wherever in the text and for whatever
  reason, allocation failures included, leaves as many blocks allocated as it found; and after a call
  that succeeds, deleting the tree it returned frees all it allocated.
\<close>

theorem parse_frees:
  assumes "len \<le> length content"
    and "cJSON_ParseWithLengthOpts (Some content) len want_end require_nt h = Inr r"
  shows "case r_item r of
           None \<Rightarrow> h_live (r_heap r) = h_live h
         | Some it \<Rightarrow> h_live (cJSON_Delete [it] (r_heap r)) = h_live h"
proof -
  have "document content len want_end require_nt h r" by (rule parse_document_result [OF assms(1,2)])
  then show ?thesis using cJSON_Delete_owned [of "[the (r_item r)]" "r_heap r"]
    by (auto simp: document_def split: option.splits)
qed

theorem parse_frees_witness:
  "\<exists>r it. cJSON_ParseWithLengthOpts (Some sample) 6 True False plenty = Inr r \<and> r_item r = Some it \<and>
     h_live (cJSON_Delete [it] (r_heap r)) = 0"
proof -
  obtain r it where r: "cJSON_ParseWithLengthOpts (Some sample) 6 True False plenty = Inr r" "r_item r = Some it"
    using sample_parses by blast
  then show ?thesis using parse_frees [of 6 sample True False plenty r] length_sample
    by (simp add: plenty_def)
qed

definition sample_nul :: "u8 list" where
  "sample_nul = lit ''[true] '' @ [0]"

lemma sample_nul_parses:
  "\<exists>r it. cJSON_ParseWithLengthOpts (Some sample_nul) 8 True True plenty = Inr r \<and> r_item r = Some it"
proof -
  have "case cJSON_ParseWithLengthOpts (Some sample_nul) 8 True True plenty of
      Inl e \<Rightarrow> False | Inr r \<Rightarrow> r_item r \<noteq> None"
    by code_simp
  then show ?thesis by (auto split: sum.splits)
qed

text \<open>
  C7. A tree that the parser returns is well formed: every type is one of the seven of the grammar, a
  string has a terminated value, a number has its saturated integer beside it, the members of an object
  have terminated names, the elements of an array have none, nothing else has children, and no path is
  longer than the nesting limit. With the flag set, the parser accepts no garbage behind the value: the
  tree is the one the call without the flag returns, every byte from the position where that call says
  the value ends is white space (a byte up to 32), and the last byte of the text is a NUL, at which the
  position reported stands.
\<close>

theorem parse_well_typed:
  assumes "len \<le> length content"
    and "cJSON_ParseWithLengthOpts (Some content) len want_end require_nt h = Inr r" "r_item r = Some it"
  shows "well_typed it \<and> unnamed it \<and> height it \<le> CJSON_NESTING_LIMIT \<and>
         (require_nt \<longrightarrow> (\<exists>r0 v. cJSON_ParseWithLengthOpts (Some content) len True False h = Inr r0 \<and>
            r_item r0 = Some it \<and> r_end r0 = Some v \<and> v < len \<and> (\<forall>i \<in> {v..<len}. content ! i \<le> 32) \<and>
            content ! (len - 1) = 0 \<and> r_end r = (if want_end then Some (len - 1) else None)))"
proof -
  have "document content len want_end require_nt h r" by (rule parse_document_result [OF assms(1,2)])
  then have "well_typed it \<and> unnamed it \<and> height it \<le> CJSON_NESTING_LIMIT" using assms(3) by (simp add: document_def)
  then show ?thesis using parse_to_terminator [OF assms(1) _ assms(3), of want_end h] assms(2) by (cases require_nt) simp_all
qed

theorem parse_well_typed_witness:
  "\<exists>r it. cJSON_ParseWithLengthOpts (Some sample_nul) 8 True True plenty = Inr r \<and> r_item r = Some it \<and>
     well_typed it \<and> r_end r = Some 7"
proof -
  obtain r it where r: "cJSON_ParseWithLengthOpts (Some sample_nul) 8 True True plenty = Inr r" "r_item r = Some it"
    using sample_nul_parses by blast
  have "length sample_nul = 8" by (simp add: sample_nul_def lit_def)
  then show ?thesis using parse_well_typed [of 8 sample_nul True True plenty r it] r by auto
qed

end
