(* ===== verification/Json_Tree.thy ===== *)
theory Json_Tree
  imports Json_Safe
begin

text \<open>
  The functions of the bundled JSON library that work on trees: the tests of an item's type, the
  accessors of arrays and objects, the constructors, \<open>cJSON_Duplicate\<close> and \<open>cJSON_Compare\<close>. A pointer
  to an item is the tree below it, the null pointer is \<open>None\<close>; the \<open>next\<close> chain is the list of children.
\<close>

subsection \<open>Types and values\<close>

definition has_type :: "u32 \<Rightarrow> cJSON option \<Rightarrow> bool" where
  "has_type t it = (case it of None \<Rightarrow> False | Some c \<Rightarrow> i_type (item_of c) AND 0xFF = t)"

definition cJSON_IsInvalid :: "cJSON option \<Rightarrow> bool" where
  "cJSON_IsInvalid it = has_type cJSON_Invalid it"

definition cJSON_IsFalse :: "cJSON option \<Rightarrow> bool" where
  "cJSON_IsFalse it = has_type cJSON_False it"

definition cJSON_IsTrue :: "cJSON option \<Rightarrow> bool" where
  "cJSON_IsTrue it = has_type cJSON_True it"

definition cJSON_IsBool :: "cJSON option \<Rightarrow> bool" where
  "cJSON_IsBool it =
     (case it of None \<Rightarrow> False | Some c \<Rightarrow> i_type (item_of c) AND (cJSON_True OR cJSON_False) \<noteq> 0)"

definition cJSON_IsNull :: "cJSON option \<Rightarrow> bool" where
  "cJSON_IsNull it = has_type cJSON_NULL it"

definition cJSON_IsNumber :: "cJSON option \<Rightarrow> bool" where
  "cJSON_IsNumber it = has_type cJSON_Number it"

definition cJSON_IsString :: "cJSON option \<Rightarrow> bool" where
  "cJSON_IsString it = has_type cJSON_String it"

definition cJSON_IsArray :: "cJSON option \<Rightarrow> bool" where
  "cJSON_IsArray it = has_type cJSON_Array it"

definition cJSON_IsObject :: "cJSON option \<Rightarrow> bool" where
  "cJSON_IsObject it = has_type cJSON_Object it"

definition cJSON_IsRaw :: "cJSON option \<Rightarrow> bool" where
  "cJSON_IsRaw it = has_type cJSON_Raw it"

text \<open>The result of the first is a pointer that may be null even for a string.\<close>

definition cJSON_GetStringValue :: "cJSON option \<Rightarrow> u8 list option" where
  "cJSON_GetStringValue it =
     (if \<not> cJSON_IsString it then None else i_valuestring (item_of (the it)))"

definition cJSON_GetNumberValue :: "cJSON option \<Rightarrow> double" where
  "cJSON_GetNumberValue it =
     (if \<not> cJSON_IsNumber it then NaN else i_valuedouble (item_of (the it)))"

definition cJSON_SetNumberHelper :: "item \<Rightarrow> double \<Rightarrow> double \<times> item" where
  "cJSON_SetNumberHelper f number =
     (number, f\<lparr>i_valueint := saturate number, i_valuedouble := number\<rparr>)"

text \<open>
  \<open>cJSON_SetValuestring\<close>: the numbers are the addresses of the two strings, which the code compares to
  refuse overlapping ones. Result: the new pointer or null, the item, the heap.
\<close>

definition cJSON_SetValuestring ::
    "item option \<Rightarrow> nat \<Rightarrow> u8 list option \<Rightarrow> nat \<Rightarrow> heap \<Rightarrow> (u8 list option \<times> item option \<times> heap) outcome" where
  "cJSON_SetValuestring object_ptr object_addr valuestring addr h =
     (case object_ptr of
        None \<Rightarrow> Inr (None, None, h)
      | Some f \<Rightarrow>
          if i_type f AND cJSON_String = 0 \<or> i_type f AND cJSON_IsReference \<noteq> 0 then Inr (None, Some f, h)
          else
            (case (i_valuestring f, valuestring) of
               (Some old, Some new) \<Rightarrow>
                 bind_res (strlen new) (\<lambda>v1_len.
                 bind_res (strlen old) (\<lambda>v2_len.
                 if v1_len \<le> v2_len then
                   (if \<not> (addr + v1_len < object_addr \<or> object_addr + v2_len < addr) then Inr (None, Some f, h)
                    else
                      bind_res (strcpy old new) (\<lambda>s.
                      Inr (Some s, Some (f\<lparr>i_valuestring := Some s\<rparr>), h)))
                 else
                   bind_res (cJSON_strdup (Some new) h) (\<lambda>(copy, h).
                   case copy of
                     None \<Rightarrow> Inr (None, Some f, h)
                   | Some s \<Rightarrow> Inr (Some s, Some (f\<lparr>i_valuestring := Some s\<rparr>), deallocate h))))
             | _ \<Rightarrow> Inr (None, Some f, h)))"

subsection \<open>Arrays and objects\<close>

text \<open>The count is a \<open>size_t\<close> cast to \<open>int\<close>.\<close>

definition cJSON_GetArraySize :: "cJSON option \<Rightarrow> int" where
  "cJSON_GetArraySize array =
     (case array of None \<Rightarrow> 0 | Some a \<Rightarrow> sint (word_of_nat (length (child a)) :: u32))"

fun nth_sibling :: "cJSON list \<Rightarrow> nat \<Rightarrow> cJSON option" where
  "nth_sibling [] index = None"
| "nth_sibling (c # cs) index = (if 0 < index then nth_sibling cs (index - 1) else Some c)"

definition get_array_item :: "cJSON option \<Rightarrow> nat \<Rightarrow> cJSON option" where
  "get_array_item array index = (case array of None \<Rightarrow> None | Some a \<Rightarrow> nth_sibling (child a) index)"

definition cJSON_GetArrayItem :: "cJSON option \<Rightarrow> int \<Rightarrow> cJSON option" where
  "cJSON_GetArrayItem array index = (if index < 0 then None else get_array_item array (nat index))"

text \<open>The two search loops: the first stops at a child without a name.\<close>

fun find_key :: "u8 list \<Rightarrow> cJSON list \<Rightarrow> cJSON option outcome" where
  "find_key name [] = Inr None"
| "find_key name (c # cs) =
     (case i_string (item_of c) of
        None \<Rightarrow> Inr (Some c)
      | Some key \<Rightarrow>
          bind_res (strcmp name key) (\<lambda>i.
          if i \<noteq> 0 then find_key name cs else Inr (Some c)))"

fun find_key_nocase :: "u8 list \<Rightarrow> cJSON list \<Rightarrow> cJSON option outcome" where
  "find_key_nocase name [] = Inr None"
| "find_key_nocase name (c # cs) =
     bind_res (case_insensitive_strcmp (Some name) (i_string (item_of c))) (\<lambda>i.
     if i \<noteq> 0 then find_key_nocase name cs else Inr (Some c))"

definition get_object_item :: "cJSON option \<Rightarrow> u8 list option \<Rightarrow> bool \<Rightarrow> cJSON option outcome" where
  "get_object_item obj name case_sensitive =
     (case (obj, name) of
        (Some c, Some name) \<Rightarrow>
          bind_res (if case_sensitive then find_key name (child c) else find_key_nocase name (child c)) (\<lambda>current_element.
          Inr (case current_element of
                 None \<Rightarrow> None
               | Some e \<Rightarrow> if i_string (item_of e) = None then None else Some e))
      | _ \<Rightarrow> Inr None)"

definition cJSON_GetObjectItem :: "cJSON option \<Rightarrow> u8 list option \<Rightarrow> cJSON option outcome" where
  "cJSON_GetObjectItem obj name = get_object_item obj name False"

definition cJSON_GetObjectItemCaseSensitive :: "cJSON option \<Rightarrow> u8 list option \<Rightarrow> cJSON option outcome" where
  "cJSON_GetObjectItemCaseSensitive obj name = get_object_item obj name True"

definition cJSON_HasObjectItem :: "cJSON option \<Rightarrow> u8 list option \<Rightarrow> bool outcome" where
  "cJSON_HasObjectItem obj name = bind_res (cJSON_GetObjectItem obj name) (\<lambda>r. Inr (r \<noteq> None))"

subsection \<open>Constructors\<close>

text \<open>A new item, with some fields set where the allocator grants it.\<close>

definition create_with :: "(item \<Rightarrow> item) \<Rightarrow> cJSON list \<Rightarrow> heap \<Rightarrow> cJSON option \<times> heap" where
  "create_with g cs h =
     (case cJSON_New_Item h of (None, h) \<Rightarrow> (None, h) | (Some f, h) \<Rightarrow> (Some (Item (g f) cs), h))"

definition cJSON_CreateNull :: "heap \<Rightarrow> cJSON option \<times> heap" where
  "cJSON_CreateNull h = create_with (\<lambda>f. f\<lparr>i_type := cJSON_NULL\<rparr>) [] h"

definition cJSON_CreateTrue :: "heap \<Rightarrow> cJSON option \<times> heap" where
  "cJSON_CreateTrue h = create_with (\<lambda>f. f\<lparr>i_type := cJSON_True\<rparr>) [] h"

definition cJSON_CreateFalse :: "heap \<Rightarrow> cJSON option \<times> heap" where
  "cJSON_CreateFalse h = create_with (\<lambda>f. f\<lparr>i_type := cJSON_False\<rparr>) [] h"

definition cJSON_CreateBool :: "bool \<Rightarrow> heap \<Rightarrow> cJSON option \<times> heap" where
  "cJSON_CreateBool b h = create_with (\<lambda>f. f\<lparr>i_type := (if b then cJSON_True else cJSON_False)\<rparr>) [] h"

definition cJSON_CreateNumber :: "double \<Rightarrow> heap \<Rightarrow> cJSON option \<times> heap" where
  "cJSON_CreateNumber num h =
     create_with (\<lambda>f. f\<lparr>i_type := cJSON_Number, i_valuedouble := num, i_valueint := saturate num\<rparr>) [] h"

text \<open>A string that owns a copy of its text; without the copy the item is deleted again.\<close>

definition create_text :: "u32 \<Rightarrow> u8 list option \<Rightarrow> heap \<Rightarrow> (cJSON option \<times> heap) outcome" where
  "create_text t s h =
     (case cJSON_New_Item h of
        (None, h) \<Rightarrow> Inr (None, h)
      | (Some f, h) \<Rightarrow>
          bind_res (cJSON_strdup s h) (\<lambda>(copy, h).
          let f = f\<lparr>i_type := t, i_valuestring := copy\<rparr> in
          Inr (if copy = None then (None, cJSON_Delete [Item f []] h) else (Some (Item f []), h))))"

definition cJSON_CreateString :: "u8 list option \<Rightarrow> heap \<Rightarrow> (cJSON option \<times> heap) outcome" where
  "cJSON_CreateString s h = create_text cJSON_String s h"

definition cJSON_CreateRaw :: "u8 list option \<Rightarrow> heap \<Rightarrow> (cJSON option \<times> heap) outcome" where
  "cJSON_CreateRaw raw h = create_text cJSON_Raw raw h"

definition cJSON_CreateStringReference :: "u8 list option \<Rightarrow> heap \<Rightarrow> cJSON option \<times> heap" where
  "cJSON_CreateStringReference s h =
     create_with (\<lambda>f. f\<lparr>i_type := cJSON_String OR cJSON_IsReference, i_valuestring := s\<rparr>) [] h"

definition cJSON_CreateObjectReference :: "cJSON list \<Rightarrow> heap \<Rightarrow> cJSON option \<times> heap" where
  "cJSON_CreateObjectReference cs h =
     create_with (\<lambda>f. f\<lparr>i_type := cJSON_Object OR cJSON_IsReference\<rparr>) cs h"

definition cJSON_CreateArrayReference :: "cJSON list \<Rightarrow> heap \<Rightarrow> cJSON option \<times> heap" where
  "cJSON_CreateArrayReference cs h =
     create_with (\<lambda>f. f\<lparr>i_type := cJSON_Array OR cJSON_IsReference\<rparr>) cs h"

definition cJSON_CreateArray :: "heap \<Rightarrow> cJSON option \<times> heap" where
  "cJSON_CreateArray h = create_with (\<lambda>f. f\<lparr>i_type := cJSON_Array\<rparr>) [] h"

definition cJSON_CreateObject :: "heap \<Rightarrow> cJSON option \<times> heap" where
  "cJSON_CreateObject h = create_with (\<lambda>f. f\<lparr>i_type := cJSON_Object\<rparr>) [] h"

text \<open>
  The loop that the four array constructors share: one element for each of the first \<open>count\<close> entries of
  the caller's C array; reading behind its end is a fault, a failed element deletes all.
\<close>

fun fill_array ::
    "('a \<Rightarrow> heap \<Rightarrow> (cJSON option \<times> heap) outcome) \<Rightarrow> item \<Rightarrow> cJSON list \<Rightarrow> 'a list \<Rightarrow> nat \<Rightarrow> heap \<Rightarrow>
       (cJSON option \<times> heap) outcome" where
  "fill_array mk f cs xs 0 h = Inr (Some (Item f cs), h)"
| "fill_array mk f cs [] (Suc n) h = Inl OOB_read"
| "fill_array mk f cs (x # xs) (Suc n) h =
     bind_res (mk x h) (\<lambda>(it, h).
     case it of
       None \<Rightarrow> Inr (None, cJSON_Delete [Item f cs] h)
     | Some c \<Rightarrow> fill_array mk f (cs @ [c]) xs n h)"

definition create_array ::
    "('a \<Rightarrow> heap \<Rightarrow> (cJSON option \<times> heap) outcome) \<Rightarrow> 'a list option \<Rightarrow> int \<Rightarrow> heap \<Rightarrow>
       (cJSON option \<times> heap) outcome" where
  "create_array mk numbers count h =
     (case numbers of
        None \<Rightarrow> Inr (None, h)
      | Some xs \<Rightarrow>
          if count < 0 then Inr (None, h)
          else
            (case cJSON_CreateArray h of
               (None, h) \<Rightarrow> Inr (None, h)
             | (Some a, h) \<Rightarrow> fill_array mk (item_of a) [] xs (nat count) h))"

definition cJSON_CreateIntArray :: "int list option \<Rightarrow> int \<Rightarrow> heap \<Rightarrow> (cJSON option \<times> heap) outcome" where
  "cJSON_CreateIntArray numbers count h =
     create_array (\<lambda>k h. Inr (cJSON_CreateNumber (double_of_int k) h)) numbers count h"

text \<open>Widening a \<open>float\<close> is exact, so its value is the \<open>double\<close> that the code passes on.\<close>

definition cJSON_CreateFloatArray :: "double list option \<Rightarrow> int \<Rightarrow> heap \<Rightarrow> (cJSON option \<times> heap) outcome" where
  "cJSON_CreateFloatArray numbers count h = create_array (\<lambda>d h. Inr (cJSON_CreateNumber d h)) numbers count h"

definition cJSON_CreateDoubleArray :: "double list option \<Rightarrow> int \<Rightarrow> heap \<Rightarrow> (cJSON option \<times> heap) outcome" where
  "cJSON_CreateDoubleArray numbers count h = create_array (\<lambda>d h. Inr (cJSON_CreateNumber d h)) numbers count h"

definition cJSON_CreateStringArray ::
    "u8 list option list option \<Rightarrow> int \<Rightarrow> heap \<Rightarrow> (cJSON option \<times> heap) outcome" where
  "cJSON_CreateStringArray strings count h = create_array cJSON_CreateString strings count h"

subsection \<open>Copies\<close>

abbreviation CJSON_CIRCULAR_LIMIT :: nat where "CJSON_CIRCULAR_LIMIT \<equiv> 10000"

text \<open>
  \<open>cJSON_Duplicate_rec\<close> and its loop over the children, which collects the copies. A name that
  is constant is shared, every other string is copied.
\<close>

definition copy_string :: "bool \<Rightarrow> u8 list option \<Rightarrow> heap \<Rightarrow> (bool \<times> u8 list option \<times> heap) outcome" where
  "copy_string shared s h =
     (case s of
        None \<Rightarrow> Inr (True, None, h)
      | Some _ \<Rightarrow>
          if shared then Inr (True, s, h)
          else bind_res (cJSON_strdup s h) (\<lambda>(copy, h). Inr (copy \<noteq> None, copy, h)))"

fun cJSON_Duplicate_rec :: "cJSON \<Rightarrow> nat \<Rightarrow> bool \<Rightarrow> heap \<Rightarrow> (cJSON option \<times> heap) outcome"
  and duplicate_children :: "cJSON list \<Rightarrow> item \<Rightarrow> cJSON list \<Rightarrow> nat \<Rightarrow> heap \<Rightarrow> (cJSON option \<times> heap) outcome" where
  "cJSON_Duplicate_rec (Item f cs) depth recurse h =
     (case cJSON_New_Item h of
        (None, h) \<Rightarrow> Inr (None, h)
      | (Some g, h) \<Rightarrow>
          (let g = g\<lparr>i_type := i_type f AND NOT cJSON_IsReference, i_valueint := i_valueint f,
                    i_valuedouble := i_valuedouble f\<rparr> in
           bind_res (copy_string False (i_valuestring f) h) (\<lambda>(ok, s, h).
           let g = g\<lparr>i_valuestring := s\<rparr> in
           if \<not> ok then Inr (None, cJSON_Delete [Item g []] h)
           else
             bind_res (copy_string (i_type f AND cJSON_StringIsConst \<noteq> 0) (i_string f) h) (\<lambda>(ok, s, h).
             let g = g\<lparr>i_string := s\<rparr> in
             if \<not> ok then Inr (None, cJSON_Delete [Item g []] h)
             else if \<not> recurse then Inr (Some (Item g []), h)
             else duplicate_children cs g [] depth h))))"
| "duplicate_children [] g copies depth h = Inr (Some (Item g copies), h)"
| "duplicate_children (c # cs) g copies depth h =
     (if CJSON_CIRCULAR_LIMIT \<le> depth then Inr (None, cJSON_Delete [Item g copies] h)
      else
        bind_res (cJSON_Duplicate_rec c (depth + 1) True h) (\<lambda>(newchild, h).
        case newchild of
          None \<Rightarrow> Inr (None, cJSON_Delete [Item g copies] h)
        | Some d \<Rightarrow> duplicate_children cs g (copies @ [d]) depth h))"

definition cJSON_Duplicate :: "cJSON option \<Rightarrow> bool \<Rightarrow> heap \<Rightarrow> (cJSON option \<times> heap) outcome" where
  "cJSON_Duplicate it recurse h =
     (case it of None \<Rightarrow> Inr (None, h) | Some c \<Rightarrow> cJSON_Duplicate_rec c 0 recurse h)"

subsection \<open>Comparison\<close>

fun all_res :: "('a \<Rightarrow> bool outcome) \<Rightarrow> 'a list \<Rightarrow> bool outcome" where
  "all_res f [] = Inr True"
| "all_res f (x # xs) = bind_res (f x) (\<lambda>ok. if ok then all_res f xs else Inr False)"

lemma all_res_cong [fundef_cong]:
  "xs = ys \<Longrightarrow> (\<And>x. x \<in> set ys \<Longrightarrow> f x = g x) \<Longrightarrow> all_res f xs = all_res g ys"
proof (induction ys arbitrary: xs)
  case (Cons y ys)
  then show ?case by (cases "g y") simp_all
qed simp

lemma all_res_exact: "(\<And>x. x \<in> set xs \<Longrightarrow> f x = Inr (P x)) \<Longrightarrow> all_res f xs = Inr (\<forall>x \<in> set xs. P x)"
  by (induction xs) auto

lemma find_key_child: "find_key name cs = Inr (Some c) \<Longrightarrow> c \<in> set cs"
  by (induction cs) (auto simp: bind_res_eq_Inr split: option.splits if_splits)

lemma find_key_nocase_child: "find_key_nocase name cs = Inr (Some c) \<Longrightarrow> c \<in> set cs"
  by (induction cs) (auto simp: bind_res_eq_Inr split: if_splits)

lemma get_object_item_child:
  assumes "get_object_item (Some b) name cs = Inr (Some c)"
  shows "c \<in> set (child b)"
  using assms find_key_child find_key_nocase_child
  by (fastforce simp: get_object_item_def bind_res_eq_Inr split: option.splits if_splits)

lemma size_child: "c \<in> set (child b) \<Longrightarrow> size c < size b"
  by (cases b) (auto simp: less_Suc_eq_le dest: size_list_estimation' [OF _ order_refl])

lemma size_zip_children: "(x, y) \<in> set (zip (child a) (child b)) \<Longrightarrow> size x + size y < size a + size b"
  by (meson add_strict_mono set_zip_leftD set_zip_rightD size_child)

text \<open>
  Two items at different addresses. Objects are compared by looking the members of each up in the
  other, so that of several members with one name only the first counts.
\<close>

function compare_items :: "bool \<Rightarrow> cJSON \<Rightarrow> cJSON \<Rightarrow> bool outcome" where
  "compare_items case_sensitive a b =
     (let t = i_type (item_of a) AND 0xFF in
      if t \<noteq> i_type (item_of b) AND 0xFF then Inr False
      else if t = cJSON_False \<or> t = cJSON_True \<or> t = cJSON_NULL then Inr True
      else if t = cJSON_Number then
        Inr (compare_double (i_valuedouble (item_of a)) (i_valuedouble (item_of b)))
      else if t = cJSON_String \<or> t = cJSON_Raw then
        (case (i_valuestring (item_of a), i_valuestring (item_of b)) of
           (Some s1, Some s2) \<Rightarrow> bind_res (strcmp s1 s2) (\<lambda>i. Inr (i = 0))
         | _ \<Rightarrow> Inr False)
      else if t = cJSON_Array then
        bind_res (all_res (\<lambda>(x, y). compare_items case_sensitive x y) (zip (child a) (child b))) (\<lambda>ok.
        Inr (ok \<and> length (child a) = length (child b)))
      else if t = cJSON_Object then
        bind_res (all_res (\<lambda>x.
          bind_res (get_object_item (Some b) (i_string (item_of x)) case_sensitive) (\<lambda>r.
          case r of None \<Rightarrow> Inr False | Some y \<Rightarrow> compare_items case_sensitive x y)) (child a)) (\<lambda>ok.
        if \<not> ok then Inr False
        else
          all_res (\<lambda>y.
            bind_res (get_object_item (Some a) (i_string (item_of y)) case_sensitive) (\<lambda>r.
            case r of None \<Rightarrow> Inr False | Some x \<Rightarrow> compare_items case_sensitive y x)) (child b))
      else Inr False)"
  by pat_completeness auto
termination
  by (relation "measure (\<lambda>(cs, a, b). size a + size b)")
    (auto dest!: get_object_item_child size_child size_zip_children)

declare compare_items.simps [simp del]

text \<open>The flag tells whether the two pointers are the same, which the code checks after the type.\<close>

definition cJSON_Compare :: "bool \<Rightarrow> cJSON option \<Rightarrow> cJSON option \<Rightarrow> bool \<Rightarrow> bool outcome" where
  "cJSON_Compare same a b case_sensitive =
     (case (a, b) of
        (Some x, Some y) \<Rightarrow>
          (let t = i_type (item_of x) AND 0xFF in
           if same \<and> t \<in> {cJSON_False, cJSON_True, cJSON_NULL, cJSON_Number, cJSON_String, cJSON_Raw, cJSON_Array, cJSON_Object}
           then Inr True
           else compare_items case_sensitive x y)
      | _ \<Rightarrow> Inr False)"

subsection \<open>Looking up a member\<close>

text \<open>The name of a member, up to its terminator, and as the comparison sees it.\<close>

definition member_key :: "bool \<Rightarrow> cJSON \<Rightarrow> u8 list" where
  "member_key case_sensitive c =
     (let key = cstr (the (i_string (item_of c))) in if case_sensitive then key else map tolower key)"

definition search_key :: "bool \<Rightarrow> u8 list \<Rightarrow> u8 list" where
  "search_key case_sensitive name = (if case_sensitive then cstr name else map tolower (cstr name))"

lemma find_key_first:
  "list_all named cs \<Longrightarrow> 0 \<in> set name \<Longrightarrow>
     find_key name cs = Inr (find (\<lambda>c. member_key True c = search_key True name) cs)"
proof (induction cs)
  case (Cons c cs)
  then obtain key where key: "i_string (item_of c) = Some key" "0 \<in> set key" by (auto simp: named_def)
  obtain i where "strcmp name key = Inr i" "i = 0 \<longleftrightarrow> cstr name = cstr key"
    using strcmp_terminated [OF Cons.prems(2) key(2)] by blast
  then show ?case using Cons key by (auto simp: member_key_def search_key_def)
qed simp

lemma find_key_nocase_first:
  "list_all named cs \<Longrightarrow> 0 \<in> set name \<Longrightarrow>
     find_key_nocase name cs = Inr (find (\<lambda>c. member_key False c = search_key False name) cs)"
proof (induction cs)
  case (Cons c cs)
  then obtain key where key: "i_string (item_of c) = Some key" "0 \<in> set key" by (auto simp: named_def)
  obtain i where "strcmp_nocase name key = Inr i" "i = 0 \<longleftrightarrow> map tolower (cstr name) = map tolower (cstr key)"
    using strcmp_nocase_terminated [OF Cons.prems(2) key(2)] by blast
  then show ?case using Cons key by (auto simp: member_key_def search_key_def case_insensitive_strcmp_def)
qed simp

lemma get_object_item_first:
  assumes "list_all named (child c)" "0 \<in> set name"
  shows "get_object_item (Some c) (Some name) case_sensitive =
           Inr (find (\<lambda>m. member_key case_sensitive m = search_key case_sensitive name) (child c))"
proof -
  have "i_string (item_of m) \<noteq> None" if "find P (child c) = Some m" for P m
    using assms(1) that by (auto simp: find_Some_iff list_all_length named_def)
  then show ?thesis
    using find_key_first [OF assms] find_key_nocase_first [OF assms]
    by (cases case_sensitive) (fastforce simp: get_object_item_def split: option.splits)+
qed

lemma find_distinct:
  assumes "distinct (map g xs)" "x \<in> set xs"
  shows "find (\<lambda>y. g y = g x) xs = Some x"
  using assms by (induction xs) (auto simp: image_iff)

lemma well_typed_mask:
  "well_typed (Item f cs) \<Longrightarrow> i_type f AND 0xFF = i_type f"
  by auto

text \<open>
  Looking a member up by name returns the first member of the object with that name, compared up
  to the terminator, exactly or up to the case of ASCII letters, and null when there is none. It ends
  without reading outside a string.
\<close>

theorem object_lookup_first:
  assumes "list_all named (child c)" "0 \<in> set name"
  shows "cJSON_GetObjectItemCaseSensitive (Some c) (Some name) =
           Inr (find (\<lambda>m. member_key True m = cstr name) (child c)) \<and>
         cJSON_GetObjectItem (Some c) (Some name) =
           Inr (find (\<lambda>m. member_key False m = map tolower (cstr name)) (child c))"
  using get_object_item_first [OF assms]
  by (simp add: cJSON_GetObjectItemCaseSensitive_def cJSON_GetObjectItem_def search_key_def)

theorem object_lookup_first_witness:
  "cJSON_GetObjectItem
      (Some (Item (zero_item\<lparr>i_type := cJSON_Object\<rparr>) [Item (zero_item\<lparr>i_string := Some (char_array 5 ''Port'')\<rparr>) [],
          Item (zero_item\<lparr>i_string := Some (char_array 5 ''port'')\<rparr>) []])) (Some (char_array 5 ''port'')) =
      Inr (Some (Item (zero_item\<lparr>i_string := Some (char_array 5 ''Port'')\<rparr>) []))"
  using object_lookup_first
    [of "Item (zero_item\<lparr>i_type := cJSON_Object\<rparr>) [Item (zero_item\<lparr>i_string := Some (char_array 5 ''Port'')\<rparr>) [],
       Item (zero_item\<lparr>i_string := Some (char_array 5 ''port'')\<rparr>) []]" "char_array 5 ''port''"]
  by (simp add: named_def member_key_def char_array_def lit_def tolower_def)

end
