(* ===== verification/Json_Print.thy ===== *)
theory Json_Print
  imports Json_Tree
begin

text \<open>
  The printer of the bundled JSON library: the growing output buffer, numbers and strings as text, and
  the functions from \<open>ensure\<close> to \<open>cJSON_Print\<close> and its variants.
\<close>

subsection \<open>Numbers as text\<close>

fun decimal :: "nat \<Rightarrow> u8 list" where
  "decimal n = (if n < 10 then [0x30 + of_nat n] else decimal (n div 10) @ [0x30 + of_nat (n mod 10)])"

declare decimal.simps [simp del]

text \<open>\<open>sprintf\<close> with the format \<open>%d\<close>.\<close>

definition format_d :: "int \<Rightarrow> u8 list" where
  "format_d k = (if k < 0 then 0x2D # decimal (nat (- k)) else decimal (nat k))"

text \<open>The exponent of the leading decimal digit of the positive number \<open>n / d\<close>.\<close>

definition digit_count :: "nat \<Rightarrow> nat" where
  "digit_count n = (if n = 0 then 0 else length (decimal n))"

definition exponent10 :: "nat \<Rightarrow> nat \<Rightarrow> int" where
  "exponent10 n d = (if d \<le> n then int (digit_count (n div d)) - 1 else - int (digit_count ((d - 1) div n)))"

text \<open>The first \<open>prec\<close> significant decimal digits of \<open>n / d\<close>, rounded, and the exponent of the first.\<close>

definition significant :: "nat \<Rightarrow> nat \<Rightarrow> nat \<Rightarrow> nat \<times> int" where
  "significant prec n d =
     (let x = exponent10 n d; k = int prec - 1 - x;
          q = div_even (n * 10 ^ nat k) (d * 10 ^ nat (- k))
      in if 10 ^ prec \<le> q then (q div 10, x + 1) else (q, x))"

definition strip_zeros :: "u8 list \<Rightarrow> u8 list" where
  "strip_zeros ds = rev (dropWhile (\<lambda>c. c = 0x30) (rev ds))"

definition with_fraction :: "u8 list \<Rightarrow> u8 list \<Rightarrow> u8 list" where
  "with_fraction whole frac = (if frac = [] then whole else whole @ 0x2E # frac)"

definition exponent_text :: "int \<Rightarrow> u8 list" where
  "exponent_text x =
     (let ds = decimal (nat \<bar>x\<bar>) in [0x65, if x < 0 then 0x2D else 0x2B] @ (if length ds < 2 then 0x30 # ds else ds))"

text \<open>\<open>sprintf\<close> with the format \<open>%1.<prec>g\<close>, on a finite value.\<close>

definition digits_text :: "nat \<Rightarrow> nat \<Rightarrow> int \<Rightarrow> u8 list" where
  "digits_text prec q x =
     (let ds = decimal q in
      if x < - 4 \<or> int prec \<le> x then
        with_fraction (take 1 ds) (strip_zeros (drop 1 ds)) @ exponent_text x
      else if 0 \<le> x then
        with_fraction (take (nat x + 1) ds) (strip_zeros (drop (nat x + 1) ds))
      else with_fraction [0x30] (replicate (nat (- x) - 1) 0x30 @ strip_zeros ds))"

definition format_g :: "nat \<Rightarrow> double \<Rightarrow> u8 list" where
  "format_g prec d =
     (case d of
        Fin s m e \<Rightarrow>
          (if s then [0x2D] else []) @
          (if m = 0 then [0x30]
           else let (q, x) = significant prec (m * 2 ^ nat e) (2 ^ nat (- e)) in digits_text prec q x)
      | Inf s \<Rightarrow> (if s then [0x2D] else []) @ lit ''inf''
      | NaN \<Rightarrow> lit ''nan'')"

text \<open>
  The text of a number as \<open>print_number\<close> chooses it: the integer where it has the same value, else 15
  digits, else 17 where reading the 15 digits back gives a different number.
\<close>

definition double_eq :: "double \<Rightarrow> double \<Rightarrow> bool" where
  "double_eq x y \<longleftrightarrow> double_leq x y \<and> double_leq y x"

definition number_text :: "item \<Rightarrow> u8 list" where
  "number_text f =
     (let d = i_valuedouble f in
      if \<not> (case d of Fin s m e \<Rightarrow> True | _ \<Rightarrow> False) then lit ''null''
      else if double_eq d (double_of_int (i_valueint f)) then format_d (i_valueint f)
      else
        let number_buffer = format_g 15 d; (test, used) = strtod number_buffer in
        if used = 0 \<or> \<not> compare_double test d then format_g 17 d else number_buffer)"

subsection \<open>The output buffer\<close>

text \<open>
  \<open>p_buffer\<close> is the block that the buffer pointer points to; \<open>p_fresh\<close> gives the bytes that memory has
  before it is written, by the request that obtained it. \<open>p_realloc\<close> tells whether the hooks have a
  \<open>reallocate\<close>, as they do by default.
\<close>

record printbuffer =
  p_buffer :: "u8 list option"
  p_length :: nat
  p_offset :: nat
  p_depth :: nat
  p_noalloc :: bool
  p_format :: bool
  p_realloc :: bool
  p_fresh :: "nat \<Rightarrow> nat \<Rightarrow> u8"
  p_heap :: heap

definition fresh_block :: "(nat \<Rightarrow> nat \<Rightarrow> u8) \<Rightarrow> heap \<Rightarrow> nat \<Rightarrow> u8 list" where
  "fresh_block mem h n = map (mem (h_calls h)) [0..<n]"

text \<open>\<open>realloc\<close> of a block that stays where it is or moves; the old block is gone when it succeeds.\<close>

definition reallocate :: "(nat \<Rightarrow> nat \<Rightarrow> u8) \<Rightarrow> u8 list \<Rightarrow> nat \<Rightarrow> heap \<Rightarrow> u8 list option \<times> heap" where
  "reallocate mem blk n h =
     (let ok = h_answer h (h_calls h) n; h' = h\<lparr>h_calls := Suc (h_calls h)\<rparr> in
      (if ok then Some (take n blk @ map (mem (h_calls h)) [length blk..<n]) else None, h'))"

text \<open>
  \<open>ensure\<close>: the flag stands for the pointer it returns, which is that to the offset, or null. Sizes are
  below \<open>INT_MAX\<close> after the second test, so that no sum wraps.
\<close>

definition ensure :: "nat \<Rightarrow> printbuffer \<Rightarrow> (bool \<times> printbuffer) outcome" where
  "ensure needed p =
     (case p_buffer p of
        None \<Rightarrow> Inr (False, p)
      | Some blk \<Rightarrow>
          if 0 < p_length p \<and> p_length p \<le> p_offset p then Inr (False, p)
          else if nat INT_MAX < needed then Inr (False, p)
          else
            let needed = needed + p_offset p + 1 in
            if needed \<le> p_length p then Inr (True, p)
            else if p_noalloc p then Inr (False, p)
            else if nat INT_MAX div 2 < needed \<and> nat INT_MAX < needed then Inr (False, p)
            else
              let newsize = (if nat INT_MAX div 2 < needed then nat INT_MAX else needed * 2) in
              if p_realloc p then
                (case reallocate (p_fresh p) blk newsize (p_heap p) of
                   (None, h) \<Rightarrow> Inr (False, p\<lparr>p_heap := deallocate h, p_length := 0, p_buffer := None\<rparr>)
                 | (Some newbuffer, h) \<Rightarrow>
                     Inr (True, p\<lparr>p_heap := h, p_length := newsize, p_buffer := Some newbuffer\<rparr>))
              else
                (case allocate newsize (p_heap p) of
                   (False, h) \<Rightarrow> Inr (False, p\<lparr>p_heap := deallocate h, p_length := 0, p_buffer := None\<rparr>)
                 | (True, h) \<Rightarrow>
                     bind_res (memcpy (fresh_block (p_fresh p) (p_heap p) newsize) 0 blk (p_offset p + 1)) (\<lambda>newbuffer.
                     Inr (True, p\<lparr>p_heap := deallocate h, p_length := newsize, p_buffer := Some newbuffer\<rparr>))))"

definition update_offset :: "printbuffer \<Rightarrow> printbuffer outcome" where
  "update_offset p =
     (case p_buffer p of
        None \<Rightarrow> Inr p
      | Some blk \<Rightarrow>
          bind_res (strlen (drop (p_offset p) blk)) (\<lambda>n. Inr (p\<lparr>p_offset := p_offset p + n\<rparr>)))"

text \<open>
  What every printing function does: reserve \<open>needed\<close> bytes, give up where that fails, store bytes
  from the offset on, and advance the offset.
\<close>

definition store :: "u8 list \<Rightarrow> printbuffer \<Rightarrow> printbuffer outcome" where
  "store bs p =
     (case p_buffer p of
        None \<Rightarrow> Inl Null_deref
      | Some blk \<Rightarrow>
          bind_res (memcpy blk (p_offset p) bs (length bs)) (\<lambda>blk. Inr (p\<lparr>p_buffer := Some blk\<rparr>)))"

definition emit :: "nat \<Rightarrow> u8 list \<Rightarrow> nat \<Rightarrow> printbuffer \<Rightarrow> (bool \<times> printbuffer) outcome" where
  "emit needed bs adv p =
     bind_res (ensure needed p) (\<lambda>(ok, p).
     if \<not> ok then Inr (False, p)
     else bind_res (store bs p) (\<lambda>p. Inr (True, p\<lparr>p_offset := p_offset p + adv\<rparr>)))"

text \<open>Calls one after the other, up to the first that fails.\<close>

definition and_then ::
    "(printbuffer \<Rightarrow> (bool \<times> printbuffer) outcome) \<Rightarrow> (printbuffer \<Rightarrow> (bool \<times> printbuffer) outcome) \<Rightarrow>
       printbuffer \<Rightarrow> (bool \<times> printbuffer) outcome" where
  "and_then f g p = bind_res (f p) (\<lambda>(ok, p). if ok then g p else Inr (False, p))"

lemma and_then_cong [fundef_cong]:
  assumes "p = q" "f q = f' q" "\<And>r. f' q = Inr (True, r) \<Longrightarrow> g r = g' r"
  shows "and_then f g p = and_then f' g' q"
  unfolding and_then_def using assms by (auto intro!: bind_res_cong)

definition advanced :: "printbuffer \<Rightarrow> (bool \<times> printbuffer) outcome" where
  "advanced p = bind_res (update_offset p) (\<lambda>p. Inr (True, p))"

definition deeper :: "printbuffer \<Rightarrow> (bool \<times> printbuffer) outcome" where
  "deeper p = Inr (True, p\<lparr>p_depth := p_depth p + 1\<rparr>)"

definition shallower :: "printbuffer \<Rightarrow> (bool \<times> printbuffer) outcome" where
  "shallower p = Inr (True, p\<lparr>p_depth := p_depth p - 1\<rparr>)"

subsection \<open>Strings and numbers\<close>

text \<open>How many bytes a character takes more than one, and the letter of a short escape sequence.\<close>

definition short_escape :: "u8 \<Rightarrow> u8 option" where
  "short_escape c =
     (if c = 0x5C then Some 0x5C
      else if c = 0x22 then Some 0x22
      else if c = 0x08 then Some 0x62
      else if c = 0x0C then Some 0x66
      else if c = 0x0A then Some 0x6E
      else if c = 0x0D then Some 0x72
      else if c = 0x09 then Some 0x74
      else None)"

fun count_escapes :: "u8 list \<Rightarrow> nat" where
  "count_escapes [] = 0"
| "count_escapes (c # cs) =
     (if short_escape c \<noteq> None then 1 else if c < 32 then 5 else 0) + count_escapes cs"

definition hex_char :: "u8 \<Rightarrow> u8" where
  "hex_char n = (if n < 10 then 0x30 + n else 0x61 + (n - 10))"

text \<open>\<open>sprintf\<close> with \<open>u%04x\<close> on a byte, its terminator included.\<close>

definition format_u04x :: "u8 \<Rightarrow> u8 list" where
  "format_u04x c = [0x75, 0x30, 0x30, hex_char (drop_bit 4 c), hex_char (c AND 15), 0]"

fun escape_loop :: "u8 list \<Rightarrow> nat \<Rightarrow> u8 list \<Rightarrow> u8 list outcome" where
  "escape_loop [] pos blk = Inr blk"
| "escape_loop (c # cs) pos blk =
     (if 31 < c \<and> c \<noteq> 0x22 \<and> c \<noteq> 0x5C then
        bind_res (memcpy blk pos [c] 1) (\<lambda>blk. escape_loop cs (pos + 1) blk)
      else
        bind_res (memcpy blk pos [0x5C] 1) (\<lambda>blk.
        case short_escape c of
          Some e \<Rightarrow> bind_res (memcpy blk (pos + 1) [e] 1) (\<lambda>blk. escape_loop cs (pos + 2) blk)
        | None \<Rightarrow> bind_res (memcpy blk (pos + 1) (format_u04x c) 6) (\<lambda>blk. escape_loop cs (pos + 6) blk)))"

definition print_string_ptr :: "u8 list option \<Rightarrow> printbuffer \<Rightarrow> (bool \<times> printbuffer) outcome" where
  "print_string_ptr input p =
     (case input of
        None \<Rightarrow> emit 3 [0x22, 0x22, 0] 0 p
      | Some s \<Rightarrow>
          bind_res (c_str s) (\<lambda>cs.
          let escape_characters = count_escapes cs; output_length = length cs + escape_characters in
          bind_res (ensure (output_length + 3) p) (\<lambda>(ok, p).
          if \<not> ok then Inr (False, p)
          else if escape_characters = 0 then
            bind_res (store ([0x22] @ cs @ [0x22, 0]) p) (\<lambda>p. Inr (True, p))
          else
            (case p_buffer p of
               None \<Rightarrow> Inl Null_deref
             | Some blk \<Rightarrow>
                 bind_res (memcpy blk (p_offset p) [0x22] 1) (\<lambda>blk.
                 bind_res (escape_loop cs (p_offset p + 1) blk) (\<lambda>blk.
                 bind_res (memcpy blk (p_offset p + output_length + 1) [0x22, 0] 2) (\<lambda>blk.
                 Inr (True, p\<lparr>p_buffer := Some blk\<rparr>))))))))"

definition print_string :: "item \<Rightarrow> printbuffer \<Rightarrow> (bool \<times> printbuffer) outcome" where
  "print_string f p = print_string_ptr (i_valuestring f) p"

text \<open>The temporary buffer has 26 bytes, the last for the terminator.\<close>

definition print_number :: "item \<Rightarrow> printbuffer \<Rightarrow> (bool \<times> printbuffer) outcome" where
  "print_number f p =
     (let s = number_text f in
      if 26 \<le> length s then Inl OOB_write
      else emit (length s + 1) (map (\<lambda>c. if c = get_decimal_point then 0x2E else c) s @ [0]) (length s) p)"

subsection \<open>Values\<close>

definition separator :: "bool \<Rightarrow> u8 list" where
  "separator fmt = (if fmt then [0x2C, 0x20] else [0x2C])"

definition open_object :: "bool \<Rightarrow> u8 list" where
  "open_object fmt = (if fmt then [0x7B, 0x0A] else [0x7B])"

definition colon :: "bool \<Rightarrow> u8 list" where
  "colon fmt = (if fmt then [0x3A, 0x09] else [0x3A])"

definition member_end :: "bool \<Rightarrow> bool \<Rightarrow> u8 list" where
  "member_end fmt comma = (if comma then [0x2C] else []) @ (if fmt then [0x0A] else [])"

definition indent :: "printbuffer \<Rightarrow> (bool \<times> printbuffer) outcome" where
  "indent p = (if p_format p then emit (p_depth p) (replicate (p_depth p) 0x09) (p_depth p) p else Inr (True, p))"

definition close_object :: "printbuffer \<Rightarrow> (bool \<times> printbuffer) outcome" where
  "close_object p =
     (if p_format p then emit (p_depth p + 1) (replicate (p_depth p - 1) 0x09 @ [0x7D, 0]) 0 p
      else emit 2 [0x7D, 0] 0 p)"

text \<open>\<open>print_array\<close> and \<open>print_object\<close> around their loops over the children.\<close>

definition print_array ::
    "(printbuffer \<Rightarrow> (bool \<times> printbuffer) outcome) \<Rightarrow> printbuffer \<Rightarrow> (bool \<times> printbuffer) outcome" where
  "print_array body =
     and_then (emit 1 [0x5B] 1)
       (and_then deeper
       (and_then body
       (and_then (emit 2 [0x5D, 0] 0) shallower)))"

definition print_object ::
    "(printbuffer \<Rightarrow> (bool \<times> printbuffer) outcome) \<Rightarrow> printbuffer \<Rightarrow> (bool \<times> printbuffer) outcome" where
  "print_object body p =
     (let s = open_object (p_format p) in
      and_then (emit (length s + 1) s (length s))
        (and_then deeper
        (and_then body
        (and_then close_object shallower))) p)"

lemma print_around_cong [fundef_cong]:
  "p = q \<Longrightarrow> (\<And>r. f r = f' r) \<Longrightarrow> print_array f p = print_array f' q"
  "p = q \<Longrightarrow> (\<And>r. f r = f' r) \<Longrightarrow> print_object f p = print_object f' q"
proof -
  assume "p = q" "\<And>r. f r = f' r"
  then have "p = q" "f = f'" by auto
  then show "print_array f p = print_array f' q" "print_object f p = print_object f' q" by simp_all
qed

text \<open>\<open>print_value\<close>, and the loops over the elements of an array and the members of an object.\<close>

fun print_value :: "cJSON \<Rightarrow> printbuffer \<Rightarrow> (bool \<times> printbuffer) outcome"
  and print_elements :: "cJSON list \<Rightarrow> printbuffer \<Rightarrow> (bool \<times> printbuffer) outcome"
  and print_members :: "cJSON list \<Rightarrow> printbuffer \<Rightarrow> (bool \<times> printbuffer) outcome" where
  "print_value (Item f cs) p =
     (let t = i_type f AND 0xFF in
      if t = cJSON_NULL then emit 5 (lit ''null'' @ [0]) 0 p
      else if t = cJSON_False then emit 6 (lit ''false'' @ [0]) 0 p
      else if t = cJSON_True then emit 5 (lit ''true'' @ [0]) 0 p
      else if t = cJSON_Number then print_number f p
      else if t = cJSON_Raw then
        (case i_valuestring f of
           None \<Rightarrow> Inr (False, p)
         | Some s \<Rightarrow> bind_res (c_str s) (\<lambda>raw. emit (length raw + 1) (raw @ [0]) 0 p))
      else if t = cJSON_String then print_string f p
      else if t = cJSON_Array then print_array (print_elements cs) p
      else if t = cJSON_Object then print_object (print_members cs) p
      else Inr (False, p))"
| "print_elements [] p = Inr (True, p)"
| "print_elements (c # cs) p =
     and_then (print_value c)
       (and_then advanced
       (and_then (\<lambda>p. let s = separator (p_format p) in
                    if cs \<noteq> [] then emit (length s + 1) (s @ [0]) (length s) p else Inr (True, p))
         (print_elements cs))) p"
| "print_members [] p = Inr (True, p)"
| "print_members (c # cs) p =
     and_then indent
       (and_then (print_string_ptr (i_string (item_of c)))
       (and_then advanced
       (and_then (\<lambda>p. let s = colon (p_format p) in emit (length s) s (length s) p)
       (and_then (print_value c)
       (and_then advanced
       (and_then (\<lambda>p. let s = member_end (p_format p) (cs \<noteq> []) in emit (length s + 1) (s @ [0]) (length s) p)
         (print_members cs))))))) p"

subsection \<open>The interface\<close>

definition print :: "bool \<Rightarrow> (nat \<Rightarrow> nat \<Rightarrow> u8) \<Rightarrow> cJSON option \<Rightarrow> bool \<Rightarrow> heap \<Rightarrow> (u8 list option \<times> heap) outcome" where
  "print realloc mem it fmt h =
     (case allocate 256 h of
        (False, h) \<Rightarrow> Inr (None, h)
      | (True, h') \<Rightarrow>
          let p = \<lparr>p_buffer = Some (fresh_block mem h 256), p_length = 256, p_offset = 0, p_depth = 0,
                   p_noalloc = False, p_format = fmt, p_realloc = realloc, p_fresh = mem, p_heap = h'\<rparr>;
              fail = (\<lambda>p. Inr (None, free_if (p_buffer p \<noteq> None) (p_heap p)))
          in
          bind_res (case it of None \<Rightarrow> Inr (False, p) | Some c \<Rightarrow> print_value c p) (\<lambda>(ok, p).
          if \<not> ok then fail p
          else
            bind_res (update_offset p) (\<lambda>p.
            let blk = the (p_buffer p) in
            if realloc then
              (case reallocate mem blk (p_offset p + 1) (p_heap p) of
                 (None, h) \<Rightarrow> fail (p\<lparr>p_heap := h\<rparr>)
               | (Some printed, h) \<Rightarrow> Inr (Some printed, h))
            else
              (case allocate (p_offset p + 1) (p_heap p) of
                 (False, h) \<Rightarrow> fail (p\<lparr>p_heap := h\<rparr>)
               | (True, h) \<Rightarrow>
                   bind_res (memcpy (fresh_block mem (p_heap p) (p_offset p + 1)) 0 blk (min (p_length p) (p_offset p + 1))) (\<lambda>printed.
                   bind_res (memcpy printed (p_offset p) [0] 1) (\<lambda>printed.
                   Inr (Some printed, deallocate h)))))))"

definition cJSON_Print :: "bool \<Rightarrow> (nat \<Rightarrow> nat \<Rightarrow> u8) \<Rightarrow> cJSON option \<Rightarrow> heap \<Rightarrow> (u8 list option \<times> heap) outcome" where
  "cJSON_Print realloc mem it h = print realloc mem it True h"

definition cJSON_PrintUnformatted ::
    "bool \<Rightarrow> (nat \<Rightarrow> nat \<Rightarrow> u8) \<Rightarrow> cJSON option \<Rightarrow> heap \<Rightarrow> (u8 list option \<times> heap) outcome" where
  "cJSON_PrintUnformatted realloc mem it h = print realloc mem it False h"

definition cJSON_PrintBuffered ::
    "bool \<Rightarrow> (nat \<Rightarrow> nat \<Rightarrow> u8) \<Rightarrow> cJSON option \<Rightarrow> int \<Rightarrow> bool \<Rightarrow> heap \<Rightarrow> (u8 list option \<times> heap) outcome" where
  "cJSON_PrintBuffered realloc mem it prebuffer fmt h =
     (if prebuffer < 0 then Inr (None, h)
      else
        (case allocate (nat prebuffer) h of
           (False, h) \<Rightarrow> Inr (None, h)
         | (True, h') \<Rightarrow>
             let p = \<lparr>p_buffer = Some (fresh_block mem h (nat prebuffer)), p_length = nat prebuffer, p_offset = 0,
                      p_depth = 0, p_noalloc = False, p_format = fmt, p_realloc = realloc, p_fresh = mem, p_heap = h'\<rparr>
             in
             bind_res (case it of None \<Rightarrow> Inr (False, p) | Some c \<Rightarrow> print_value c p) (\<lambda>(ok, p).
             Inr (if ok then (p_buffer p, p_heap p) else (None, free_if (p_buffer p \<noteq> None) (p_heap p))))))"

text \<open>The buffer is the caller's; the result is its contents afterwards.\<close>

definition cJSON_PrintPreallocated ::
    "bool \<Rightarrow> cJSON option \<Rightarrow> u8 list option \<Rightarrow> int \<Rightarrow> bool \<Rightarrow> heap \<Rightarrow> (bool \<times> u8 list option \<times> heap) outcome" where
  "cJSON_PrintPreallocated realloc it buffer len fmt h =
     (if len < 0 \<or> buffer = None then Inr (False, buffer, h)
      else
        let p = \<lparr>p_buffer = buffer, p_length = nat len, p_offset = 0, p_depth = 0, p_noalloc = True,
                 p_format = fmt, p_realloc = realloc, p_fresh = (\<lambda>_ _. 0), p_heap = h\<rparr> in
        bind_res (case it of None \<Rightarrow> Inr (False, p) | Some c \<Rightarrow> print_value c p) (\<lambda>(ok, p).
        Inr (ok, p_buffer p, p_heap p)))"

end
