(* ===== verification/Json_Format.thy ===== *)
theory Json_Format
  imports Json_Print
begin

text \<open>
  The texts of numbers: their characters, and that every one of them fits the 26 bytes that
  \<open>print_number\<close> has for it.
\<close>

subsection \<open>Decimal digits\<close>

lemma decimal_digits: "c \<in> set (decimal n) \<Longrightarrow> digit c"
proof (induction n rule: decimal.induct)
  case (1 n)
  have "digit (0x30 + of_nat k)" if "k < 10" for k
  proof -
    have "k = 0 \<or> k = 1 \<or> k = 2 \<or> k = 3 \<or> k = 4 \<or> k = 5 \<or> k = 6 \<or> k = 7 \<or> k = 8 \<or> k = 9" using that by auto
    then show ?thesis by (elim disjE) (simp_all add: digit_def)
  qed
  then show ?case using 1 by (subst (asm) (2) decimal.simps) (auto split: if_splits)
qed

lemma length_decimal: "n < 10 ^ k \<Longrightarrow> 0 < k \<Longrightarrow> length (decimal n) \<le> k"
proof (induction k arbitrary: n)
  case (Suc k)
  show ?case
  proof (cases "n < 10")
    case False
    then have "k \<noteq> 0" using Suc.prems by (cases k) auto
    moreover have "n div 10 < 10 ^ k" using Suc.prems by (simp add: less_mult_imp_div_less mult.commute)
    ultimately show ?thesis using Suc.IH [of "n div 10"] False by (simp add: decimal.simps [of n])
  qed (simp add: decimal.simps [of n])
qed simp

lemma decimal_bounds: "n < 10 ^ length (decimal n)" "n \<noteq> 0 \<Longrightarrow> 10 ^ (length (decimal n) - 1) \<le> n"
proof (induction n rule: decimal.induct)
  case (1 n)
  {
    case 1
    show ?case
    proof (cases "n < 10")
      case False
      then have "n div 10 < 10 ^ length (decimal (n div 10))" using "1.IH"(1) by simp
      then show ?thesis using False by (subst decimal.simps) simp
    qed (simp add: decimal.simps [of n])
  next
    case 2
    show ?case
    proof (cases "n < 10")
      case False
      then have "10 ^ (length (decimal (n div 10)) - 1) \<le> n div 10" "n div 10 \<noteq> 0" using "1.IH"(2) by simp_all
      then show ?thesis using False by (subst decimal.simps) (cases "decimal (n div 10)", auto simp: decimal.simps [of "n div 10"])
    qed (use 2 in \<open>simp add: decimal.simps [of n]\<close>)
  }
qed

lemma decimal_nonempty [simp]: "decimal n \<noteq> []"
  by (subst decimal.simps) simp

lemma digit_count_less: "n < 10 ^ digit_count n"
  by (simp add: digit_count_def decimal_bounds(1))

lemma digit_count_ge: "0 < digit_count n \<Longrightarrow> 10 ^ (digit_count n - 1) \<le> n"
  using decimal_bounds(2) [of n] by (auto simp: digit_count_def split: if_splits)

lemma digit_count_le: "n < 10 ^ k \<Longrightarrow> digit_count n \<le> k"
  using length_decimal [of n k] by (cases k) (auto simp: digit_count_def)

subsection \<open>Significant digits\<close>

lemma exponent10_upper:
  assumes "0 < n" "0 < d"
  shows "n * 10 ^ nat (- exponent10 n d - 1) < d * 10 ^ nat (exponent10 n d + 1)"
proof (cases "d \<le> n")
  case True
  have "n div d \<noteq> 0" using True assms by (simp add: div_eq_0_iff)
  then have "0 < digit_count (n div d)" by (simp add: digit_count_def)
  moreover have "n < d * 10 ^ digit_count (n div d)"
    using digit_count_less [of "n div d"] assms by (metis div_less_iff_less_mult mult.commute)
  ultimately show ?thesis using True by (simp add: exponent10_def nat_diff_distrib')
next
  case False
  let ?c = "digit_count ((d - 1) div n)"
  have "(d - 1) div n \<noteq> 0" using False assms by (simp add: div_eq_0_iff)
  then have c: "0 < ?c" by (simp add: digit_count_def)
  have "n * 10 ^ (?c - 1) \<le> n * ((d - 1) div n)" using digit_count_ge [OF c] by simp
  also have "\<dots> < d" using assms by (metis div_times_less_eq_dividend mult.commute le_imp_less_Suc Suc_pred')
  finally have "n * 10 ^ (?c - 1) < d" .
  moreover have "nat (int ?c - 1) = ?c - 1" "nat (1 - int ?c) = 0" using c by linarith+
  ultimately show ?thesis using False by (simp add: exponent10_def)
qed

lemma div_even_le: "0 < b \<Longrightarrow> a < k * b \<Longrightarrow> div_even a b \<le> k"
proof -
  assume "0 < b" "a < k * b"
  then have "a div b < k" by (simp add: less_mult_imp_div_less)
  then show ?thesis by (auto simp: div_even_def Let_def)
qed

lemma significant_digits:
  assumes "0 < n" "0 < d" "0 < prec" "significant prec n d = (q, x)"
  shows "length (decimal q) \<le> prec" "x = exponent10 n d \<or> x = exponent10 n d + 1"
proof -
  let ?x = "exponent10 n d" let ?k = "int prec - 1 - ?x"
  let ?q = "div_even (n * 10 ^ nat ?k) (d * 10 ^ nat (- ?k))"
  have up: "n * 10 ^ nat (- ?x - 1) < d * 10 ^ nat (?x + 1)" by (rule exponent10_upper [OF assms(1,2)])
  have "n * 10 ^ nat ?k < 10 ^ prec * (d * 10 ^ nat (- ?k))"
  proof (cases "?x + 1 \<le> 0")
    case True
    then have "nat ?k = nat (- ?x - 1) + prec" "nat (- ?k) = 0" "nat (?x + 1) = 0" by linarith+
    then show ?thesis using up by (simp add: power_add)
  next
    case False
    then have s: "nat (- ?x - 1) = 0" by linarith
    show ?thesis
    proof (cases "0 \<le> ?k")
      case True
      then have "nat (?x + 1) + nat ?k = prec" "nat (- ?k) = 0" using False by linarith+
      then have "10 ^ prec = 10 ^ nat (?x + 1) * (10 :: nat) ^ nat ?k" by (metis power_add)
      then show ?thesis using up s \<open>nat (- ?k) = 0\<close> by (simp add: mult.commute)
    next
      case k: False
      then have "nat (?x + 1) = prec + nat (- ?k)" "nat ?k = 0" using False by linarith+
      then show ?thesis using up s by (simp add: power_add mult.left_commute)
    qed
  qed
  then have q: "?q \<le> 10 ^ prec" using assms(2) by (intro div_even_le) simp_all
  have r: "q = (if 10 ^ prec \<le> ?q then ?q div 10 else ?q)" "x = (if 10 ^ prec \<le> ?q then ?x + 1 else ?x)"
    using assms(4) by (auto simp: significant_def Let_def split: if_splits)
  show "x = ?x \<or> x = ?x + 1" using r(2) by simp
  have "q < 10 ^ prec"
  proof (cases "10 ^ prec \<le> ?q")
    case True
    then have "q = 10 ^ prec div 10" using q r(1) by (metis le_antisym)
    then show ?thesis by simp
  qed (use r(1) in simp)
  then show "length (decimal q) \<le> prec" using assms(3) by (rule length_decimal)
qed


subsection \<open>The temporary buffer is large enough\<close>

text \<open>Every IEEE double has such a representation.\<close>

definition wf_double :: "double \<Rightarrow> bool" where
  "wf_double d \<longleftrightarrow>
     (case d of Fin s m e \<Rightarrow> m = 0 \<or> - 1074 \<le> e \<and> m * 2 ^ nat e < 2 ^ 1024 * 2 ^ nat (- e) | _ \<Rightarrow> True)"

lemma powers: "(2 :: nat) ^ 1024 < 10 ^ 309" "(2 :: nat) ^ 1074 < 10 ^ 324"
  by simp_all

lemma exponent10_bounds:
  assumes "wf_double (Fin s m e)" "0 < m"
  shows "- 324 \<le> exponent10 (m * 2 ^ nat e) (2 ^ nat (- e))" "exponent10 (m * 2 ^ nat e) (2 ^ nat (- e)) \<le> 308"
proof -
  let ?n = "m * 2 ^ nat e" let ?d = "2 ^ nat (- e) :: nat"
  have wf: "- 1074 \<le> e" "?n < 2 ^ 1024 * ?d" using assms unfolding wf_double_def double.case by auto
  have "?n div ?d < 2 ^ 1024" by (rule less_mult_imp_div_less [OF wf(2)])
  then have "digit_count (?n div ?d) \<le> 309" by (rule digit_count_le [OF less_trans [OF _ powers(1)]])
  moreover have "(?d - 1) div ?n < 2 ^ 1074"
  proof (rule le_less_trans [OF div_le_dividend])
    have "?d - 1 < ?d" by simp
    also have "?d \<le> 2 ^ 1074" by (rule power_increasing) (use wf(1) in linarith, simp)
    finally show "?d - 1 < 2 ^ 1074" .
  qed
  then have "digit_count ((?d - 1) div ?n) \<le> 324" by (rule digit_count_le [OF less_trans [OF _ powers(2)]])
  ultimately show "- 324 \<le> exponent10 ?n ?d" "exponent10 ?n ?d \<le> 308"
    unfolding exponent10_def by (simp_all only: split: if_split) (linarith | intro conjI impI | linarith)+
qed

lemma length_strip_zeros: "length (strip_zeros ds) \<le> length ds"
  unfolding strip_zeros_def by (metis length_dropWhile_le length_rev)

lemma length_with_fraction: "length (with_fraction a b) \<le> length a + length b + 1"
  by (simp add: with_fraction_def)

lemma length_exponent_text:
  assumes "\<bar>x\<bar> < 1000"
  shows "length (exponent_text x) \<le> 5"
proof -
  have "length (decimal (nat \<bar>x\<bar>)) \<le> 3" using assms by (intro length_decimal) simp_all
  then show ?thesis by (auto simp: exponent_text_def Let_def)
qed

lemma length_digits_text:
  assumes "length (decimal q) \<le> prec" "\<bar>x\<bar> < 1000"
  shows "length (digits_text prec q x) \<le> prec + 6"
proof -
  let ?ds = "decimal q"
  have w: "length (with_fraction (take k ?ds) (strip_zeros (drop k ?ds))) \<le> prec + 1" for k
    using length_with_fraction [of "take k ?ds" "strip_zeros (drop k ?ds)"] length_strip_zeros [of "drop k ?ds"] assms(1)
    by simp
  have f: "length (with_fraction [0x30] (replicate (nat (- x) - 1) 0x30 @ strip_zeros ?ds)) \<le> prec + 6" if "- 4 \<le> x"
    using length_with_fraction [of "[0x30]" "replicate (nat (- x) - 1) 0x30 @ strip_zeros ?ds"]
      length_strip_zeros [of ?ds] assms(1) that by simp
  show ?thesis
    using w [of 1] w [of "nat x + 1"] f length_exponent_text [OF assms(2)]
    by (auto simp: digits_text_def Let_def simp del: One_nat_def)
qed

lemma length_format_g:
  assumes "wf_double d" "0 < prec" "prec \<le> 17"
  shows "length (format_g prec d) \<le> 24"
proof (cases d)
  case (Fin s m e)
  show ?thesis
  proof (cases "m = 0")
    case False
    obtain q x where r: "significant prec (m * 2 ^ nat e) (2 ^ nat (- e)) = (q, x)" by fastforce
    have m: "0 < m * 2 ^ nat e" using False by simp
    have q: "length (decimal q) \<le> prec" by (rule significant_digits(1) [OF m _ assms(2) r]) simp
    have "x = exponent10 (m * 2 ^ nat e) (2 ^ nat (- e)) \<or> x = exponent10 (m * 2 ^ nat e) (2 ^ nat (- e)) + 1"
      by (rule significant_digits(2) [OF m _ assms(2) r]) simp
    then have "\<bar>x\<bar> < 1000" using exponent10_bounds [of s m e] assms(1) Fin False by auto
    then have "length (digits_text prec q x) \<le> prec + 6" by (rule length_digits_text [OF q])
    then show ?thesis using assms(3) by (simp add: format_g_def Fin r)
  qed (simp add: format_g_def Fin)
qed (simp_all add: format_g_def lit_def)

lemma length_format_d:
  assumes "- (2 ^ 31) \<le> k" "k < 2 ^ 31"
  shows "length (format_d k) \<le> 11"
proof -
  have "length (decimal (nat \<bar>k\<bar>)) \<le> 10" using assms by (intro length_decimal) auto
  then show ?thesis by (cases "k < 0") (auto simp: format_d_def)
qed

definition wf_number :: "item \<Rightarrow> bool" where
  "wf_number f \<longleftrightarrow> wf_double (i_valuedouble f) \<and> - (2 ^ 31) \<le> i_valueint f \<and> i_valueint f < 2 ^ 31"

lemma length_number_text: "wf_number f \<Longrightarrow> length (number_text f) < 26"
  using length_format_g [of "i_valuedouble f" 15] length_format_g [of "i_valuedouble f" 17] length_format_d [of "i_valueint f"]
  by (auto simp: number_text_def wf_number_def lit_def Let_def split: prod.split)

subsection \<open>Characters\<close>

lemma set_strip_zeros: "set (strip_zeros ds) \<subseteq> set ds"
  by (auto simp: strip_zeros_def dest: set_dropWhileD)

lemma number_text_nonzero: "0 \<notin> set (number_text f)"
proof -
  have d: "0 \<notin> set (decimal n)" for n using decimal_digits [of 0 n] by (auto simp: digit_def)
  have s: "0 \<notin> set (strip_zeros ds)" if "0 \<notin> set ds" for ds using set_strip_zeros that by blast
  have t: "0 \<notin> set (digits_text prec q x)" for prec q x
    using d [of q] s [of "decimal q"] s [of "drop k (decimal q)" for k] d [of "nat \<bar>x\<bar>"]
    by (auto simp: digits_text_def with_fraction_def exponent_text_def Let_def dest: in_set_takeD in_set_dropD)
  have "0 \<notin> set (format_g prec x)" for prec x
    using t by (auto simp: format_g_def lit_def Let_def split: double.split prod.split)
  moreover have "0 \<notin> set (format_d k)" for k using d by (simp add: format_d_def)
  ultimately show ?thesis by (auto simp: number_text_def lit_def Let_def split: prod.split)
qed

end
