(* ===== verification/Json_Render.thy ===== *)
theory Json_Render
  imports Json_Format
begin

text \<open>
  What the printer writes: a pure rendering of a tree, and the proof that every printing function
  appends exactly the rendering of its part to the buffer, touches nothing outside it, and gives up only
  for want of memory or at an item that has no text.
\<close>

subsection \<open>Rendering\<close>

text \<open>An item without a text, such as one of type invalid, makes the whole tree have none.\<close>

definition cat :: "'a list option \<Rightarrow> 'a list option \<Rightarrow> 'a list option" where
  "cat a b = (case a of None \<Rightarrow> None | Some x \<Rightarrow> map_option ((@) x) b)"

definition escape :: "u8 \<Rightarrow> u8 list" where
  "escape c =
     (case short_escape c of
        Some e \<Rightarrow> [0x5C, e]
      | None \<Rightarrow> if c < 32 then [0x5C, 0x75, 0x30, 0x30, hex_char (drop_bit 4 c), hex_char (c AND 15)] else [c])"

definition render_string :: "u8 list option \<Rightarrow> u8 list" where
  "render_string s = [0x22] @ (case s of None \<Rightarrow> [] | Some s \<Rightarrow> concat (map escape (cstr s))) @ [0x22]"

definition close_text :: "bool \<Rightarrow> nat \<Rightarrow> u8 list" where
  "close_text fmt d = (if fmt then replicate d 0x09 else []) @ [0x7D]"

fun render :: "bool \<Rightarrow> nat \<Rightarrow> cJSON \<Rightarrow> u8 list option"
  and render_elements :: "bool \<Rightarrow> nat \<Rightarrow> cJSON list \<Rightarrow> u8 list option"
  and render_members :: "bool \<Rightarrow> nat \<Rightarrow> cJSON list \<Rightarrow> u8 list option" where
  "render fmt d (Item f cs) =
     (let t = i_type f AND 0xFF in
      if t = cJSON_NULL then Some (lit ''null'')
      else if t = cJSON_False then Some (lit ''false'')
      else if t = cJSON_True then Some (lit ''true'')
      else if t = cJSON_Number then Some (number_text f)
      else if t = cJSON_Raw then map_option cstr (i_valuestring f)
      else if t = cJSON_String then Some (render_string (i_valuestring f))
      else if t = cJSON_Array then cat (Some [0x5B]) (cat (render_elements fmt (d + 1) cs) (Some [0x5D]))
      else if t = cJSON_Object then
        cat (Some (open_object fmt)) (cat (render_members fmt (d + 1) cs) (Some (close_text fmt d)))
      else None)"
| "render_elements fmt d [] = Some []"
| "render_elements fmt d (c # cs) =
     cat (render fmt d c) (cat (Some (if cs = [] then [] else separator fmt)) (render_elements fmt d cs))"
| "render_members fmt d [] = Some []"
| "render_members fmt d (c # cs) =
     cat (Some ((if fmt then replicate d 0x09 else []) @ render_string (i_string (item_of c)) @ colon fmt))
       (cat (render fmt d c) (cat (Some (member_end fmt (cs \<noteq> []))) (render_members fmt d cs)))"

subsection \<open>The buffer\<close>

definition pb_ok :: "printbuffer \<Rightarrow> bool" where
  "pb_ok p \<longleftrightarrow> (\<forall>blk. p_buffer p = Some blk \<longrightarrow>
     p_length p \<le> length blk \<and> (p_noalloc p \<or> p_realloc p \<or> 0 < p_length p) \<and>
     (p_offset p < p_length p \<or> p_length p = 0 \<and> p_offset p = 0)) \<and>
     (p_noalloc p \<longrightarrow> p_buffer p \<noteq> None)"

text \<open>What the functions keep: the blocks the caller has beside the buffer, and the settings.\<close>

definition keep :: "printbuffer \<Rightarrow> printbuffer \<Rightarrow> bool" where
  "keep p p' \<longleftrightarrow> pb_ok p' \<and> h_answer (p_heap p') = h_answer (p_heap p) \<and>
     p_noalloc p' = p_noalloc p \<and> p_format p' = p_format p \<and> p_realloc p' = p_realloc p \<and>
     h_live (p_heap p') - of_bool (p_buffer p' \<noteq> None) = h_live (p_heap p) - of_bool (p_buffer p \<noteq> None) \<and>
     (p_noalloc p \<longrightarrow> p_length p' = p_length p \<and> map_option length (p_buffer p') = map_option length (p_buffer p))"

definition capacity :: "printbuffer \<Rightarrow> nat" where
  "capacity p = (if p_noalloc p then min (p_length p) (nat INT_MAX) else nat INT_MAX)"

text \<open>Why printing \<open>n\<close> more bytes may fail.\<close>

definition full :: "printbuffer \<Rightarrow> nat \<Rightarrow> bool" where
  "full p n \<longleftrightarrow> \<not> p_noalloc p \<and> (\<exists>k j. \<not> h_answer (p_heap p) k j) \<or> capacity p < p_offset p + n + 2"

definition has_text :: "printbuffer \<Rightarrow> u8 list \<Rightarrow> printbuffer \<Rightarrow> bool" where
  "has_text p s p' \<longleftrightarrow> (\<exists>blk blk'. p_buffer p = Some blk \<and> p_buffer p' = Some blk' \<and>
     p_offset p + length s \<le> p_length p' \<and>
     take (p_offset p + length s) blk' = take (p_offset p) blk @ s)"

text \<open>The offset stands behind the text, or somewhere in it with a terminator behind the text.\<close>

definition wrote :: "printbuffer \<Rightarrow> u8 list \<Rightarrow> printbuffer \<Rightarrow> bool" where
  "wrote p s p' \<longleftrightarrow> has_text p s p' \<and> p_offset p' = p_offset p + length s"

definition pending :: "printbuffer \<Rightarrow> u8 list \<Rightarrow> printbuffer \<Rightarrow> bool" where
  "pending p s p' \<longleftrightarrow> has_text p (s @ [0]) p' \<and> p_offset p \<le> p_offset p' \<and>
     p_offset p' \<le> p_offset p + length s \<and> 0 \<notin> set (drop (p_offset p' - p_offset p) s)"

definition prints ::
    "(printbuffer \<Rightarrow> u8 list \<Rightarrow> printbuffer \<Rightarrow> bool) \<Rightarrow> u8 list option \<Rightarrow> nat \<Rightarrow> printbuffer \<Rightarrow> (bool \<times> printbuffer) outcome \<Rightarrow> bool" where
  "prints Q s d p r \<longleftrightarrow> (\<exists>ok p'. r = Inr (ok, p') \<and> keep p p' \<and>
     (if ok then \<exists>t. s = Some t \<and> Q p t p' \<and> p_depth p' = d
      else s = None \<or> full p (length (the s))))"

lemma printsI_ok: "keep p p' \<Longrightarrow> Q p t p' \<Longrightarrow> p_depth p' = d \<Longrightarrow> prints Q (Some t) d p (Inr (True, p'))"
  unfolding prints_def by (intro exI [of _ True]) simp

lemma printsI_fail: "keep p p' \<Longrightarrow> s = None \<or> full p (length (the s)) \<Longrightarrow> prints Q s d p (Inr (False, p'))"
  unfolding prints_def by (intro exI [of _ False]) simp

lemma keep_refl: "pb_ok p \<Longrightarrow> keep p p"
  by (simp add: keep_def)

lemma keep_trans: "keep p q \<Longrightarrow> keep q r \<Longrightarrow> keep p r"
  by (simp add: keep_def)

lemma keep_depth [simp]: "keep p (q\<lparr>p_depth := d\<rparr>) = keep p q" "keep (p\<lparr>p_depth := d\<rparr>) q = keep p q"
  by (simp_all add: keep_def pb_ok_def)

lemma ensure_cases:
  assumes "pb_ok p" "p_buffer p = Some blk"
  obtains (room) p' blk' where "ensure needed p = Inr (True, p')" "keep p p'" "p_buffer p' = Some blk'"
      "p_offset p' = p_offset p" "p_depth p' = p_depth p" "take (p_offset p) blk' = take (p_offset p) blk"
      "p_offset p + needed + 1 \<le> p_length p'"
  | (no_room) p' where "ensure needed p = Inr (False, p')" "keep p p'"
      "\<not> p_noalloc p \<and> (\<exists>k j. \<not> h_answer (p_heap p) k j) \<or> capacity p < p_offset p + needed + 1"
proof -
  have len: "p_length p \<le> length blk" "p_noalloc p \<or> p_realloc p \<or> 0 < p_length p"
    "p_offset p < p_length p \<or> p_length p = 0 \<and> p_offset p = 0"
    using assms by (auto simp: pb_ok_def)
  consider (fits) "needed \<le> nat INT_MAX" "needed + p_offset p + 1 \<le> p_length p"
    | (big) "nat INT_MAX < needed \<or>
        nat INT_MAX < needed + p_offset p + 1 \<and> \<not> needed + p_offset p + 1 \<le> p_length p"
    | (fixed) "needed \<le> nat INT_MAX" "\<not> needed + p_offset p + 1 \<le> p_length p" "p_noalloc p"
    | (grow) "\<not> needed + p_offset p + 1 \<le> p_length p" "\<not> p_noalloc p" "needed + p_offset p + 1 \<le> nat INT_MAX"
    by linarith
  then show thesis
  proof cases
    case fits
    then have "ensure needed p = Inr (True, p)" using assms(2) len by (auto simp: ensure_def)
    then show thesis using assms fits by (intro room) (auto simp: keep_refl)
  next
    case big
    then have "ensure needed p = Inr (False, p)" using assms(2) by (auto simp: ensure_def Let_def)
    then show thesis using assms big by (intro no_room) (auto simp: keep_refl capacity_def)
  next
    case fixed
    then have "ensure needed p = Inr (False, p)" using assms(2) by (auto simp: ensure_def Let_def)
    then show thesis using assms fixed by (intro no_room) (auto simp: keep_refl capacity_def)
  next
    case grow
    define n where "n = (if nat INT_MAX div 2 < needed + p_offset p + 1 then nat INT_MAX else (needed + p_offset p + 1) * 2)"
    have n: "needed + p_offset p + 1 \<le> n" using grow by (auto simp: n_def)
    let ?h = "(p_heap p)\<lparr>h_calls := Suc (h_calls (p_heap p))\<rparr>"
    let ?gone = "p\<lparr>p_heap := deallocate ?h, p_length := 0, p_buffer := None\<rparr>"
    have guards: "\<not> (0 < p_length p \<and> p_length p \<le> p_offset p)" "\<not> nat INT_MAX < needed"
      "\<not> (nat INT_MAX div 2 < needed + p_offset p + 1 \<and> nat INT_MAX < needed + p_offset p + 1)"
      using len grow by auto
    have ens: "ensure needed p =
        (if p_realloc p then
           (case reallocate (p_fresh p) blk n (p_heap p) of
              (None, h) \<Rightarrow> Inr (False, p\<lparr>p_heap := deallocate h, p_length := 0, p_buffer := None\<rparr>)
            | (Some newbuffer, h) \<Rightarrow> Inr (True, p\<lparr>p_heap := h, p_length := n, p_buffer := Some newbuffer\<rparr>))
         else
           (case allocate n (p_heap p) of
              (False, h) \<Rightarrow> Inr (False, p\<lparr>p_heap := deallocate h, p_length := 0, p_buffer := None\<rparr>)
            | (True, h) \<Rightarrow>
                bind_res (memcpy (fresh_block (p_fresh p) (p_heap p) n) 0 blk (p_offset p + 1)) (\<lambda>newbuffer.
                Inr (True, p\<lparr>p_heap := deallocate h, p_length := n, p_buffer := Some newbuffer\<rparr>))))"
      by (simp only: ensure_def assms(2) option.case guards grow if_False Let_def n_def [symmetric] cong: if_cong)
    show thesis
    proof (cases "h_answer (p_heap p) (h_calls (p_heap p)) n")
      case False
      have "ensure needed p = Inr (False, ?gone)"
        using False by (simp add: ens reallocate_def allocate_def Let_def)
      then show thesis
      proof (rule no_room)
        show "keep p ?gone" using assms grow(2) by (simp add: keep_def pb_ok_def)
      qed (use False grow(2) in blast)
    next
      case True
      show thesis
      proof (cases "p_realloc p")
        case re: True
        let ?blk = "take n blk @ map (p_fresh p (h_calls (p_heap p))) [length blk..<n]"
        let ?p = "p\<lparr>p_heap := ?h, p_length := n, p_buffer := Some ?blk\<rparr>"
        have "ensure needed p = Inr (True, ?p)"
          using True re by (simp add: ens reallocate_def Let_def)
        then show thesis
        proof (rule room)
          show "keep p ?p" using assms n(1) grow(2) re by (auto simp: keep_def pb_ok_def)
          have "p_offset p \<le> length blk" using len by linarith
          then show "take (p_offset p) ?blk = take (p_offset p) blk" using n(1) by simp
        qed (use n(1) in simp_all)
      next
        case nore: False
        then have off: "p_offset p < length blk" using len grow(2) by auto
        let ?blk = "take (p_offset p + 1) blk @ drop (p_offset p + 1) (fresh_block (p_fresh p) (p_heap p) n)"
        let ?p = "p\<lparr>p_heap := ?h, p_length := n, p_buffer := Some ?blk\<rparr>"
        have "memcpy (fresh_block (p_fresh p) (p_heap p) n) 0 blk (p_offset p + 1) = Inr ?blk"
          using off n(1) by (simp add: memcpy_def fresh_block_def)
        then have "ensure needed p = Inr (True, ?p)"
          using True nore by (simp add: ens allocate_def deallocate_def Let_def)
        then show thesis
        proof (rule room)
          show "keep p ?p" using assms n(1) grow(2) off by (auto simp: keep_def pb_ok_def fresh_block_def)
          show "take (p_offset p) ?blk = take (p_offset p) blk" using off by simp
        qed (use n(1) in simp_all)
      qed
    qed
  qed
qed

lemma memcpy_store:
  "off + length bs \<le> length blk \<Longrightarrow>
     \<exists>r. memcpy blk off bs (length bs) = Inr r \<and> length r = length blk \<and> take (off + length bs) r = take off blk @ bs \<and>
       take off r = take off blk"
  by (auto simp: memcpy_def)

lemma emit_cases:
  assumes "pb_ok p" "p_buffer p = Some blk" "length bs \<le> needed" "adv \<le> needed"
  obtains (room) p' blk' where "emit needed bs adv p = Inr (True, p')" "keep p p'" "p_buffer p' = Some blk'"
      "p_offset p' = p_offset p + adv" "p_depth p' = p_depth p"
      "take (p_offset p + length bs) blk' = take (p_offset p) blk @ bs" "p_offset p + needed + 1 \<le> p_length p'"
  | (no_room) p' where "emit needed bs adv p = Inr (False, p')" "keep p p'"
      "\<not> p_noalloc p \<and> (\<exists>k j. \<not> h_answer (p_heap p) k j) \<or> capacity p < p_offset p + needed + 1"
proof (cases rule: ensure_cases [OF assms(1,2), of needed])
  case (1 p1 blk1)
  have "p_length p1 \<le> length blk1" using 1(2,3) by (auto simp: keep_def pb_ok_def)
  then obtain r where r: "memcpy blk1 (p_offset p) bs (length bs) = Inr r" "length r = length blk1"
    "take (p_offset p + length bs) r = take (p_offset p) blk1 @ bs"
    using memcpy_store [of "p_offset p" bs blk1] 1(7) assms(3) by auto
  show thesis
  proof (rule room)
    show "emit needed bs adv p = Inr (True, p1\<lparr>p_buffer := Some r, p_offset := p_offset p1 + adv\<rparr>)"
      using 1 r(1) by (simp add: emit_def store_def)
    show "keep p (p1\<lparr>p_buffer := Some r, p_offset := p_offset p1 + adv\<rparr>)"
      using 1 r(2) assms(4) by (auto simp: keep_def pb_ok_def)
  qed (use 1 r in simp_all)
next
  case (2 p1)
  then show thesis by (intro no_room) (simp_all add: emit_def)
qed

lemma emit_pending:
  assumes "pb_ok p" "p_buffer p \<noteq> None" "adv \<le> length t" "0 \<notin> set t"
  shows "prints pending (Some t) (p_depth p) p (emit (length t + 1) (t @ [0]) adv p)"
proof -
  obtain blk where blk: "p_buffer p = Some blk" using assms(2) by blast
  have n: "length (t @ [0 :: u8]) \<le> length t + 1" "adv \<le> length t + 1" using assms(3) by simp_all
  show ?thesis
  proof (cases rule: emit_cases [OF assms(1) blk n])
    case (1 p' blk')
    have "pending p t p'"
      using 1 blk assms(3,4) by (auto simp: pending_def has_text_def dest: in_set_dropD)
    then show ?thesis using 1 by (simp add: printsI_ok)
  next
    case (2 p')
    then show ?thesis by (auto simp: full_def intro!: printsI_fail)
  qed
qed

lemma emit_wrote:
  assumes "pb_ok p" "p_buffer p \<noteq> None" "bs = t \<or> bs = t @ [0]" "length bs \<le> needed" "length t \<le> needed" "needed \<le> length t + 1"
  shows "prints wrote (Some t) (p_depth p) p (emit needed bs (length t) p)"
proof -
  obtain blk where blk: "p_buffer p = Some blk" using assms(2) by blast
  show ?thesis
  proof (cases rule: emit_cases [OF assms(1) blk assms(4,5)])
    case (1 p' blk')
    have "take (p_offset p + length t) blk' = take (p_offset p) blk @ t"
    proof (cases "bs = t")
      case False
      then have "bs = t @ [0]" using assms(3) by simp
      then have "take (p_offset p + length t) (take (p_offset p + length bs) blk') = take (p_offset p) blk @ t"
        using 1 blk assms(1) by (auto simp: pb_ok_def)
      then show ?thesis using \<open>bs = t @ [0]\<close> by simp
    qed (use 1 in simp)
    then have "wrote p t p'" using 1 blk assms(5) by (auto simp: wrote_def has_text_def)
    then show ?thesis using 1 by (simp add: printsI_ok)
  next
    case (2 p')
    then show ?thesis using assms(6) by (auto simp: full_def intro!: printsI_fail)
  qed
qed

subsection \<open>Sequences\<close>

lemma cat_simps [simp]:
  "cat None b = None" "cat a None = None" "cat (Some x) (Some y) = Some (x @ y)" "cat (Some []) b = b" "cat b (Some []) = b"
  by (auto simp: cat_def map_option_case split: option.splits)

lemma cat_assoc: "cat (cat a b) c = cat a (cat b c)"
  by (cases a; cases b; cases c) simp_all

lemma keep_capacity: "keep p q \<Longrightarrow> capacity q = capacity p"
  by (simp add: keep_def capacity_def)

lemma has_text_append:
  assumes "has_text p s q" "p_offset q = p_offset p + length s" "has_text q t r"
  shows "has_text p (s @ t) r"
  using assms by (auto simp: has_text_def add.assoc)

lemma full_append: "full p (length s) \<Longrightarrow> full p (length (s @ t))"
  by (auto simp: full_def)

lemma full_later: "keep p q \<Longrightarrow> p_offset q = p_offset p + length s \<Longrightarrow> full q (length t) \<Longrightarrow> full p (length (s @ t))"
  using keep_capacity by (fastforce simp: full_def keep_def)

lemma prints_then:
  assumes f: "prints wrote sa da p (f p)"
    and g: "\<And>q. keep p q \<Longrightarrow> p_buffer q \<noteq> None \<Longrightarrow> p_depth q = da \<Longrightarrow> prints Q sb db q (g q)"
    and Q: "Q = wrote \<or> Q = pending"
  shows "prints Q (cat sa sb) db p (and_then f g p)"
proof -
  obtain ok q where q: "f p = Inr (ok, q)" "keep p q"
    "if ok then \<exists>t. sa = Some t \<and> wrote p t q \<and> p_depth q = da else sa = None \<or> full p (length (the sa))"
    using f unfolding prints_def by blast
  show ?thesis
  proof (cases ok)
    case False
    then have "and_then f g p = Inr (False, q)" using q by (simp add: and_then_def)
    moreover have "cat sa sb = None \<or> full p (length (the (cat sa sb)))"
      using q(3) False full_append by (cases sa; cases sb) auto
    ultimately show ?thesis using q(2) by (simp add: printsI_fail)
  next
    case True
    then obtain t where t: "sa = Some t" "wrote p t q" "p_depth q = da" using q by auto
    then have buf: "p_buffer q \<noteq> None" by (auto simp: wrote_def has_text_def)
    obtain ok' r where r: "g q = Inr (ok', r)" "keep q r"
      "if ok' then \<exists>u. sb = Some u \<and> Q q u r \<and> p_depth r = db else sb = None \<or> full q (length (the sb))"
      using g [OF q(2) buf t(3)] unfolding prints_def by blast
    have run: "and_then f g p = Inr (ok', r)" using q(1) True r(1) by (simp add: and_then_def)
    have kept: "keep p r" by (rule keep_trans [OF q(2) r(2)])
    have off: "p_offset q = p_offset p + length t" using t(2) by (simp add: wrote_def)
    show ?thesis
    proof (cases ok')
      case False
      then have "cat sa sb = None \<or> full p (length (the (cat sa sb)))"
        using r(3) t(1) full_later [OF q(2) off] by (cases sb) auto
      then show ?thesis using run False kept by (simp add: printsI_fail)
    next
      case True
      then obtain u where u: "sb = Some u" "Q q u r" "p_depth r = db" using r(3) by auto
      have "Q p (t @ u) r"
        using Q u(2) t(2) has_text_append [of p t q] off
        by (auto simp: wrote_def pending_def add.assoc)
      then show ?thesis using run True kept t(1) u(1,3) by (simp add: printsI_ok)
    qed
  qed
qed

lemma and_then_assoc: "and_then (and_then f g) h = and_then f (and_then g h)"
proof
  fix p show "and_then (and_then f g) h p = and_then f (and_then g h) p"
    by (cases "f p") (auto simp: and_then_def)
qed

lemma cstr_no_zero: "0 \<notin> set xs \<Longrightarrow> cstr (xs @ 0 # ys) = xs"
  by (induction xs) simp_all

lemma pending_block:
  assumes "pending p t q" "keep p q"
  obtains blk blk' where "p_buffer p = Some blk" "p_buffer q = Some blk'" "p_offset p \<le> length blk"
    "p_offset p + length t < p_length q" "p_length q \<le> length blk'"
    "take (p_offset p + length (t @ [0])) blk' = take (p_offset p) blk @ t @ [0]"
proof -
  obtain blk blk' where blk: "p_buffer p = Some blk" "p_buffer q = Some blk'"
    "p_offset p + length (t @ [0 :: u8]) \<le> p_length q"
    "take (p_offset p + length (t @ [0])) blk' = take (p_offset p) blk @ t @ [0]"
    using assms(1) by (auto simp: pending_def has_text_def)
  have size: "p_length q \<le> length blk'" using assms(2) blk(2) by (auto simp: keep_def pb_ok_def)
  have "length (take (p_offset p + length (t @ [0 :: u8])) blk') = length (take (p_offset p) blk @ t @ [0])"
    by (simp only: blk(4))
  then have "p_offset p \<le> length blk" using blk(3) size by simp
  then show thesis using that blk size by simp
qed

lemma update_offset_pending:
  assumes "pending p t q" "keep p q"
  shows "update_offset q = Inr (q\<lparr>p_offset := p_offset p + length t\<rparr>)"
proof -
  obtain blk blk' where blk: "p_buffer q = Some blk'" "p_offset p \<le> length blk"
    "take (p_offset p + length (t @ [0])) blk' = take (p_offset p) blk @ t @ [0]"
    by (rule pending_block [OF assms])
  define k where "k = p_offset q - p_offset p"
  have k: "p_offset q = p_offset p + k" "k \<le> length t" "0 \<notin> set (drop k t)"
    using assms(1) by (auto simp: pending_def k_def)
  define rest where "rest = drop (p_offset p + length (t @ [0 :: u8])) blk'"
  have "blk' = take (p_offset p) blk @ t @ [0] @ rest"
    using append_take_drop_id [of "p_offset p + length (t @ [0 :: u8])" blk', folded rest_def] blk(3) by simp
  then have "drop (p_offset q) blk' = drop k t @ 0 # rest" using k blk(2) by simp
  then show ?thesis using k blk(1) by (simp add: update_offset_def strlen_def c_str_def cstr_no_zero)
qed

lemma prints_advanced:
  assumes "prints pending s d p (f p)"
  shows "prints wrote s d p (and_then f advanced p)"
proof -
  obtain ok q where q: "f p = Inr (ok, q)" "keep p q"
    "if ok then \<exists>t. s = Some t \<and> pending p t q \<and> p_depth q = d else s = None \<or> full p (length (the s))"
    using assms unfolding prints_def by blast
  show ?thesis
  proof (cases ok)
    case False
    then show ?thesis using q by (simp add: and_then_def printsI_fail)
  next
    case True
    then obtain t where t: "s = Some t" "pending p t q" "p_depth q = d" using q by auto
    obtain blk blk' where blk: "p_buffer p = Some blk" "p_buffer q = Some blk'" "p_offset p \<le> length blk"
      "p_offset p + length t < p_length q" "take (p_offset p + length (t @ [0])) blk' = take (p_offset p) blk @ t @ [0]"
      by (rule pending_block [OF t(2) q(2)])
    have "and_then f advanced p = Inr (True, q\<lparr>p_offset := p_offset p + length t\<rparr>)"
      using q(1) True update_offset_pending [OF t(2) q(2)] by (simp add: and_then_def advanced_def)
    moreover have "keep p (q\<lparr>p_offset := p_offset p + length t\<rparr>)"
      using q(2) blk by (auto simp: keep_def pb_ok_def)
    moreover have "take (p_offset p + length t) blk' = take (p_offset p) blk @ t"
      using arg_cong [OF blk(5), of "take (p_offset p + length t)"] blk(3) by simp
    then have "wrote p t (q\<lparr>p_offset := p_offset p + length t\<rparr>)"
      using blk by (auto simp: wrote_def has_text_def)
    ultimately show ?thesis using t by (simp add: printsI_ok)
  qed
qed

lemma prints_done: "pb_ok p \<Longrightarrow> p_buffer p \<noteq> None \<Longrightarrow> p_depth p = d \<Longrightarrow> prints wrote (Some []) d p (Inr (True, p))"
  by (intro printsI_ok) (auto simp: wrote_def has_text_def keep_refl pb_ok_def)

lemma prints_deeper: "pb_ok p \<Longrightarrow> p_buffer p \<noteq> None \<Longrightarrow> prints wrote (Some []) (p_depth p + 1) p (deeper p)"
  unfolding deeper_def by (intro printsI_ok) (auto simp: wrote_def has_text_def keep_refl pb_ok_def)

lemma prints_shallower:
  assumes "prints pending s d p (f p)"
  shows "prints pending s (d - 1) p (and_then f shallower p)"
proof -
  obtain ok q where q: "f p = Inr (ok, q)" "keep p q"
    "if ok then \<exists>t. s = Some t \<and> pending p t q \<and> p_depth q = d else s = None \<or> full p (length (the s))"
    using assms unfolding prints_def by blast
  show ?thesis
  proof (cases ok)
    case False
    then show ?thesis using q by (simp add: and_then_def printsI_fail)
  next
    case True
    then show ?thesis using q
      by (auto simp: and_then_def shallower_def pending_def has_text_def intro!: printsI_ok)
  qed
qed

subsection \<open>Strings\<close>

lemma length_escape: "length (escape c) = (if short_escape c \<noteq> None then 2 else if c < 32 then 6 else 1)"
  by (auto simp: escape_def split: option.splits)

lemma length_escapes: "length (concat (map escape cs)) = length cs + count_escapes cs"
  by (induction cs) (auto simp: length_escape)

lemma escape_plain: "short_escape c = None \<Longrightarrow> \<not> c < 32 \<Longrightarrow> escape c = [c]"
  by (simp add: escape_def)

lemma no_escapes: "count_escapes cs = 0 \<Longrightarrow> concat (map escape cs) = cs"
  by (induction cs) (auto simp: escape_plain split: if_splits)

lemma plain_char: "31 < c \<and> c \<noteq> 0x22 \<and> c \<noteq> 0x5C \<longleftrightarrow> short_escape c = None \<and> \<not> c < (32 :: u8)"
  by (auto simp: short_escape_def word_less_nat_alt split: if_splits)

lemma escape_loop_writes:
  "pos + length (concat (map escape cs)) + 1 \<le> length blk \<Longrightarrow>
     \<exists>r. escape_loop cs pos blk = Inr r \<and> length r = length blk \<and>
       take (pos + length (concat (map escape cs))) r = take pos blk @ concat (map escape cs)"
proof (induction cs arbitrary: pos blk)
  case (Cons c cs)
  have step: "\<exists>r. escape_loop cs (pos + k) b = Inr r \<and> length r = length blk \<and>
      take (pos + length (concat (map escape (c # cs)))) r = take pos blk @ concat (map escape (c # cs))"
    if "take (pos + k) b = take pos blk @ escape c" "length b = length blk" "length (escape c) = k" for b k
    using Cons.IH [of "pos + k" b] that Cons.prems by (auto simp: add.assoc)
  consider (plain) "short_escape c = None" "\<not> c < 32" | (short) e where "short_escape c = Some e"
    | (long) "short_escape c = None" "c < 32"
    by fastforce
  then show ?case
  proof cases
    case plain
    obtain b where b: "memcpy blk pos [c] 1 = Inr b" "length b = length blk" "take (pos + 1) b = take pos blk @ [c]"
      using memcpy_store [of pos "[c]" blk] Cons.prems by (auto simp: length_escape)
    then show ?thesis using step [where k = 1 and b = b] plain plain_char [of c] by (simp add: escape_plain)
  next
    case short
    obtain b where b: "memcpy blk pos [0x5C] 1 = Inr b" "length b = length blk" "take (pos + 1) b = take pos blk @ [0x5C]"
      using memcpy_store [of pos "[0x5C]" blk] Cons.prems by auto
    obtain b2 where b2: "memcpy b (pos + 1) [e] 1 = Inr b2" "length b2 = length blk" "take (pos + 1 + 1) b2 = take (pos + 1) b @ [e]"
      using memcpy_store [of "pos + 1" "[e]" b] Cons.prems b short by (auto simp: length_escape)
    have "take (pos + 2) b2 = take pos blk @ escape c" "length (escape c) = 2"
      using b(3) b2(3) short by (simp_all add: escape_def)
    moreover have "\<not> (31 < c \<and> c \<noteq> 0x22 \<and> c \<noteq> 0x5C)" using short plain_char [of c] by simp
    ultimately show ?thesis unfolding escape_loop.simps
      using step [where k = 2 and b = b2] short b b2 by (simp only: if_not_P) (simp del: One_nat_def)
  next
    case long
    obtain b where b: "memcpy blk pos [0x5C] 1 = Inr b" "length b = length blk" "take (pos + 1) b = take pos blk @ [0x5C]"
      using memcpy_store [of pos "[0x5C]" blk] Cons.prems by auto
    have "length (format_u04x c) = 6" by (simp add: format_u04x_def)
    then obtain b2 where b2: "memcpy b (pos + 1) (format_u04x c) 6 = Inr b2" "length b2 = length blk"
      "take (pos + 1 + 6) b2 = take (pos + 1) b @ format_u04x c"
      using memcpy_store [of "pos + 1" "format_u04x c" b] Cons.prems b long by (auto simp: length_escape)
    have "take (pos + 6) (take (pos + 1 + 6) b2) = take pos blk @ escape c"
      unfolding b2(3) b(3) using long Cons.prems by (simp add: escape_def format_u04x_def)
    then have "take (pos + 6) b2 = take pos blk @ escape c" by (simp only: take_take) (simp add: min_def)
    moreover have "length (escape c) = 6" using long by (simp add: length_escape)
    moreover have "\<not> (31 < c \<and> c \<noteq> 0x22 \<and> c \<noteq> 0x5C)" using long plain_char [of c] by simp
    ultimately show ?thesis unfolding escape_loop.simps
      using step [where k = 6 and b = b2] long b b2 by (simp only: if_not_P) (simp del: One_nat_def)
  qed
qed simp

lemma short_escape_nonzero: "short_escape c = Some e \<Longrightarrow> e \<noteq> 0"
  by (auto simp: short_escape_def split: if_splits)

lemma hex_char_nonzero: "n < 16 \<Longrightarrow> hex_char n \<noteq> 0"
proof -
  assume "n < 16"
  then have "unat n < 16" by (simp add: word_less_nat_alt)
  then have "unat (hex_char n) \<noteq> 0"
    by (auto simp: hex_char_def word_less_nat_alt unat_word_ariths unat_sub word_le_nat_alt)
  then show ?thesis by auto
qed

lemma nibbles: "drop_bit 4 (c :: u8) < 16" "c AND 15 < (16 :: u8)"
proof -
  have "unat c < 256" using unsigned_less [of c] by simp
  moreover have "unat (drop_bit 4 c) = drop_bit 4 (take_bit 8 (unat c))"
    by (simp only: unsigned_drop_bit_eq) simp
  ultimately have "unat (drop_bit 4 c) < 16" by (simp add: drop_bit_eq_div take_bit_eq_mod)
  then show "drop_bit 4 c < 16" by (simp add: word_less_nat_alt)
  have "c AND 15 = take_bit 4 c" by (simp add: take_bit_eq_mask mask_eq_exp_minus_1)
  then have "unat (c AND 15) = take_bit 4 (unat c)" by (simp only: unsigned_take_bit_eq)
  moreover have "take_bit 4 (unat c) < 16" by (simp add: take_bit_eq_mod)
  ultimately show "c AND 15 < (16 :: u8)" unfolding word_less_nat_alt by simp
qed

lemma escape_nonzero: "c \<noteq> 0 \<Longrightarrow> 0 \<notin> set (escape c)"
  using short_escape_nonzero hex_char_nonzero [OF nibbles(1)] hex_char_nonzero [OF nibbles(2)]
  by (auto simp: escape_def split: option.splits)

lemma render_string_nonzero: "0 \<notin> set (render_string s)"
  using escape_nonzero cstr_nonzero by (fastforce simp: render_string_def split: option.splits)

lemma print_string_ptr_prints:
  assumes "pb_ok p" "p_buffer p \<noteq> None" "\<forall>s. input = Some s \<longrightarrow> 0 \<in> set s"
  shows "prints pending (Some (render_string input)) (p_depth p) p (print_string_ptr input p)"
proof (cases input)
  case None
  then show ?thesis using emit_pending [OF assms(1,2), of 0 "[0x22, 0x22]"]
    by (simp add: print_string_ptr_def render_string_def numeral_3_eq_3)
next
  case (Some s)
  define cs where "cs = cstr s"
  define t where "t = [0x22] @ concat (map escape cs) @ [0x22]"
  have t: "render_string input = t" "length t = length cs + count_escapes cs + 2" "0 \<notin> set t"
    using render_string_nonzero [of input] by (simp_all add: Some render_string_def t_def cs_def length_escapes [symmetric])
  have str: "c_str s = Inr cs" using Some assms(3) by (simp add: cs_def)
  obtain blk where blk: "p_buffer p = Some blk" using assms(2) by blast
  show ?thesis
  proof (cases rule: ensure_cases [OF assms(1) blk, of "length cs + count_escapes cs + 3"])
    case (2 p')
    then have "print_string_ptr input p = Inr (False, p')" using str Some by (simp add: print_string_ptr_def del: c_str_eq_Inr)
    moreover have "full p (length t)" using 2(3) t(2) by (auto simp: full_def)
    ultimately show ?thesis using 2(2) t(1) by (simp add: printsI_fail)
  next
    case (1 p1 blk1)
    have size: "p_length p1 \<le> length blk1" using 1(2,3) by (auto simp: keep_def pb_ok_def)
    let ?run = "if count_escapes cs = 0 then bind_res (store ([0x22] @ cs @ [0x22, 0]) p1) (\<lambda>p. Inr (True, p))
      else bind_res (memcpy blk1 (p_offset p) [0x22] 1) (\<lambda>blk.
           bind_res (escape_loop cs (p_offset p + 1) blk) (\<lambda>blk.
           bind_res (memcpy blk (p_offset p + (length cs + count_escapes cs) + 1) [0x22, 0] 2) (\<lambda>blk.
           Inr (True, p1\<lparr>p_buffer := Some blk\<rparr>))))"
    have run: "print_string_ptr input p = ?run"
      using str Some 1 by (simp add: print_string_ptr_def Let_def del: c_str_eq_Inr)
    have "\<exists>r. ?run = Inr (True, p1\<lparr>p_buffer := Some r\<rparr>) \<and> length r = length blk1 \<and>
        take (p_offset p + length (t @ [0])) r = take (p_offset p) blk1 @ t @ [0]"
    proof (cases "count_escapes cs = 0")
      case True
      then have "t @ [0] = [0x22] @ cs @ [0x22, 0]" using no_escapes by (simp add: t_def)
      then show ?thesis
        using True 1 size t(2) memcpy_store [of "p_offset p" "t @ [0]" blk1] by (auto simp: store_def)
    next
      case False
      obtain b1 where b1: "memcpy blk1 (p_offset p) [0x22] 1 = Inr b1" "length b1 = length blk1"
        "take (p_offset p + 1) b1 = take (p_offset p) blk1 @ [0x22]"
        using memcpy_store [of "p_offset p" "[0x22]" blk1] 1(7) size by auto
      obtain b2 where b2: "escape_loop cs (p_offset p + 1) b1 = Inr b2" "length b2 = length blk1"
        "take (p_offset p + 1 + length (concat (map escape cs))) b2 = take (p_offset p + 1) b1 @ concat (map escape cs)"
        using escape_loop_writes [of "p_offset p + 1" cs b1] 1(7) size b1(2) length_escapes [of cs] by auto
      obtain b3 where b3: "memcpy b2 (p_offset p + (length cs + count_escapes cs) + 1) [0x22, 0] 2 = Inr b3"
        "length b3 = length blk1"
        "take (p_offset p + (length cs + count_escapes cs) + 1 + 2) b3 =
           take (p_offset p + (length cs + count_escapes cs) + 1) b2 @ [0x22, 0]"
        using memcpy_store [of "p_offset p + (length cs + count_escapes cs) + 1" "[0x22, 0]" b2] 1(7) size b2(2)
        by (auto simp: eval_nat_numeral)
      have "take (p_offset p + length (t @ [0])) b3 = take (p_offset p) blk1 @ t @ [0]"
        using b3(3) b2(3) b1(3) length_escapes [of cs] t(2) by (simp add: t_def add.assoc add.commute)
      then show ?thesis using False b1(1) b2(1) b3(1,2) by (intro exI [of _ b3]) (simp del: One_nat_def)
    qed
    then obtain r where r: "?run = Inr (True, p1\<lparr>p_buffer := Some r\<rparr>)" "length r = length blk1"
      "take (p_offset p + length (t @ [0])) r = take (p_offset p) blk1 @ t @ [0]" by blast
    have "pending p t (p1\<lparr>p_buffer := Some r\<rparr>)"
      using r 1 blk t(2,3) by (auto simp: pending_def has_text_def)
    moreover have "keep p (p1\<lparr>p_buffer := Some r\<rparr>)" using 1 r(2) by (auto simp: keep_def pb_ok_def)
    ultimately show ?thesis using 1(5) t(1) run r(1) by (simp only:) (simp add: printsI_ok)
  qed
qed

subsection \<open>Values\<close>

text \<open>What the trees must satisfy: terminated strings, and numbers that are values of their C types.\<close>

fun printable :: "cJSON \<Rightarrow> bool" where
  "printable (Item f cs) \<longleftrightarrow>
     (\<forall>s. i_valuestring f = Some s \<longrightarrow> 0 \<in> set s) \<and> (\<forall>s. i_string f = Some s \<longrightarrow> 0 \<in> set s) \<and>
     (i_type f AND 0xFF = cJSON_Number \<longrightarrow> wf_number f) \<and> list_all printable cs"

lemma keep_facts: "keep p q \<Longrightarrow> pb_ok q" "keep p q \<Longrightarrow> p_format q = p_format p"
  by (simp_all add: keep_def)

lemma print_number_prints:
  assumes "pb_ok p" "p_buffer p \<noteq> None" "wf_number f"
  shows "prints pending (Some (number_text f)) (p_depth p) p (print_number f p)"
proof -
  have "map (\<lambda>c. if c = get_decimal_point then 0x2E else c) s = s" for s :: "u8 list"
    by (rule map_idI) (simp add: get_decimal_point_def)
  then show ?thesis using emit_pending [OF assms(1,2) order_refl number_text_nonzero] length_number_text [OF assms(3)]
    by (simp add: print_number_def Let_def)
qed

lemma indent_prints:
  assumes "pb_ok p" "p_buffer p \<noteq> None"
  shows "prints wrote (Some (if p_format p then replicate (p_depth p) 0x09 else [])) (p_depth p) p (indent p)"
  using emit_wrote [OF assms, of "replicate (p_depth p) 0x09" "replicate (p_depth p) 0x09" "p_depth p"] prints_done [OF assms]
  by (simp add: indent_def)

lemma close_object_prints:
  assumes "pb_ok p" "p_buffer p \<noteq> None" "0 < p_depth p"
  shows "prints pending (Some (close_text (p_format p) (p_depth p - 1))) (p_depth p) p (close_object p)"
proof -
  let ?t = "close_text (p_format p) (p_depth p - 1)"
  have "0 \<notin> set ?t" by (auto simp: close_text_def)
  moreover have "close_object p = emit (length ?t + 1) (?t @ [0]) 0 p"
    using assms(3) by (simp add: close_object_def close_text_def numeral_2_eq_2)
  ultimately show ?thesis using emit_pending [OF assms(1,2), of 0 ?t] by simp
qed

text \<open>A buffer in the middle of a successful print.\<close>

definition ready :: "bool \<Rightarrow> nat \<Rightarrow> printbuffer \<Rightarrow> bool" where
  "ready fmt d p \<longleftrightarrow> pb_ok p \<and> p_buffer p \<noteq> None \<and> p_format p = fmt \<and> p_depth p = d"

lemma prints_seq:
  assumes "prints wrote sa da p (f p)" "ready fmt d p" "\<And>q. ready fmt da q \<Longrightarrow> prints Q sb db q (g q)"
    and "Q = wrote \<or> Q = pending"
  shows "prints Q (cat sa sb) db p (and_then f g p)"
  using assms by (intro prints_then) (auto simp: ready_def keep_facts)

lemma prints_seq_advanced:
  assumes "prints pending sa da p (f p)" "ready fmt d p" "\<And>q. ready fmt da q \<Longrightarrow> prints Q sb db q (g q)"
    and "Q = wrote \<or> Q = pending"
  shows "prints Q (cat sa sb) db p (and_then f (and_then advanced g) p)"
  using prints_seq [where f = "and_then f advanced", OF prints_advanced [where f = f, OF assms(1)] assms(2,3,4)]
  by (simp add: and_then_assoc)

lemma bracket_prints:
  assumes "ready fmt d p" "prints wrote (Some a) d p (f p)"
    and "\<And>q. ready fmt (d + 1) q \<Longrightarrow> prints wrote s (d + 1) q (items q)"
    and "\<And>q. ready fmt (d + 1) q \<Longrightarrow> prints pending (Some b) (d + 1) q (close q)"
  shows "prints pending (cat (Some a) (cat s (Some b))) d p
    (and_then f (and_then deeper (and_then items (and_then close shallower))) p)"
proof (rule prints_seq [where f = f, OF assms(2,1)])
  fix q assume q: "ready fmt d q"
  have "prints pending (cat (Some []) (cat s (Some b))) d q (and_then deeper (and_then items (and_then close shallower)) q)"
  proof (rule prints_seq [where f = deeper, OF _ q])
    show "prints wrote (Some []) (d + 1) q (deeper q)" using q prints_deeper [of q] by (auto simp: ready_def)
    fix r assume r: "ready fmt (d + 1) r"
    show "prints pending (cat s (Some b)) d r (and_then items (and_then close shallower) r)"
    proof (rule prints_seq [where f = items, OF assms(3) [OF r] r])
      fix u assume "ready fmt (d + 1) u"
      then show "prints pending (Some b) d u (and_then close shallower u)"
        using prints_shallower [where f = close, OF assms(4)] by fastforce
    qed simp
  qed simp
  then show "prints pending (cat s (Some b)) d q (and_then deeper (and_then items (and_then close shallower)) q)"
    by simp
qed simp

lemma print_literal:
  "ready fmt d p \<Longrightarrow> 0 \<notin> set s \<Longrightarrow> n = length s + 1 \<Longrightarrow> prints pending (Some s) d p (emit n (s @ [0]) 0 p)"
  using emit_pending [of p 0 s] by (auto simp: ready_def)

lemma emit_separator:
  "ready fmt d p \<Longrightarrow> prints wrote (Some s) d p (emit (length s + 1) (s @ [0]) (length s) p)"
  using emit_wrote [of p "s @ [0]" s "length s + 1"] by (auto simp: ready_def)

lemma emit_open:
  "ready fmt d p \<Longrightarrow> n = length s \<or> n = length s + 1 \<Longrightarrow> prints wrote (Some s) d p (emit n s (length s) p)"
  using emit_wrote [of p s s n] by (auto simp: ready_def)

lemma print_prints:
  "printable t \<Longrightarrow> ready fmt d p \<Longrightarrow> prints pending (render fmt d t) d p (print_value t p)"
  "list_all printable cs \<Longrightarrow> ready fmt d p \<Longrightarrow> prints wrote (render_elements fmt d cs) d p (print_elements cs p)"
  "list_all printable cs \<Longrightarrow> ready fmt d p \<Longrightarrow> prints wrote (render_members fmt d cs) d p (print_members cs p)"
proof (induction fmt d t and fmt d cs and fmt d cs arbitrary: p and p and p
    rule: render_render_elements_render_members.induct)
  case (1 fmt d f cs)
  let ?t = "i_type f AND 0xFF"
  have ok: "pb_ok p" "p_buffer p \<noteq> None" "p_format p = fmt" "p_depth p = d"
    and str: "\<forall>s. i_valuestring f = Some s \<longrightarrow> 0 \<in> set s"
    and kids: "list_all printable cs"
    using 1(3,4) by (simp_all add: ready_def)
  consider (null) "?t = cJSON_NULL" | (false) "?t = cJSON_False" | (true) "?t = cJSON_True"
    | (number) "?t = cJSON_Number" | (raw) "?t = cJSON_Raw" | (str) "?t = cJSON_String"
    | (array) "?t = cJSON_Array" | (object) "?t = cJSON_Object"
    | (other) "?t \<notin> {cJSON_NULL, cJSON_False, cJSON_True, cJSON_Number, cJSON_Raw, cJSON_String, cJSON_Array, cJSON_Object}"
    by blast
  then show ?case
  proof cases
    case null
    then show ?thesis using print_literal [OF 1(4), of "lit ''null''" 5] by (simp add: lit_def)
  next
    case false
    then show ?thesis using print_literal [OF 1(4), of "lit ''false''" 6] by (simp add: lit_def)
  next
    case true
    then show ?thesis using print_literal [OF 1(4), of "lit ''true''" 5] by (simp add: lit_def)
  next
    case number
    then show ?thesis using print_number_prints [OF ok(1,2), of f] 1(3) ok(4) by simp
  next
    case raw
    show ?thesis
    proof (cases "i_valuestring f")
      case None
      then show ?thesis using raw keep_refl [OF ok(1)] by (simp add: printsI_fail)
    next
      case (Some s)
      then have "0 \<notin> set (cstr s)" "c_str s = Inr (cstr s)" using str cstr_nonzero by auto
      then show ?thesis using raw Some print_literal [OF 1(4), of "cstr s" "length (cstr s) + 1"]
        by (simp del: c_str_eq_Inr)
    qed
  next
    case str
    then show ?thesis using print_string_ptr_prints [OF ok(1,2) \<open>\<forall>s. i_valuestring f = Some s \<longrightarrow> 0 \<in> set s\<close>] ok(4)
      by (simp add: print_string_def)
  next
    case array
    have "prints pending (cat (Some [0x5B]) (cat (render_elements fmt (d + 1) cs) (Some [0x5D]))) d p
      (and_then (emit 1 [0x5B] 1) (and_then deeper (and_then (print_elements cs) (and_then (emit 2 [0x5D, 0] 0) shallower))) p)"
    proof (rule bracket_prints [OF 1(4)])
      show "prints pending (Some [0x5D]) (d + 1) q (emit 2 [0x5D, 0] 0 q)" if "ready fmt (d + 1) q" for q
      proof -
        have "0 \<notin> set [0x5D :: u8]" "2 = length [0x5D :: u8] + 1" by simp_all
        from print_literal [OF that this] show ?thesis by simp
      qed
    qed (use emit_open [OF 1(4), of 1 "[0x5B]"] 1(1) kids array in simp_all)
    then show ?thesis using array by (simp add: print_array_def)
  next
    case object
    have "prints pending (cat (Some (open_object fmt)) (cat (render_members fmt (d + 1) cs) (Some (close_text fmt d)))) d p
      (and_then (emit (length (open_object fmt) + 1) (open_object fmt) (length (open_object fmt)))
        (and_then deeper (and_then (print_members cs) (and_then close_object shallower))) p)"
    proof (rule bracket_prints [OF 1(4)])
      show "prints pending (Some (close_text fmt d)) (d + 1) q (close_object q)" if "ready fmt (d + 1) q" for q
        using close_object_prints [of q] that by (auto simp: ready_def)
    qed (use emit_open [OF 1(4), of "length (open_object fmt) + 1" "open_object fmt"] 1(2) kids object in simp_all)
    then show ?thesis using object ok(3) by (simp add: print_object_def Let_def)
  next
    case other
    then show ?thesis using keep_refl [OF ok(1)] by (simp add: printsI_fail)
  qed
next
  case (2 fmt d)
  then show ?case by (auto simp: prints_done ready_def)
next
  case (3 fmt d c cs)
  let ?sep = "\<lambda>p. let s = separator (p_format p) in
      if cs \<noteq> [] then emit (length s + 1) (s @ [0]) (length s) p else Inr (True, p)"
  have sep: "prints wrote (Some (if cs = [] then [] else separator fmt)) d q (?sep q)" if "ready fmt d q" for q
    using that emit_separator [OF that] by (auto simp: Let_def prints_done ready_def)
  have tail: "prints wrote (cat (Some (if cs = [] then [] else separator fmt)) (render_elements fmt d cs)) d q
      (and_then ?sep (print_elements cs) q)" if "ready fmt d q" for q
    using 3(2) 3(3) by (intro prints_seq [where f = ?sep and da = d, OF sep [OF that] that]) simp_all
  have "prints pending (render fmt d c) d p (print_value c p)" using 3(1) 3(3) 3(4) by simp
  then show ?case unfolding print_elements.simps render_elements.simps
    by (rule prints_seq_advanced [where f = "print_value c", OF _ 3(4) tail]) simp_all
next
  case (4 fmt d)
  then show ?case by (auto simp: prints_done ready_def)
next
  case (5 fmt d c cs)
  let ?colon = "\<lambda>p. let s = colon (p_format p) in emit (length s) s (length s) p"
  let ?ending = "\<lambda>p. let s = member_end (p_format p) (cs \<noteq> []) in emit (length s + 1) (s @ [0]) (length s) p"
  let ?s4 = "cat (Some (member_end fmt (cs \<noteq> []))) (render_members fmt d cs)"
  have "prints wrote ?s4 d q (and_then ?ending (print_members cs) q)" if q: "ready fmt d q" for q
    by (rule prints_seq [where f = ?ending and da = d, OF _ q])
      (use q emit_separator [OF q] 5 in \<open>auto simp: Let_def ready_def\<close>)
  then have "prints wrote (cat (render fmt d c) ?s4) d q
      (and_then (print_value c) (and_then advanced (and_then ?ending (print_members cs))) q)" if q: "ready fmt d q" for q
    by (intro prints_seq_advanced [where f = "print_value c" and da = d, OF _ q]) (use q 5 in auto)
  then have "prints wrote (cat (Some (colon fmt)) (cat (render fmt d c) ?s4)) d q
      (and_then ?colon (and_then (print_value c) (and_then advanced (and_then ?ending (print_members cs)))) q)"
    if q: "ready fmt d q" for q
    by (intro prints_seq [where f = ?colon and da = d, OF _ q])
      (use q emit_open [OF q] in \<open>auto simp: Let_def ready_def\<close>)
  then have "prints wrote (cat (Some (render_string (i_string (item_of c)))) (cat (Some (colon fmt)) (cat (render fmt d c) ?s4))) d q
      (and_then (print_string_ptr (i_string (item_of c))) (and_then advanced
        (and_then ?colon (and_then (print_value c) (and_then advanced (and_then ?ending (print_members cs)))))) q)"
    if q: "ready fmt d q" for q
    using q 5(3) print_string_ptr_prints [of q "i_string (item_of c)"]
    by (intro prints_seq_advanced [where f = "print_string_ptr (i_string (item_of c))" and da = d, OF _ q])
      (cases c, auto simp: ready_def)
  then have "prints wrote (cat (Some (if fmt then replicate d 0x09 else []))
      (cat (Some (render_string (i_string (item_of c)))) (cat (Some (colon fmt)) (cat (render fmt d c) ?s4)))) d p
      (print_members (c # cs) p)"
    unfolding print_members.simps
    by (intro prints_seq [where f = indent and da = d, OF _ 5(4)])
      (use 5(4) indent_prints [of p] in \<open>auto simp: ready_def\<close>)
  then show ?case by (simp add: cat_assoc [symmetric])
qed


subsection \<open>The interface\<close>

text \<open>Why a text of \<open>n\<close> bytes may be refused.\<close>

definition refused :: "heap \<Rightarrow> nat \<Rightarrow> bool" where
  "refused h n \<longleftrightarrow> (\<exists>k j. \<not> h_answer h k j) \<or> nat INT_MAX < n + 2"

lemma print_value_result:
  assumes "printable t" "ready fmt 0 p" "p_offset p = 0"
  obtains (ok) p' s where "print_value t p = Inr (True, p')" "keep p p'" "render fmt 0 t = Some s" "pending p s p'"
  | (no) p' where "print_value t p = Inr (False, p')" "keep p p'"
      "render fmt 0 t = None \<or> full p (length (the (render fmt 0 t)))"
proof -
  obtain ok p' where r: "print_value t p = Inr (ok, p')" "keep p p'"
    "if ok then \<exists>s. render fmt 0 t = Some s \<and> pending p s p' \<and> p_depth p' = 0
     else render fmt 0 t = None \<or> full p (length (the (render fmt 0 t)))"
    using print_prints(1) [OF assms(1,2)] unfolding prints_def by blast
  show thesis
  proof (cases ok)
    case True
    then show thesis using r by (auto intro: that(1))
  next
    case False
    then show thesis using r assms(3) by (intro that(2)) auto
  qed
qed

text \<open>The text stands at the start of the block, with its terminator.\<close>

lemma pending_text:
  assumes "pending p s q" "keep p q" "p_offset p = 0"
  obtains blk where "p_buffer q = Some blk" "take (length s + 1) blk = s @ [0]" "length s < p_length q" "p_length q \<le> length blk"
  using pending_block [OF assms(1,2)] assms(3) by auto

lemma print_result:
  assumes "printable t"
  obtains (ok) s h' where "print realloc mem (Some t) fmt h = Inr (Some (s @ [0]), h')" "render fmt 0 t = Some s"
      "h_live h' = h_live h + 1" "h_answer h' = h_answer h"
  | (no) h' where "print realloc mem (Some t) fmt h = Inr (None, h')" "h_live h' = h_live h"
      "render fmt 0 t = None \<or> refused h (length (the (render fmt 0 t)))" "h_answer h' = h_answer h"
proof (cases "h_answer h (h_calls h) 256")
  case False
  show thesis
    by (rule no [of "h\<lparr>h_calls := Suc (h_calls h)\<rparr>"]) (use False in \<open>auto simp: print_def allocate_def refused_def\<close>)
next
  case True
  define g where "g = h\<lparr>h_calls := Suc (h_calls h), h_live := h_live h + 1\<rparr>"
  define p where "p = \<lparr>p_buffer = Some (fresh_block mem h 256), p_length = 256, p_offset = 0, p_depth = 0, p_noalloc = False,
    p_format = fmt, p_realloc = realloc, p_fresh = mem, p_heap = g\<rparr>"
  have p: "ready fmt 0 p" "p_offset p = 0" "capacity p = nat INT_MAX" "h_answer (p_heap p) = h_answer h"
    "h_live (p_heap p) - of_bool (p_buffer p \<noteq> None) = h_live h"
    by (simp_all add: p_def g_def ready_def pb_ok_def fresh_block_def capacity_def)
  have start: "allocate 256 h = (True, g)" using True by (simp add: allocate_def g_def)
  show thesis
  proof (cases rule: print_value_result [OF assms p(1,2)])
    case (2 p')
    show thesis
    proof (rule no)
      show "print realloc mem (Some t) fmt h = Inr (None, free_if (p_buffer p' \<noteq> None) (p_heap p'))"
        using 2(1) by (simp add: print_def start p_def [symmetric])
      show "h_live (free_if (p_buffer p' \<noteq> None) (p_heap p')) = h_live h"
        using 2(2) p(5) by (simp add: keep_def)
      show "render fmt 0 t = None \<or> refused h (length (the (render fmt 0 t)))"
        using 2(3) p(2,3,4) by (auto simp: refused_def full_def)
      show "h_answer (free_if (p_buffer p' \<noteq> None) (p_heap p')) = h_answer h"
        using 2(2) p(4) by (simp add: keep_def free_if_def deallocate_def)
    qed
  next
    case (1 p' s)
    obtain blk where blk: "p_buffer p' = Some blk" "take (length s + 1) blk = s @ [0]" "length s < p_length p'" "p_length p' \<le> length blk"
      by (rule pending_text [OF 1(4,2) p(2)])
    have upd: "update_offset p' = Inr (p'\<lparr>p_offset := length s\<rparr>)"
      using update_offset_pending [OF 1(4,2)] p(2) by simp
    have live: "h_live (p_heap p') = h_live h + 1" "h_answer (p_heap p') = h_answer h"
      using 1(2) p(4,5) blk(1) by (simp_all add: keep_def)
    have pr: "print realloc mem (Some t) fmt h =
      (if realloc then
         (case reallocate mem blk (length s + 1) (p_heap p') of
            (None, h) \<Rightarrow> Inr (None, deallocate h)
          | (Some printed, h) \<Rightarrow> Inr (Some printed, h))
       else
         (case allocate (length s + 1) (p_heap p') of
            (False, h) \<Rightarrow> Inr (None, deallocate h)
          | (True, h) \<Rightarrow>
              bind_res (memcpy (fresh_block mem (p_heap p') (length s + 1)) 0 blk (min (p_length p') (length s + 1))) (\<lambda>printed.
              bind_res (memcpy printed (length s) [0] 1) (\<lambda>printed. Inr (Some printed, deallocate h)))))"
      using 1(1) upd blk(1) by (simp add: print_def start p_def [symmetric] free_if_def Let_def split: prod.split option.split bool.split)
    let ?g = "(p_heap p')\<lparr>h_calls := Suc (h_calls (p_heap p'))\<rparr>"
    show thesis
    proof (cases "h_answer h (h_calls (p_heap p')) (length s + 1)")
      case False
      show thesis
      proof (rule no)
        show "print realloc mem (Some t) fmt h = Inr (None, deallocate ?g)"
          using False live(2) by (simp add: pr reallocate_def allocate_def Let_def)
      qed (use live False 1(3) in \<open>auto simp: refused_def\<close>)
    next
      case granted: True
      let ?r = "map (mem (h_calls (p_heap p'))) [0..<length s + 1]"
      have n: "min (p_length p') (length s + 1) = length s + 1" using blk(3) by simp
      have "memcpy ?r 0 blk (length s + 1) = Inr (s @ [0])" using blk(2,3,4) by (simp add: memcpy_def)
      moreover have "memcpy (s @ [0 :: u8]) (length s) [0] 1 = Inr (s @ [0])" by (simp add: memcpy_def)
      ultimately show thesis
        using 1(3) blk granted live n
        by (intro ok [of s ?g])
          (simp_all add: pr reallocate_def allocate_def Let_def fresh_block_def deallocate_def del: upt_Suc)
    qed
  qed
qed

subsection \<open>Properties\<close>

definition sample_object :: cJSON where
  "sample_object =
     Item (zero_item\<lparr>i_type := cJSON_Object\<rparr>)
       [Item (zero_item\<lparr>i_type := cJSON_String, i_string := Some (char_array 3 ''ip''),
          i_valuestring := Some [0x68, 0x0A, 0x22, 0]\<rparr>) [],
        Item (zero_item\<lparr>i_type := cJSON_Number, i_string := Some (char_array 5 ''port''), i_valueint := 3001,
          i_valuedouble := Fin False 3001 0\<rparr>) []]"

lemma printable_sample: "printable sample_object"
  by (simp add: sample_object_def zero_item_def char_array_def lit_def wf_number_def wf_double_def)

lemma render_sample: "render True 0 sample_object =
    Some ([0x7B, 0x0A, 0x09, 0x22] @ lit ''ip'' @ [0x22, 0x3A, 0x09, 0x22, 0x68, 0x5C, 0x6E, 0x5C, 0x22, 0x22, 0x2C, 0x0A, 0x09, 0x22]
      @ lit ''port'' @ [0x22, 0x3A, 0x09] @ lit ''3001'' @ [0x0A, 0x7D])"
  by code_simp

text \<open>
  C29. \<open>cJSON_Print\<close> and \<open>cJSON_PrintUnformatted\<close> return the rendering of the tree, terminated, in one new
  block, whatever the answers of the allocator, the bytes of fresh memory and the hooks are: no call
  writes or reads outside a block, and nothing else stays allocated. They return null, with everything
  given back, only if the allocator refuses a request, the text has \<open>INT_MAX - 1\<close> bytes or more, or an
  item of the tree has no text.
\<close>

theorem print_exact:
  assumes "printable t"
  shows "\<exists>r h'. print realloc mem (Some t) fmt h = Inr (r, h') \<and>
           (case r of
              Some s \<Rightarrow> (\<exists>x. render fmt 0 t = Some x \<and> s = x @ [0]) \<and> h_live h' = h_live h + 1
            | None \<Rightarrow> (render fmt 0 t = None \<or> refused h (length (the (render fmt 0 t)))) \<and> h_live h' = h_live h)"
  by (rule print_result [OF assms, of realloc mem fmt h]) auto

theorem print_exact_witness:
  "\<exists>h'. print True (\<lambda>_ _. 0xAB) (Some sample_object) True plenty =
     Inr (Some ([0x7B, 0x0A, 0x09, 0x22] @ lit ''ip'' @ [0x22, 0x3A, 0x09, 0x22, 0x68, 0x5C, 0x6E, 0x5C, 0x22, 0x22, 0x2C, 0x0A, 0x09, 0x22]
      @ lit ''port'' @ [0x22, 0x3A, 0x09] @ lit ''3001'' @ [0x0A, 0x7D, 0]), h')"
  using print_exact [OF printable_sample, of True "\<lambda>_ _. 0xAB" True plenty] unfolding render_sample
  by (auto simp: refused_def plenty_def lit_def split: option.splits)

text \<open>
  C30. Printing into a buffer of the caller never writes outside its first \<open>len\<close> bytes and needs two bytes
  more than the text has, one of them for the terminator: with that much room the call succeeds, and
  when it succeeds the buffer starts with the rendering of the tree and its terminator. It takes no memory.
\<close>

theorem preallocated_exact:
  assumes "printable t" "0 \<le> len" "nat len \<le> length buf"
  shows "\<exists>ok buf' h'. cJSON_PrintPreallocated realloc (Some t) (Some buf) len fmt h = Inr (ok, Some buf', h') \<and>
           length buf' = length buf \<and> h_live h' = h_live h \<and>
           (ok \<longrightarrow> (\<exists>x. render fmt 0 t = Some x \<and> take (length x + 1) buf' = x @ [0])) \<and>
           (\<forall>x. render fmt 0 t = Some x \<longrightarrow> length x + 2 \<le> nat len \<longrightarrow> nat len \<le> nat INT_MAX \<longrightarrow> ok)"
proof -
  define p where "p = \<lparr>p_buffer = Some buf, p_length = nat len, p_offset = 0, p_depth = 0, p_noalloc = True,
    p_format = fmt, p_realloc = realloc, p_fresh = (\<lambda>_ _. 0), p_heap = h\<rparr>"
  have p: "ready fmt 0 p" "p_offset p = 0" "p_noalloc p" "h_live (p_heap p) = h_live h" "p_buffer p = Some buf"
    "capacity p = min (nat len) (nat INT_MAX)"
    using assms(3) by (auto simp: p_def ready_def pb_ok_def capacity_def)
  have run: "cJSON_PrintPreallocated realloc (Some t) (Some buf) len fmt h =
      bind_res (print_value t p) (\<lambda>(ok, p). Inr (ok, p_buffer p, p_heap p))"
    using assms(2) by (simp add: cJSON_PrintPreallocated_def p_def)
  have kept: "\<exists>buf'. p_buffer q = Some buf' \<and> length buf' = length buf \<and> h_live (p_heap q) = h_live h" if "keep p q" for q
    using that p(3,4,5) by (auto simp: keep_def)
  show ?thesis
  proof (cases rule: print_value_result [OF assms(1) p(1,2)])
    case (1 q s)
    obtain buf' where buf: "p_buffer q = Some buf'" "take (length s + 1) buf' = s @ [0]"
      by (rule pending_text [OF 1(4,2) p(2)])
    show ?thesis
      by (rule exI [of _ True], rule exI [of _ buf'], rule exI [of _ "p_heap q"])
        (use run kept [OF 1(2)] 1(1,3) buf in simp)
  next
    case (2 q)
    obtain buf' where buf: "p_buffer q = Some buf'" "length buf' = length buf" "h_live (p_heap q) = h_live h"
      using kept [OF 2(2)] by blast
    have "\<not> (render fmt 0 t = Some x \<and> length x + 2 \<le> nat len \<and> nat len \<le> nat INT_MAX)" for x
      using 2(3) p(2,3,6) by (auto simp: full_def)
    then show ?thesis
      by (intro exI [of _ False] exI [of _ buf'] exI [of _ "p_heap q"]) (use run 2(1) buf in auto)
  qed
qed

theorem preallocated_exact_witness:
  "\<exists>buf' h'. cJSON_PrintPreallocated True (Some sample_object) (Some (replicate 40 7)) 40 True plenty = Inr (True, Some buf', h') \<and>
     length buf' = 40"
  using preallocated_exact [OF printable_sample, of 40 "replicate 40 7" True True plenty] unfolding render_sample
  by (auto simp: lit_def)

end
