(* ===== verification/Json_Copy.thy ===== *)
theory Json_Copy
  imports Json_Tree
begin

text \<open>
  What \<open>cJSON_Duplicate\<close> and \<open>cJSON_Compare\<close> promise about whole trees: a copy has the contents of its
  original, costs exactly its blocks and leaves nothing behind when it fails; comparison decides an equality
  of trees that is defined on its own, and a copy compares equal.
\<close>


subsection \<open>Copies of trees\<close>

text \<open>A copy has the same strings up to their terminators.\<close>

definition trim_string :: "u8 list option \<Rightarrow> u8 list option" where
  "trim_string s = map_option (\<lambda>s. cstr s @ [0]) s"

fun trimmed :: "cJSON \<Rightarrow> cJSON" where
  "trimmed (Item f cs) =
     Item (f\<lparr>i_valuestring := trim_string (i_valuestring f), i_string := trim_string (i_string f)\<rparr>) (map trimmed cs)"

fun terminated :: "cJSON \<Rightarrow> bool" where
  "terminated (Item f cs) \<longleftrightarrow>
     (\<forall>s. i_valuestring f = Some s \<longrightarrow> 0 \<in> set s) \<and> (\<forall>s. i_string f = Some s \<longrightarrow> 0 \<in> set s) \<and> list_all terminated cs"

fun nesting :: "cJSON \<Rightarrow> nat" where
  "nesting (Item f cs) = (if cs = [] then 0 else Suc (fold max (map nesting cs) 0))"

lemma fold_max_ge: "x \<in> set xs \<Longrightarrow> x \<le> fold max xs (n :: nat)"
proof (induction xs arbitrary: n)
  case (Cons a xs)
  have "m \<le> fold max xs m" for m by (induction xs arbitrary: m) (auto intro: le_trans [OF max.cobounded2])
  then show ?case using Cons by (auto intro: le_trans [OF max.cobounded1])
qed simp

lemma blocks_trimmed [simp]: "blocks (trimmed t) = blocks t"
proof (induction t)
  case (Item f cs)
  then have "sum_list (map (blocks \<circ> trimmed) cs) = sum_list (map blocks cs)"
    by (intro arg_cong [where f = sum_list]) simp
  then show ?case by (simp add: trim_string_def)
qed

lemma owned_trimmed [simp]: "owned (trimmed t) = owned t"
  by (induction t) (auto simp: list_all_iff)

lemma clear_absent_flag: "w AND k = 0 \<Longrightarrow> w AND NOT k = w" for w k :: "'a::len word"
  by (metis (no_types) and.right_neutral bit.conj_disj_distrib bit.disj_cancel_right or.left_neutral)

lemma copy_string_cases:
  assumes "\<forall>s. str = Some s \<longrightarrow> 0 \<in> set s"
  obtains h' where "copy_string False str h = Inr (True, trim_string str, h')" "h_answer h' = h_answer h"
      "h_live h' = h_live h + of_bool (str \<noteq> None)"
  | h' where "copy_string False str h = Inr (False, None, h')" "h_answer h' = h_answer h" "h_live h' = h_live h"
      "\<exists>n k. \<not> h_answer h n k"
proof (cases str)
  case None
  then show ?thesis using that(1) [of h] by (simp add: copy_string_def trim_string_def)
next
  case (Some s)
  then have "c_str s = Inr (cstr s)" using assms by simp
  then show ?thesis
    using Some that(1) [of "snd (allocate (length (cstr s) + 1) h)"] that(2) [of "snd (allocate (length (cstr s) + 1) h)"]
    by (cases "h_answer h (h_calls h) (length (cstr s) + 1)")
      (auto simp: copy_string_def cJSON_strdup_def trim_string_def allocate_def Let_def simp del: c_str_eq_Inr)
qed

definition copied :: "cJSON \<Rightarrow> int \<Rightarrow> bool \<Rightarrow> heap \<Rightarrow> (cJSON option \<times> heap) outcome \<Rightarrow> bool" where
  "copied t given refused h r \<longleftrightarrow>
     (\<exists>d h'. r = Inr (d, h') \<and> h_answer h' = h_answer h \<and>
        (case d of
           None \<Rightarrow> h_live h' = h_live h - given \<and> ((\<exists>n k. \<not> h_answer h n k) \<or> refused)
         | Some d \<Rightarrow> d = t \<and> h_live h' = h_live h + blocks t - given))"

lemma copied_ok: "h_answer h' = h_answer h \<Longrightarrow> h_live h' = h_live h + blocks t - g \<Longrightarrow> copied t g r h (Inr (Some t, h'))"
  by (simp add: copied_def)

lemma copied_fail:
  "h_answer h' = h_answer h \<Longrightarrow> h_live h' = h_live h - g \<Longrightarrow> (\<exists>n k. \<not> h_answer h n k) \<or> r \<Longrightarrow>
     copied t g r h (Inr (None, h'))"
  by (simp add: copied_def)

lemma copied_trans:
  assumes "copied t g r k out" "h_answer k = h_answer h" "h_live k - g = h_live h - g'" "r \<Longrightarrow> r'"
  shows "copied t g' r' h out"
proof -
  obtain d h' where d: "out = Inr (d, h')" "h_answer h' = h_answer k"
    "case d of None \<Rightarrow> h_live h' = h_live k - g \<and> ((\<exists>n i. \<not> h_answer k n i) \<or> r)
     | Some d \<Rightarrow> d = t \<and> h_live h' = h_live k + blocks t - g"
    using assms(1) by (auto simp: copied_def)
  then show ?thesis using assms(2-4) by (cases d) (auto simp: copied_def)
qed

lemma children_copied:
  assumes "\<And>c h. c \<in> set cs \<Longrightarrow>
      copied (trimmed c) 0 (CJSON_CIRCULAR_LIMIT < Suc depth + nesting c) h (cJSON_Duplicate_rec c (Suc depth) True h)"
    and "list_all owned cs" "owned (Item g copies)"
  shows "copied (Item g (copies @ map trimmed cs)) (blocks (Item g copies))
     (\<exists>c \<in> set cs. CJSON_CIRCULAR_LIMIT < depth + Suc (nesting c)) h (duplicate_children cs g copies depth h)"
  using assms
proof (induction cs arbitrary: copies h)
  case Nil
  then show ?case by (simp add: copied_ok)
next
  case (Cons c cs)
  note [simp del] = cJSON_Delete.simps
  let ?r = "\<exists>c \<in> set (c # cs). CJSON_CIRCULAR_LIMIT < depth + Suc (nesting c)"
  have deleted: "h_live (cJSON_Delete [Item g copies] h') = h_live h' - blocks (Item g copies) \<and>
      h_answer (cJSON_Delete [Item g copies] h') = h_answer h'" for h'
    using cJSON_Delete_owned [of "[Item g copies]" h'] Cons.prems(3) by simp
  show ?case
  proof (cases "CJSON_CIRCULAR_LIMIT \<le> depth")
    case True
    then have "duplicate_children (c # cs) g copies depth h = Inr (None, cJSON_Delete [Item g copies] h)" by simp
    moreover have ?r using True by auto
    ultimately show ?thesis using deleted [of h] by (metis copied_fail)
  next
    case False
    have "copied (trimmed c) 0 (CJSON_CIRCULAR_LIMIT < Suc depth + nesting c) h (cJSON_Duplicate_rec c (Suc depth) True h)"
      by (rule Cons.prems(1)) simp
    then obtain d h1 where d: "cJSON_Duplicate_rec c (Suc depth) True h = Inr (d, h1)" "h_answer h1 = h_answer h"
      "case d of None \<Rightarrow> h_live h1 = h_live h \<and> ((\<exists>n k. \<not> h_answer h n k) \<or> CJSON_CIRCULAR_LIMIT < Suc depth + nesting c)
       | Some d \<Rightarrow> d = trimmed c \<and> h_live h1 = h_live h + blocks c"
      unfolding copied_def diff_zero blocks_trimmed by blast
    show ?thesis
    proof (cases d)
      case None
      then have "duplicate_children (c # cs) g copies depth h = Inr (None, cJSON_Delete [Item g copies] h1)"
        using False d(1) by simp
      moreover have "(\<exists>n k. \<not> h_answer h n k) \<or> ?r" using None d(3) by auto
      moreover have "h_live h1 = h_live h" using None d(3) by simp
      ultimately show ?thesis using d(2) deleted [of h1] by (metis copied_fail)
    next
      case (Some e)
      have "copied (Item g ((copies @ [trimmed c]) @ map trimmed cs)) (blocks (Item g (copies @ [trimmed c])))
         (\<exists>c \<in> set cs. CJSON_CIRCULAR_LIMIT < depth + Suc (nesting c)) h1
         (duplicate_children cs g (copies @ [trimmed c]) depth h1)"
        by (rule Cons.IH) (use Cons.prems in auto)
      moreover have "duplicate_children (c # cs) g copies depth h = duplicate_children cs g (copies @ [trimmed c]) depth h1"
        using False d Some by simp
      moreover have "blocks (Item g (copies @ [trimmed c])) = blocks (Item g copies) + blocks c" by simp
      moreover have "h_live h1 = h_live h + blocks c" using Some d(3) by simp
      ultimately show ?thesis using d(2)
        by (intro copied_trans [where h = h and k = h1 and g = "blocks (Item g (copies @ [trimmed c]))"
            and r = "\<exists>c \<in> set cs. CJSON_CIRCULAR_LIMIT < depth + Suc (nesting c)"])
          (simp_all del: blocks.simps)
    qed
  qed
qed

lemma duplicate_copied:
  "owned t \<Longrightarrow> terminated t \<Longrightarrow>
     copied (trimmed t) 0 (CJSON_CIRCULAR_LIMIT < depth + nesting t) h (cJSON_Duplicate_rec t depth True h)"
proof (induction t arbitrary: depth h)
  case (Item f cs)
  let ?r = "CJSON_CIRCULAR_LIMIT < depth + nesting (Item f cs)"
  note flags = Item.prems(1) [unfolded owned.simps] and strings = Item.prems(2) [unfolded terminated.simps]
  show ?case
  proof (cases rule: cJSON_New_Item_cases [of h])
    case (2 h1)
    have "\<exists>n k. \<not> h_answer h n k" using 2(1) by (auto simp: cJSON_New_Item_def allocate_def Let_def split: if_splits)
    then show ?thesis using 2 by (simp add: copied_fail)
  next
    case new: (1 h1)
    define g0 where "g0 = zero_item\<lparr>i_type := i_type f, i_valueint := i_valueint f, i_valuedouble := i_valuedouble f\<rparr>"
    have vs: "\<forall>s. i_valuestring f = Some s \<longrightarrow> 0 \<in> set s" and st: "\<forall>s. i_string f = Some s \<longrightarrow> 0 \<in> set s"
      using strings by simp_all
    have type: "i_type f AND NOT cJSON_IsReference = i_type f" by (rule clear_absent_flag [OF conjunct1 [OF flags]])
    have const: "(i_type f AND cJSON_StringIsConst \<noteq> 0) = False" using flags by simp
    note unfolded = cJSON_Duplicate_rec.simps new(1) prod.case option.case Let_def type const g0_def [symmetric]
      if_False if_True not_True_eq_False not_False_eq_True bind_res_Inr
    show ?thesis
    proof (cases rule: copy_string_cases [OF vs, of h1])
      case (2 h2)
      have "h_live (cJSON_Delete [Item (g0\<lparr>i_valuestring := None\<rparr>) []] h2) = h_live h \<and>
          h_answer (cJSON_Delete [Item (g0\<lparr>i_valuestring := None\<rparr>) []] h2) = h_answer h"
        using cJSON_Delete_owned [of "[Item (g0\<lparr>i_valuestring := None\<rparr>) []]" h2] flags 2 new
        by (simp add: g0_def zero_item_def)
      then show ?thesis using 2(4) new(2) by (simp only: unfolded 2(1)) (simp add: copied_fail)
    next
      case first: (1 h2)
      define g1 where "g1 = g0\<lparr>i_valuestring := trim_string (i_valuestring f)\<rparr>"
      show ?thesis
      proof (cases rule: copy_string_cases [OF st, of h2])
        case (2 h3)
        have "h_live (cJSON_Delete [Item (g1\<lparr>i_string := None\<rparr>) []] h3) = h_live h \<and>
            h_answer (cJSON_Delete [Item (g1\<lparr>i_string := None\<rparr>) []] h3) = h_answer h"
          using cJSON_Delete_owned [of "[Item (g1\<lparr>i_string := None\<rparr>) []]" h3] flags 2 first new
          by (simp add: g0_def g1_def trim_string_def zero_item_def)
        then show ?thesis using 2(4) first(2) new(2)
          by (simp only: unfolded first(1) g1_def [symmetric] 2(1)) (simp add: copied_fail)
      next
        case second: (1 h3)
        define g2 where "g2 = g1\<lparr>i_string := trim_string (i_string f)\<rparr>"
        have g2: "g2 = f\<lparr>i_valuestring := trim_string (i_valuestring f), i_string := trim_string (i_string f)\<rparr>"
          by (simp add: g2_def g1_def g0_def zero_item_def)
        have "copied (Item g2 ([] @ map trimmed cs)) (blocks (Item g2 []))
            (\<exists>c \<in> set cs. CJSON_CIRCULAR_LIMIT < depth + Suc (nesting c)) h3 (duplicate_children cs g2 [] depth h3)"
        proof (rule children_copied)
          fix c h assume c: "c \<in> set cs"
          then have "owned c" "terminated c" using flags strings by (simp_all add: list_all_iff)
          then show "copied (trimmed c) 0 (CJSON_CIRCULAR_LIMIT < Suc depth + nesting c) h
              (cJSON_Duplicate_rec c (Suc depth) True h)"
            by (rule Item.IH [OF c])
        qed (use flags in \<open>simp_all add: g2\<close>)
        then have "copied (trimmed (Item f cs)) (blocks (Item g2 []))
            (\<exists>c \<in> set cs. CJSON_CIRCULAR_LIMIT < depth + Suc (nesting c)) h3 (duplicate_children cs g2 [] depth h3)"
          by (simp add: g2)
        then have "copied (trimmed (Item f cs)) 0 ?r h (duplicate_children cs g2 [] depth h3)"
        proof (rule copied_trans)
          show "h_answer h3 = h_answer h" using first(2) second(2) new(2) by simp
          show "h_live h3 - blocks (Item g2 []) = h_live h - 0"
            using first(3) second(3) new(3) by (simp add: g2 trim_string_def)
          assume "\<exists>c \<in> set cs. CJSON_CIRCULAR_LIMIT < depth + Suc (nesting c)"
          then obtain c where c: "c \<in> set cs" "CJSON_CIRCULAR_LIMIT < depth + Suc (nesting c)" ..
          have "nesting c \<le> fold max (map nesting cs) 0" using c(1) by (simp add: fold_max_ge)
          then show ?r using c by (cases cs) (simp_all del: fold.simps)
        qed
        then show ?thesis
          by (simp only: unfolded first(1) g1_def [symmetric] second(1) g2_def [symmetric])
      qed
    qed
  qed
qed

subsection \<open>Fields of a copy\<close>

lemma trimmed_fields:
  "i_type (item_of (trimmed c)) = i_type (item_of c)"
  "i_valueint (item_of (trimmed c)) = i_valueint (item_of c)"
  "i_valuedouble (item_of (trimmed c)) = i_valuedouble (item_of c)"
  "i_valuestring (item_of (trimmed c)) = map_option (\<lambda>s. cstr s @ [0]) (i_valuestring (item_of c))"
  "i_string (item_of (trimmed c)) = map_option (\<lambda>s. cstr s @ [0]) (i_string (item_of c))"
  "child (trimmed c) = map trimmed (child c)"
  by (cases c, simp add: trim_string_def)+

lemma trimmed_keys [simp]:
  "named (trimmed c) \<longleftrightarrow> i_string (item_of c) \<noteq> None" "unnamed (trimmed c) = unnamed c"
  "member_key cs (trimmed c) = member_key cs c"
  by (auto simp: named_def unnamed_def member_key_def trimmed_fields Let_def map_option_case split: option.splits)

subsection \<open>What it means that two trees are equal\<close>

text \<open>
  A definition on its own: literals of one kind are equal, numbers within the tolerance of the code, texts
  up to their terminators, arrays element by element, and objects when each member of the one has an equal
  member of that name in the other, whatever the order. Types outside the grammar are never equal.
\<close>

definition kind_of :: "cJSON \<Rightarrow> u32" where
  "kind_of c = i_type (item_of c) AND 0xFF"

definition kinds :: "u32 set" where
  "kinds = {cJSON_False, cJSON_True, cJSON_NULL, cJSON_Number, cJSON_String, cJSON_Raw, cJSON_Array, cJSON_Object}"

inductive same_json :: "bool \<Rightarrow> cJSON \<Rightarrow> cJSON \<Rightarrow> bool" for case_sensitive where
  Same_literal: "kind_of a = kind_of b \<Longrightarrow> kind_of a \<in> {cJSON_False, cJSON_True, cJSON_NULL} \<Longrightarrow> same_json case_sensitive a b"
| Same_number: "kind_of a = cJSON_Number \<Longrightarrow> kind_of b = cJSON_Number \<Longrightarrow>
    compare_double (i_valuedouble (item_of a)) (i_valuedouble (item_of b)) \<Longrightarrow> same_json case_sensitive a b"
| Same_text: "kind_of a = kind_of b \<Longrightarrow> kind_of a \<in> {cJSON_String, cJSON_Raw} \<Longrightarrow>
    i_valuestring (item_of a) = Some s \<Longrightarrow> i_valuestring (item_of b) = Some s' \<Longrightarrow> cstr s = cstr s' \<Longrightarrow>
    same_json case_sensitive a b"
| Same_array: "kind_of a = cJSON_Array \<Longrightarrow> kind_of b = cJSON_Array \<Longrightarrow>
    list_all2 (same_json case_sensitive) (child a) (child b) \<Longrightarrow> same_json case_sensitive a b"
| Same_object: "kind_of a = cJSON_Object \<Longrightarrow> kind_of b = cJSON_Object \<Longrightarrow>
    \<forall>x \<in> set (child a). \<exists>y \<in> set (child b). member_key case_sensitive x = member_key case_sensitive y \<and>
      same_json case_sensitive x y \<Longrightarrow>
    \<forall>y \<in> set (child b). \<exists>x \<in> set (child a). member_key case_sensitive y = member_key case_sensitive x \<and>
      same_json case_sensitive y x \<Longrightarrow>
    same_json case_sensitive a b"

text \<open>
  Trees that can be compared: texts are terminated where there are any, and the members of an object have
  terminated names, no two of them the same. Any types, flags and null texts are allowed.
\<close>

fun comparable_tree :: "bool \<Rightarrow> cJSON \<Rightarrow> bool" where
  "comparable_tree case_sensitive (Item f cs) \<longleftrightarrow>
     (i_type f AND 0xFF \<in> {cJSON_String, cJSON_Raw} \<longrightarrow> (\<forall>s. i_valuestring f = Some s \<longrightarrow> 0 \<in> set s)) \<and>
     (i_type f AND 0xFF = cJSON_Object \<longrightarrow> list_all named cs \<and> distinct (map (member_key case_sensitive) cs)) \<and>
     list_all (comparable_tree case_sensitive) cs"

lemma comparable_parts:
  assumes "comparable_tree case_sensitive a"
  shows "kind_of a \<in> {cJSON_String, cJSON_Raw} \<Longrightarrow> i_valuestring (item_of a) = Some s \<Longrightarrow> 0 \<in> set s"
    and "kind_of a = cJSON_Object \<Longrightarrow> list_all named (child a) \<and> distinct (map (member_key case_sensitive) (child a))"
    and "x \<in> set (child a) \<Longrightarrow> comparable_tree case_sensitive x"
  using assms by (cases a; simp add: kind_of_def list_all_iff)+

text \<open>Looking the name of an item up among distinct names finds the member of that name, if there is one.\<close>

lemma lookup_member:
  assumes "list_all named (child b)" "distinct (map (member_key cs) (child b))" "named x"
  shows "\<exists>r. get_object_item (Some b) (i_string (item_of x)) cs = Inr r \<and>
    (\<forall>y. r = Some y \<longleftrightarrow> y \<in> set (child b) \<and> member_key cs x = member_key cs y)"
proof -
  obtain key where key: "i_string (item_of x) = Some key" "0 \<in> set key" using assms(3) by (auto simp: named_def)
  have s: "search_key cs key = member_key cs x" using key(1) by (simp add: member_key_def search_key_def)
  let ?r = "find (\<lambda>m. member_key cs m = member_key cs x) (child b)"
  have "?r = Some y \<longleftrightarrow> y \<in> set (child b) \<and> member_key cs x = member_key cs y" for y
    using find_distinct [OF assms(2), of y] by (auto simp: find_Some_iff)
  then show ?thesis using get_object_item_first [OF assms(1) key(2)] key(1) s by auto
qed

text \<open>One direction of the comparison of objects: every member of \<open>a\<close> is looked up in \<open>b\<close>.\<close>

lemma one_side_exact:
  assumes "list_all named xs" "list_all named (child b)" "distinct (map (member_key cs) (child b))"
    and "\<And>x y. x \<in> set xs \<Longrightarrow> y \<in> set (child b) \<Longrightarrow> compare_items cs x y = Inr (same_json cs x y)"
  shows "all_res (\<lambda>x. bind_res (get_object_item (Some b) (i_string (item_of x)) cs) (\<lambda>r.
      case r of None \<Rightarrow> Inr False | Some y \<Rightarrow> compare_items cs x y)) xs =
    Inr (\<forall>x \<in> set xs. \<exists>y \<in> set (child b). member_key cs x = member_key cs y \<and> same_json cs x y)"
proof (rule all_res_exact)
  fix x assume x: "x \<in> set xs"
  then have "named x" using assms(1) by (simp add: list_all_iff)
  then obtain r where r: "get_object_item (Some b) (i_string (item_of x)) cs = Inr r"
    "\<And>y. r = Some y \<longleftrightarrow> y \<in> set (child b) \<and> member_key cs x = member_key cs y"
    using lookup_member [OF assms(2,3)] by blast
  show "bind_res (get_object_item (Some b) (i_string (item_of x)) cs) (\<lambda>r.
      case r of None \<Rightarrow> Inr False | Some y \<Rightarrow> compare_items cs x y) =
    Inr (\<exists>y \<in> set (child b). member_key cs x = member_key cs y \<and> same_json cs x y)"
  proof (cases r)
    case None
    then show ?thesis using r by (auto simp: bind_res_def)
  next
    case (Some z)
    have "(\<exists>y \<in> set (child b). member_key cs x = member_key cs y \<and> same_json cs x y) = same_json cs x z"
      using r(2) Some by (metis option.inject)
    moreover have "compare_items cs x z = Inr (same_json cs x z)" using assms(4) [OF x] r(2) Some by blast
    ultimately show ?thesis using r(1) Some by simp
  qed
qed

lemma compare_items_exact:
  "comparable_tree case_sensitive a \<Longrightarrow> comparable_tree case_sensitive b \<Longrightarrow>
     compare_items case_sensitive a b = Inr (same_json case_sensitive a b)"
proof (induction "size a + size b" arbitrary: a b rule: less_induct)
  case less
  let ?cs = case_sensitive
  have IH: "compare_items ?cs x y = Inr (same_json ?cs x y)" "compare_items ?cs y x = Inr (same_json ?cs y x)"
    if "x \<in> set (child a)" "y \<in> set (child b)" for x y
  proof -
    have s: "size x + size y < size a + size b" by (intro add_strict_mono size_child that)
    have "comparable_tree ?cs x" "comparable_tree ?cs y" using that less.prems comparable_parts(3) by blast+
    then show "compare_items ?cs x y = Inr (same_json ?cs x y)" "compare_items ?cs y x = Inr (same_json ?cs y x)"
      using less.hyps [of x y] less.hyps [of y x] s by (simp_all add: add.commute)
  qed
  note step = compare_items.simps [of ?cs a b] and same = same_json.simps [of ?cs a b]
  consider (other) "kind_of a \<noteq> kind_of b \<or> kind_of a \<notin> kinds"
    | (lit) "kind_of a = kind_of b" "kind_of a \<in> {cJSON_False, cJSON_True, cJSON_NULL}"
    | (num) "kind_of a = cJSON_Number" "kind_of b = cJSON_Number"
    | (str) "kind_of a = kind_of b" "kind_of a \<in> {cJSON_String, cJSON_Raw}"
    | (arr) "kind_of a = cJSON_Array" "kind_of b = cJSON_Array"
    | (obj) "kind_of a = cJSON_Object" "kind_of b = cJSON_Object"
    unfolding kinds_def by force
  then show ?case
  proof cases
    case other
    then have "\<not> same_json ?cs a b" by (auto simp: kinds_def elim!: same_json.cases)
    then show ?thesis using other unfolding step by (auto simp: kinds_def kind_of_def Let_def)
  next
    case lit
    then have "same_json ?cs a b" by (rule Same_literal)
    then show ?thesis using lit unfolding step by (auto simp: kind_of_def Let_def)
  next
    case num
    then have "same_json ?cs a b \<longleftrightarrow> compare_double (i_valuedouble (item_of a)) (i_valuedouble (item_of b))"
      by (subst same) auto
    then show ?thesis using num unfolding step by (simp add: kind_of_def Let_def)
  next
    case str
    then have eq: "same_json ?cs a b \<longleftrightarrow>
        (\<exists>s s'. i_valuestring (item_of a) = Some s \<and> i_valuestring (item_of b) = Some s' \<and> cstr s = cstr s')"
      by (subst same) auto
    have c: "compare_items ?cs a b = (case (i_valuestring (item_of a), i_valuestring (item_of b)) of
           (Some s1, Some s2) \<Rightarrow> bind_res (strcmp s1 s2) (\<lambda>i. Inr (i = 0)) | _ \<Rightarrow> Inr False)"
      using str unfolding step by (auto simp: kind_of_def Let_def)
    show ?thesis
    proof (cases "i_valuestring (item_of a) = None \<or> i_valuestring (item_of b) = None")
      case True
      then show ?thesis unfolding c eq by (auto split: option.split)
    next
      case False
      then obtain s s' where s: "i_valuestring (item_of a) = Some s" "i_valuestring (item_of b) = Some s'" by auto
      have "0 \<in> set s" "0 \<in> set s'" using comparable_parts(1) less.prems s str by metis+
      then obtain i where "strcmp s s' = Inr i" "i = 0 \<longleftrightarrow> cstr s = cstr s'" using strcmp_terminated by blast
      then show ?thesis unfolding c eq using s by simp
    qed
  next
    case arr
    then have eq: "same_json ?cs a b \<longleftrightarrow> list_all2 (same_json ?cs) (child a) (child b)" by (subst same) auto
    have "all_res (\<lambda>(x, y). compare_items ?cs x y) (zip (child a) (child b)) =
        Inr (\<forall>p \<in> set (zip (child a) (child b)). (case p of (x, y) \<Rightarrow> same_json ?cs x y))"
      by (rule all_res_exact) (auto dest: set_zip_leftD set_zip_rightD intro!: IH(1))
    then have "compare_items ?cs a b = Inr ((\<forall>p \<in> set (zip (child a) (child b)). (case p of (x, y) \<Rightarrow> same_json ?cs x y)) \<and>
        length (child a) = length (child b))"
      using arr unfolding step by (simp add: kind_of_def Let_def)
    then show ?thesis unfolding eq by (auto simp: list_all2_iff)
  next
    case obj
    let ?L = "\<forall>x \<in> set (child a). \<exists>y \<in> set (child b). member_key ?cs x = member_key ?cs y \<and> same_json ?cs x y"
    let ?R = "\<forall>y \<in> set (child b). \<exists>x \<in> set (child a). member_key ?cs y = member_key ?cs x \<and> same_json ?cs y x"
    have eq: "same_json ?cs a b \<longleftrightarrow> ?L \<and> ?R" using obj by (subst same) auto
    have ka: "list_all named (child a)" "distinct (map (member_key ?cs) (child a))"
      and kb: "list_all named (child b)" "distinct (map (member_key ?cs) (child b))"
      using comparable_parts(2) less.prems obj by blast+
    have "all_res (\<lambda>x. bind_res (get_object_item (Some b) (i_string (item_of x)) ?cs) (\<lambda>r.
        case r of None \<Rightarrow> Inr False | Some y \<Rightarrow> compare_items ?cs x y)) (child a) = Inr ?L"
      by (rule one_side_exact [OF ka(1) kb]) (rule IH(1))
    moreover have "all_res (\<lambda>y. bind_res (get_object_item (Some a) (i_string (item_of y)) ?cs) (\<lambda>r.
        case r of None \<Rightarrow> Inr False | Some x \<Rightarrow> compare_items ?cs y x)) (child b) = Inr ?R"
      by (rule one_side_exact [OF kb(1) ka]) (rule IH(2))
    ultimately have "compare_items ?cs a b = Inr (?L \<and> ?R)"
      using obj unfolding step by (simp add: kind_of_def Let_def)
    then show ?thesis unfolding eq .
  qed
qed

text \<open>Trees that are equal to themselves: types of the grammar, no null text, finite numbers.\<close>

fun proper :: "cJSON \<Rightarrow> bool" where
  "proper (Item f cs) \<longleftrightarrow> i_type f AND 0xFF \<in> kinds \<and>
     (i_type f AND 0xFF \<in> {cJSON_String, cJSON_Raw} \<longrightarrow> i_valuestring f \<noteq> None) \<and>
     (i_type f AND 0xFF = cJSON_Number \<longrightarrow> finite_double (i_valuedouble f)) \<and> list_all proper cs"

lemma kind_of_trimmed [simp]: "kind_of (trimmed t) = kind_of t"
  by (simp add: kind_of_def trimmed_fields)

lemma same_json_trimmed: "proper t \<Longrightarrow> same_json cs t (trimmed t) \<and> same_json cs (trimmed t) t"
proof (induction t)
  case (Item f xs)
  let ?t = "Item f xs"
  note [simp del] = trimmed.simps and [simp] = trimmed_fields
  have k: "kind_of ?t \<in> kinds" using Item.prems by (simp add: kind_of_def)
  have member: "same_json cs x (trimmed x)" "same_json cs (trimmed x) x" if "x \<in> set xs" for x
    using Item.IH that Item.prems by (simp_all add: list_all_iff)
  consider (lit) "kind_of ?t \<in> {cJSON_False, cJSON_True, cJSON_NULL}" | (num) "kind_of ?t = cJSON_Number"
    | (str) "kind_of ?t \<in> {cJSON_String, cJSON_Raw}" | (arr) "kind_of ?t = cJSON_Array" | (obj) "kind_of ?t = cJSON_Object"
    using k unfolding kinds_def by force
  then show ?case
  proof cases
    case lit
    then show ?thesis using Same_literal [of ?t "trimmed ?t"] Same_literal [of "trimmed ?t" ?t] by simp
  next
    case num
    then have "finite_double (i_valuedouble f)" using Item.prems by (simp add: kind_of_def)
    then show ?thesis using num Same_number [of ?t "trimmed ?t"] Same_number [of "trimmed ?t" ?t]
      by (simp add: compare_double_refl)
  next
    case str
    then obtain s where "i_valuestring f = Some s" using Item.prems by (auto simp: kind_of_def)
    then show ?thesis using str Same_text [of ?t "trimmed ?t" s "cstr s @ [0]"] Same_text [of "trimmed ?t" ?t "cstr s @ [0]" s]
      by simp
  next
    case arr
    then show ?thesis using member Same_array [of ?t "trimmed ?t"] Same_array [of "trimmed ?t" ?t]
      by (simp add: list_all2_conv_all_nth)
  next
    case obj
    have "\<forall>x \<in> set xs. \<exists>y \<in> set (map trimmed xs). member_key cs x = member_key cs y \<and> same_json cs x y"
      "\<forall>y \<in> set (map trimmed xs). \<exists>x \<in> set xs. member_key cs y = member_key cs x \<and> same_json cs y x"
      using member by auto
    then show ?thesis using obj Same_object [of ?t "trimmed ?t" cs] Same_object [of "trimmed ?t" ?t cs] by simp
  qed
qed

lemma comparable_tree_trimmed: "comparable_tree cs t \<Longrightarrow> comparable_tree cs (trimmed t)"
proof (induction t)
  case (Item f xs)
  then show ?case by (simp add: list_all_iff trim_string_def o_def) (auto simp: named_def)
qed

lemma duplicate_same:
  assumes "owned t" "terminated t" "proper t" "comparable_tree cs t" "cJSON_Duplicate (Some t) True h = Inr (Some d, h')"
  shows "cJSON_Compare False (Some t) (Some d) cs = Inr True \<and> cJSON_Compare False (Some d) (Some t) cs = Inr True"
proof -
  have d: "d = trimmed t"
    using duplicate_copied [OF assms(1,2), of 0 h] assms(5) by (auto simp: copied_def cJSON_Duplicate_def)
  note c = assms(4) comparable_tree_trimmed [OF assms(4)]
  show ?thesis
    using compare_items_exact [OF c] compare_items_exact [OF c(2,1)] same_json_trimmed [OF assms(3), of cs]
    by (simp add: d cJSON_Compare_def)
qed

subsection \<open>Properties\<close>

definition sample_tree :: cJSON where
  "sample_tree =
     Item (zero_item\<lparr>i_type := cJSON_Object\<rparr>)
       [Item (zero_item\<lparr>i_type := cJSON_String, i_string := Some (char_array 3 ''ip''), i_valuestring := Some (char_array 5 ''host'')\<rparr>) [],
        Item (zero_item\<lparr>i_type := cJSON_NULL, i_string := Some (char_array 5 ''port'')\<rparr>) []]"

lemma sample_tree_ok:
  "owned sample_tree" "terminated sample_tree"
  by (simp_all add: sample_tree_def zero_item_def char_array_def lit_def)

text \<open>
  C37. A recursive duplicate of a tree that owns its strings and children is the tree itself, with its
  strings cut at their terminators, and costs exactly the blocks of the tree. It fails only when the
  allocator refuses a block or when the tree is nested deeper than the limit of ten thousand, and a
  failing call returns null with every block it took given back.
\<close>

theorem duplicate_exact:
  assumes "owned t" "terminated t"
  shows "\<exists>d h'. cJSON_Duplicate (Some t) True h = Inr (d, h') \<and>
           (case d of
              None \<Rightarrow> h_live h' = h_live h \<and> ((\<exists>n k. \<not> h_answer h n k) \<or> CJSON_CIRCULAR_LIMIT < nesting t)
            | Some d \<Rightarrow> d = trimmed t \<and> h_live h' = h_live h + blocks t)"
  using duplicate_copied [OF assms, of 0 h] unfolding copied_def cJSON_Duplicate_def
  by (fastforce split: option.splits)

theorem duplicate_exact_witness:
  "\<exists>h'. cJSON_Duplicate (Some sample_tree) True plenty = Inr (Some (trimmed sample_tree), h') \<and>
     h_live h' = blocks sample_tree"
proof -
  have "nesting sample_tree = 1" by (simp add: sample_tree_def)
  then show ?thesis using duplicate_exact [OF sample_tree_ok(1,2), of plenty]
    by (auto simp: plenty_def split: option.splits)
qed

text \<open>The members of \<open>sample_tree\<close> in the other order, and without the second.\<close>

definition sample_swapped :: cJSON where
  "sample_swapped = Item (zero_item\<lparr>i_type := cJSON_Object\<rparr>) (rev (child sample_tree))"

definition sample_smaller :: cJSON where
  "sample_smaller = Item (zero_item\<lparr>i_type := cJSON_Object\<rparr>) (take 1 (child sample_tree))"

lemmas sample_defs = sample_tree_def sample_swapped_def sample_smaller_def zero_item_def char_array_def lit_def

lemma sample_comparable: "comparable_tree True sample_tree" "comparable_tree True sample_swapped" "comparable_tree True sample_smaller"
  "proper sample_tree"
  by (simp_all add: sample_defs named_def member_key_def kinds_def)

lemma sample_members_same: "x \<in> set (child sample_tree) \<Longrightarrow> same_json True x x"
  using sample_comparable(4) same_json_trimmed [of x True] by (auto simp: sample_defs trim_string_def)

text \<open>
  C38. Comparison is exact. Of two trees at different addresses whose texts are terminated and whose objects
  have named members, no two of one name (as the comparison sees names), \<open>cJSON_Compare\<close> reads nothing out
  of bounds and returns true just when they are equal: literals of one kind, numbers within the tolerance,
  texts and raw texts up to their terminators, arrays of one length element by element, and objects when
  each member of either has an equal member of that name in the other, in any order; a null text, and a type
  outside the grammar, equals nothing. So a duplicate compares equal to its original
  in both orders when the original owns its terminated strings and its children, has only types of the
  grammar and no null text, and its numbers are finite.
\<close>

theorem compare_exact:
  assumes "comparable_tree case_sensitive a" "comparable_tree case_sensitive b"
  shows "cJSON_Compare False (Some a) (Some b) case_sensitive = Inr (same_json case_sensitive a b) \<and>
    (owned a \<and> terminated a \<and> proper a \<longrightarrow> (\<forall>h d h'. cJSON_Duplicate (Some a) True h = Inr (Some d, h') \<longrightarrow>
       cJSON_Compare False (Some a) (Some d) case_sensitive = Inr True \<and>
       cJSON_Compare False (Some d) (Some a) case_sensitive = Inr True))"
  using compare_items_exact [OF assms] duplicate_same [OF _ _ _ assms(1)] by (simp add: cJSON_Compare_def)

theorem compare_exact_witness:
  "cJSON_Compare False (Some sample_tree) (Some sample_swapped) True = Inr True \<and>
   cJSON_Compare False (Some sample_smaller) (Some sample_tree) True = Inr False \<and>
   (\<exists>d h'. cJSON_Duplicate (Some sample_tree) True plenty = Inr (Some d, h') \<and>
      cJSON_Compare False (Some sample_tree) (Some d) True = Inr True)"
proof -
  have "same_json True sample_tree sample_swapped"
    by (rule Same_object) (use sample_members_same in \<open>auto simp: sample_swapped_def kind_of_def sample_tree_def zero_item_def\<close>)
  moreover have "\<not> same_json True sample_smaller sample_tree"
    by (subst same_json.simps) (simp add: kind_of_def sample_defs member_key_def)
  moreover have "case cJSON_Duplicate (Some sample_tree) True plenty of Inl e \<Rightarrow> False | Inr (d, h') \<Rightarrow> d \<noteq> None"
    by code_simp
  then obtain d h' where d: "cJSON_Duplicate (Some sample_tree) True plenty = Inr (Some d, h')"
    by (auto split: sum.splits)
  moreover note c = compare_exact [OF sample_comparable(1,2)] and conjunct1 [OF compare_exact [OF sample_comparable(3,1)]]
  moreover have "cJSON_Compare False (Some sample_tree) (Some d) True = Inr True"
    using conjunct2 [OF c] sample_tree_ok(1,2) sample_comparable(4) d by blast
  ultimately show ?thesis by simp
qed

end
