(* ===== verification/Json_Reread.thy ===== *)
theory Json_Reread
  imports Json_Render Json_Copy
begin

text \<open>
  Reading back what the printer wrote: the parser, run on the rendering of a tree, returns a tree with
  the same shape, types, names and strings, and with every number as \<open>strtod\<close> reads its text.
\<close>

subsection \<open>The rest of the input\<close>

definition rest :: "parse_buffer \<Rightarrow> u8 list" where
  "rest b = segment (b_content b) (b_offset b) (b_length b)"

definition granted :: "heap \<Rightarrow> bool" where
  "granted h \<longleftrightarrow> (\<forall>n k. h_answer h n k)"

lemma rest_simps [simp]:
  "rest (advance k b) = drop k (rest b)" "rest (b\<lparr>b_heap := h\<rparr>) = rest b" "rest (b\<lparr>b_depth := d\<rparr>) = rest b"
  by (simp_all add: rest_def drop_segment)

lemma length_rest: "wf_buffer b \<Longrightarrow> length (rest b) = b_length b - b_offset b"
  by (simp add: rest_def wf_buffer_def length_segment)

lemma nth_rest: "wf_buffer b \<Longrightarrow> i < length (rest b) \<Longrightarrow> buffer_byte b i = Inr (rest b ! i)"
  by (simp add: length_rest buffer_byte_ok) (simp add: rest_def segment_def wf_buffer_def)

lemma can_access_rest: "wf_buffer b \<Longrightarrow> can_access_at_index b i \<longleftrightarrow> i < length (rest b)"
  by (auto simp: length_rest can_access_at_index_def)

lemma sees_rest: "wf_buffer b \<Longrightarrow> rest b = x # r \<Longrightarrow> sees b c = Inr (x = c)"
  using nth_rest [of b 0] by (simp add: sees_def can_access_rest)

lemma reads_rest:
  assumes "wf_buffer b" "0 \<notin> set s" "s \<noteq> []"
  shows "reads b s = Inr (take (length s) (rest b) = s)"
proof (cases "b_offset b + length s \<le> b_length b")
  case True
  then have "take (length s) (drop (b_offset b) (b_content b)) = take (length s) (rest b)"
    by (simp add: rest_def segment_def drop_take min_def)
  then show ?thesis using reads_ok [OF assms(1,2)] True by simp
next
  case False
  then have "length (take (length s) (rest b)) < length s" using assms by (cases s) (auto simp: length_rest)
  then have "take (length s) (rest b) \<noteq> s" by (metis less_irrefl)
  then show ?thesis using reads_ok [OF assms(1,2)] False by simp
qed

lemma skip_rest:
  assumes "wf_buffer b" "rest b = ws @ c # r" "\<forall>w \<in> set ws. w \<le> 32" "\<not> c \<le> 32"
  shows "buffer_skip_whitespace b = Inr (advance (length ws) b)"
proof -
  have "blanks b = length ws" using assms(2-4) by (simp add: blanks_def rest_def [symmetric])
  moreover have "length ws < b_length b - b_offset b" using length_rest [OF assms(1)] assms(2) by simp
  ultimately have "skipped b = length ws" by (auto simp: skipped_def)
  then show ?thesis using buffer_skip_whitespace_ok [OF assms(1)] by simp
qed

text \<open>A step that consumes some bytes and changes nothing else but the heap, whose answers stay.\<close>

definition consumed :: "nat \<Rightarrow> parse_buffer \<Rightarrow> parse_buffer \<Rightarrow> bool" where
  "consumed k b b' \<longleftrightarrow> b_content b' = b_content b \<and> b_length b' = b_length b \<and> b_offset b' = b_offset b + k \<and>
     b_depth b' = b_depth b \<and> granted (b_heap b')"

lemma consumed_rest: "consumed k b b' \<Longrightarrow> rest b' = drop k (rest b)"
  by (simp add: consumed_def rest_def drop_segment)

lemma consumed_wf: "consumed k b b' \<Longrightarrow> wf_buffer b' = wf_buffer b"
  by (simp add: consumed_def wf_buffer_def)

lemma granted_allocate: "granted h \<Longrightarrow> allocate n h = (True, h\<lparr>h_calls := Suc (h_calls h), h_live := h_live h + 1\<rparr>)"
  by (simp add: allocate_def granted_def)

lemma granted_simps [simp]:
  "granted (h\<lparr>h_calls := n\<rparr>) = granted h" "granted (h\<lparr>h_live := k\<rparr>) = granted h" "granted (deallocate h) = granted h"
  by (simp_all add: granted_def deallocate_def)

lemma granted_new_item: "granted h \<Longrightarrow> \<exists>h'. cJSON_New_Item h = (Some zero_item, h') \<and> granted h'"
  by (simp add: cJSON_New_Item_def granted_allocate)

subsection \<open>Strings\<close>

lemma low_codes: "c < 32 \<Longrightarrow> c \<in> set (map of_nat [0..<32])" for c :: u8
proof -
  assume "c < 32"
  then have "unat c \<in> set [0..<32]" by (simp add: word_less_nat_alt)
  then have "of_nat (unat c) \<in> set (map (of_nat :: nat \<Rightarrow> u8) [0..<32])" unfolding set_map by (rule imageI)
  then show ?thesis by simp
qed

lemma low_code_digits:
  assumes "c < 32"
  shows "hex_value [0x30, 0x30, hex_char (drop_bit 4 c), hex_char (c AND 15)] = Some (unat c) \<and>
    hex_char (drop_bit 4 c) \<notin> {0x22, 0x5C} \<and> hex_char (c AND 15) \<notin> {0x22, 0x5C} \<and> utf8_spec (unat c) = [c]"
proof -
  have "list_all (\<lambda>c. hex_value [0x30, 0x30, hex_char (drop_bit 4 c), hex_char (c AND 15)] = Some (unat c) \<and>
    hex_char (drop_bit 4 c) \<notin> {0x22, 0x5C} \<and> hex_char (c AND 15) \<notin> {0x22, 0x5C} \<and> utf8_spec (unat c) = [c])
    (map (of_nat :: nat \<Rightarrow> u8) [0..<32])"
    by code_simp
  then show ?thesis using low_codes [OF assms] unfolding list_all_iff by blast
qed

definition escaped :: "u8 \<Rightarrow> nat" where
  "escaped c = of_bool (short_escape c \<noteq> None \<or> c < 32)"

lemma escape_cases:
  obtains (plain) "escape c = [c]" "c \<noteq> 0x22" "c \<noteq> 0x5C" "escaped c = 0"
  | (short) e where "escape c = [0x5C, e]" "simple_escape e = Some c" "e \<noteq> 0x75" "escaped c = 1"
  | (long) a b where "escape c = [0x5C, 0x75, 0x30, 0x30, a, b]" "a \<notin> {0x22, 0x5C}" "b \<notin> {0x22, 0x5C}"
      "hex_value [0x30, 0x30, a, b] = Some (unat c)" "utf8_spec (unat c) = [c]" "unat c < 32" "escaped c = 1"
proof -
  consider "short_escape c = None" "\<not> c < 32" | e where "short_escape c = Some e" | "short_escape c = None" "c < 32"
    by fastforce
  then show thesis
  proof cases
    case 1
    then show thesis by (intro plain) (auto simp: escape_def escaped_def short_escape_def split: if_splits)
  next
    case 2
    then show thesis by (intro short [of e]) (auto simp: escape_def escaped_def short_escape_def simple_escape_def split: if_splits)
  next
    case 3
    then show thesis using low_code_digits [OF 3(2)]
      by (intro long [of "hex_char (drop_bit 4 c)" "hex_char (c AND 15)"])
        (auto simp: escape_def escaped_def word_less_nat_alt)
  qed
qed


text \<open>The two passes over the literal.\<close>

lemma segment_step: "segment m p e = c # r \<Longrightarrow> e \<le> length m \<Longrightarrow> p < e \<and> byte_at m p = Inr c \<and> segment m (Suc p) e = r"
  by (cases "p < e") (simp_all add: segment_Cons)

lemma segment_skip: "segment m p e = s @ r \<Longrightarrow> segment m (p + length s) e = r"
  by (metis append_eq_conv_conj drop_segment)

lemma scan_plain:
  "segment m p len = s @ r \<Longrightarrow> len \<le> length m \<Longrightarrow> 0x22 \<notin> set s \<Longrightarrow> 0x5C \<notin> set s \<Longrightarrow>
     scan_string m len p k = scan_string m len (p + length s) k"
proof (induction s arbitrary: p)
  case (Cons c s)
  then have "p < len" "byte_at m p = Inr c" "segment m (Suc p) len = s @ r" using segment_step [of m p len c "s @ r"] by auto
  then show ?case using Cons.IH [of "Suc p"] Cons.prems by (subst scan_string.simps) (simp del: byte_at_Inr)
qed simp

lemma scan_escape:
  assumes "segment m p len = escape c @ r" "r \<noteq> []" "len \<le> length m"
  shows "scan_string m len p k = scan_string m len (p + length (escape c)) (k + escaped c)"
proof (cases rule: escape_cases [of c])
  case plain
  then show ?thesis using scan_plain [of m p len "[c]" r k] assms by simp
next
  case (short e)
  then have "p < len" "byte_at m p = Inr 0x5C" "segment m (Suc p) len = e # r"
    using segment_step [of m p len "0x5C" "e # r"] assms by auto
  then have "Suc p < len" using segment_step [of m "Suc p" len e r] assms by simp
  then show ?thesis using short \<open>p < len\<close> \<open>byte_at m p = Inr 0x5C\<close> by (subst scan_string.simps) (simp del: byte_at_Inr)
next
  case (long a b)
  then have a: "p < len" "byte_at m p = Inr 0x5C" "segment m (Suc p) len = [0x75, 0x30, 0x30, a, b] @ r"
    using segment_step [of m p len "0x5C" "[0x75, 0x30, 0x30, a, b] @ r"] assms by auto
  then have b: "Suc p < len" "segment m (p + 2) len = [0x30, 0x30, a, b] @ r"
    using segment_step [of m "Suc p" len "0x75" "[0x30, 0x30, a, b] @ r"] assms by auto
  have "scan_string m len p k = scan_string m len (p + 2) (Suc k)"
    using a b by (subst scan_string.simps) (simp del: byte_at_Inr)
  also have "\<dots> = scan_string m len (p + 2 + length [0x30, 0x30, a, b]) (Suc k)"
    by (rule scan_plain [OF b(2) assms(3)]) (use long in auto)
  also have "p + 2 + length [0x30, 0x30, a, b] = p + length (escape c)" using long by simp
  finally show ?thesis using long by simp
qed

lemma scan_escapes:
  "segment m p len = concat (map escape cs) @ 0x22 # r \<Longrightarrow> len \<le> length m \<Longrightarrow>
     scan_string m len p k = Inr (Some (p + length (concat (map escape cs)), k + sum_list (map escaped cs)))"
proof (induction cs arbitrary: p k)
  case Nil
  then have "p < len" "byte_at m p = Inr 0x22" using segment_step [of m p len "0x22" r] by auto
  then show ?case by (subst scan_string.simps) (simp del: byte_at_Inr)
next
  case (Cons c cs)
  have s: "segment m p len = escape c @ (concat (map escape cs) @ 0x22 # r)" using Cons.prems(1) by simp
  have "scan_string m len p k = scan_string m len (p + length (escape c)) (k + escaped c)"
    by (rule scan_escape [OF s _ Cons.prems(2)]) simp
  then show ?case using Cons.IH [OF segment_skip [OF s] Cons.prems(2)] by (simp add: add.assoc)
qed

lemma unescape_escape:
  assumes "segment m p e = escape c @ r" "e \<le> length m" "length out < cap"
  shows "unescape m e cap p out = unescape m e cap (p + length (escape c)) (out @ [c])"
proof (cases rule: escape_cases [of c])
  case plain
  then have "p < e" "byte_at m p = Inr c" using segment_step [of m p e c r] assms by auto
  then show ?thesis using plain assms(3) by (subst unescape.simps) (simp add: put_bytes_def del: byte_at_Inr put_bytes_Inr)
next
  case (short x)
  then have a: "p < e" "byte_at m p = Inr 0x5C" "segment m (Suc p) e = x # r"
    using segment_step [of m p e "0x5C" "x # r"] assms by auto
  then have "byte_at m (Suc p) = Inr x" using segment_step [of m "Suc p" e x r] assms by simp
  then show ?thesis using short a assms(3) by (subst unescape.simps) (simp add: put_bytes_def del: byte_at_Inr put_bytes_Inr)
next
  case (long a b)
  then have a: "p < e" "byte_at m p = Inr 0x5C" "segment m (Suc p) e = 0x75 # [0x30, 0x30, a, b] @ r"
    using segment_step [of m p e "0x5C" "0x75 # [0x30, 0x30, a, b] @ r"] assms by auto
  then have b: "byte_at m (Suc p) = Inr 0x75" "segment m (p + 2) e = [0x30, 0x30, a, b] @ r"
    using segment_step [of m "Suc p" e "0x75" "[0x30, 0x30, a, b] @ r"] assms by auto
  have "length (segment m p e) = e - p" by (rule length_segment [OF assms(2)])
  then have e: "p + 6 \<le> e" using assms(1) long by simp
  have "segment m (p + 2) (p + 6) = take 4 (segment m (p + 2) e)"
    using e by (simp add: segment_def drop_take min_def)
  then have "hex_value (segment m (p + 2) (p + 6)) = Some (unat c)" using b long by simp
  then have "utf16_literal_to_utf8 m p e = Inr (6, [c])"
    using utf16_escape(1) [OF assms(2) e, of "unat c"] long by simp
  then have "unescape m e cap p out = unescape m e cap (p + 6) (out @ [c])"
    using a b assms(3) by (subst unescape.simps) (simp add: put_bytes_def del: byte_at_Inr put_bytes_Inr)
  moreover have "p + length (escape c) = p + 6" using long by simp
  ultimately show ?thesis by simp
qed

lemma unescape_escapes:
  "segment m p e = concat (map escape cs) \<Longrightarrow> e \<le> length m \<Longrightarrow> length out + length cs < cap \<Longrightarrow>
     \<exists>p'. unescape m e cap p out = Inr (p', Some (out @ cs))"
proof (induction cs arbitrary: p out)
  case Nil
  then have "\<not> p < e" using length_segment [of e m p] by auto
  then show ?case by (subst unescape.simps) simp
next
  case (Cons c cs)
  have s: "segment m p e = escape c @ concat (map escape cs)" using Cons.prems(1) by simp
  have "unescape m e cap p out = unescape m e cap (p + length (escape c)) (out @ [c])"
    by (rule unescape_escape [OF s]) (use Cons.prems in simp_all)
  then show ?case using Cons.IH [OF segment_skip [OF s], of "out @ [c]"] Cons.prems by simp
qed

lemma length_escapes_ge: "length cs + sum_list (map escaped cs) \<le> length (concat (map escape cs))"
proof (induction cs)
  case (Cons c cs)
  have "1 + escaped c \<le> length (escape c)" by (cases rule: escape_cases [of c]) simp_all
  then show ?case using Cons by simp
qed simp

lemma parse_string_reads:
  assumes "wf_buffer b" "granted (b_heap b)" "rest b = [0x22] @ concat (map escape cs) @ [0x22] @ r"
  shows "\<exists>b'. parse_string f b = Inr (True, f\<lparr>i_type := cJSON_String, i_valuestring := Some (cs @ [0])\<rparr>, b') \<and>
    consumed (length ([0x22] @ concat (map escape cs) @ [0x22])) b b'"
proof -
  let ?E = "concat (map escape cs)" and ?m = "b_content b" and ?p = "b_offset b + 1"
  let ?e = "?p + length ?E" and ?k = "sum_list (map escaped cs)"
  have len: "b_length b \<le> length ?m" using assms(1) by (simp add: wf_buffer_def)
  have r: "segment ?m (b_offset b) (b_length b) = 0x22 # (?E @ 0x22 # r)" using assms(3) by (simp add: rest_def)
  then have q: "buffer_byte b 0 = Inr 0x22" "segment ?m ?p (b_length b) = ?E @ 0x22 # r"
    using segment_step [OF r len] by (simp_all add: buffer_byte_def)
  have scan: "scan_string ?m (b_length b) ?p 0 = Inr (Some (?e, ?k))"
    using scan_escapes [OF q(2) len, of 0] by simp
  have "length (segment ?m ?p (b_length b)) = b_length b - ?p" by (rule length_segment [OF len])
  then have e: "?e < b_length b" using q(2) by simp
  have "segment ?m ?p ?e = take (length ?E) (segment ?m ?p (b_length b))"
    using e by (simp add: segment_def drop_take min_def)
  then have seg: "segment ?m ?p ?e = ?E" using q(2) by simp
  have "length cs < ?e - b_offset b - ?k + 1" using length_escapes_ge [of cs] by simp
  then obtain p' where u: "unescape ?m ?e (?e - b_offset b - ?k + 1) ?p [] = Inr (p', Some cs)"
    using unescape_escapes [OF seg, of "[]" "?e - b_offset b - ?k + 1"] e len by auto
  have "put_bytes (?e - b_offset b - ?k + 1) cs [0] = Inr (cs @ [0])"
    using length_escapes_ge [of cs] by (simp add: put_bytes_def)
  then have "parse_string f b = Inr (True, f\<lparr>i_type := cJSON_String, i_valuestring := Some (cs @ [0])\<rparr>,
      b\<lparr>b_offset := ?e + 1, b_heap := (b_heap b)\<lparr>h_calls := Suc (h_calls (b_heap b)), h_live := h_live (b_heap b) + 1\<rparr>\<rparr>)"
    using q(1) scan u by (simp add: parse_string_def granted_allocate [OF assms(2)] Let_def del: put_bytes_Inr)
  then show ?thesis using assms(2) by (simp add: consumed_def)
qed


subsection \<open>Numbers\<close>

definition numeral_text :: "u8 list \<Rightarrow> bool" where
  "numeral_text s \<longleftrightarrow> (\<exists>sg ds fr ex. s = sg @ ds @ fr @ ex \<and> (sg = [] \<or> sg = [0x2D]) \<and>
     ds \<noteq> [] \<and> list_all digit ds \<and> (fr = [] \<or> (\<exists>gs. fr = 0x2E # gs \<and> list_all digit gs)) \<and>
     (ex = [] \<or> (\<exists>sn es. ex = [0x65, sn] @ es \<and> sn \<in> {0x2B, 0x2D} \<and> es \<noteq> [] \<and> list_all digit es)))"

lemma digit_facts: "\<not> digit 0x2E" "\<not> digit 0x65" "\<not> digit 0x45" "\<not> digit 0x2D" "\<not> digit 0x2B"
  by (simp_all add: digit_def)

lemma span_digits:
  "list_all digit ds \<Longrightarrow> s = [] \<or> \<not> digit (hd s) \<Longrightarrow> takeWhile digit (ds @ s) = ds \<and> dropWhile digit (ds @ s) = s"
  by (induction ds) (cases s, simp_all)+

lemma split_sign_digit: "ds \<noteq> [] \<Longrightarrow> list_all digit ds \<Longrightarrow> split_sign (ds @ s) = (False, ds @ s)"
  by (cases ds) (auto simp: split_sign_def digit_facts)

lemma split_exponent_text:
  assumes "ex = [] \<or> (\<exists>sn es. ex = [0x65, sn] @ es \<and> sn \<in> {0x2B, 0x2D} \<and> es \<noteq> [] \<and> list_all digit es)"
  shows "snd (split_exponent ex) = []"
proof (cases "ex = []")
  case False
  then obtain sn es where e: "ex = 0x65 # sn # es" "sn = 0x2B \<or> sn = 0x2D" "es \<noteq> []" "list_all digit es"
    using assms by auto
  have "takeWhile digit es \<noteq> []" using e(3,4) by (cases es) simp_all
  moreover have "dropWhile digit es = []" using e(4) by (simp add: list_all_iff)
  ultimately show ?thesis using e(1,2) by (auto simp: split_exponent_def split_sign_def Let_def)
qed (simp add: split_exponent_def)

lemma strtod_numeral:
  assumes "numeral_text s"
  shows "snd (strtod s) = length s" "s \<noteq> []"
proof -
  obtain sg ds fr ex where s: "s = sg @ ds @ fr @ ex" "sg = [] \<or> sg = [0x2D]" "ds \<noteq> []" "list_all digit ds"
    "fr = [] \<or> (\<exists>gs. fr = 0x2E # gs \<and> list_all digit gs)"
    "ex = [] \<or> (\<exists>sn es. ex = [0x65, sn] @ es \<and> sn \<in> {0x2B, 0x2D} \<and> es \<noteq> [] \<and> list_all digit es)"
    using assms unfolding numeral_text_def by blast
  show "s \<noteq> []" using s by simp
  obtain neg where sign: "split_sign s = (neg, ds @ fr @ ex)"
  proof (cases "sg = []")
    case True
    then show thesis using that [of False] s(1) split_sign_digit [OF s(3,4), of "fr @ ex"] by simp
  next
    case False
    then show thesis using that s(1,2) by (auto simp: split_sign_def)
  qed
  have head: "fr @ ex = [] \<or> \<not> digit (hd (fr @ ex))" "ex = [] \<or> \<not> digit (hd ex)"
    using s(5,6) by (auto simp: digit_facts)
  note whole = span_digits [OF s(4) head(1)]
  obtain ff where frac: "(case fr @ ex of c # cs \<Rightarrow> if c = 0x2E then (takeWhile digit cs, dropWhile digit cs) else ([], fr @ ex)
      | [] \<Rightarrow> ([], [])) = (ff, ex)"
  proof (cases "fr = []")
    case True
    then show thesis using s(6) that [of "[]"] by auto
  next
    case False
    then obtain gs where "fr = 0x2E # gs" "list_all digit gs" using s(5) by blast
    then show thesis using span_digits [of gs ex] head(2) that [of gs] by simp
  qed
  have "strtod s = (let (x, s4) = split_exponent ex in
      (decimal_double neg (digits_value (ds @ ff)) (x - int (length ff)), length s - length s4))"
    using s(3) by (simp only: strtod_def sign Let_def prod.case whole frac) simp
  then show "snd (strtod s) = length s"
    using split_exponent_text [OF s(6)] by (simp add: split_def)
qed

lemma list_all_decimal: "list_all digit (decimal n)"
  using decimal_digits by (auto simp: list_all_iff)

lemma list_all_strip: "list_all digit ds \<Longrightarrow> list_all digit (strip_zeros ds)"
  using set_strip_zeros by (fastforce simp: list_all_iff)

lemma numeral_textI:
  assumes "ds \<noteq> []" "list_all digit ds" "list_all digit gs" "ex = [] \<or> ex = exponent_text x"
  shows "numeral_text ((if s then [0x2D] else []) @ with_fraction ds gs @ ex)"
proof -
  have "ex = [] \<or> (\<exists>sn es. ex = [0x65, sn] @ es \<and> sn \<in> {0x2B, 0x2D} \<and> es \<noteq> [] \<and> list_all digit es)"
  proof (cases "ex = []")
    case False
    let ?ds = "decimal (nat \<bar>x\<bar>)"
    let ?es = "if length ?ds < 2 then 0x30 # ?ds else ?ds"
    have "list_all digit ?es" using list_all_decimal [of "nat \<bar>x\<bar>"] by (simp add: digit_def)
    moreover have "ex = [0x65, if x < 0 then 0x2D else 0x2B] @ ?es"
      using assms(4) False by (simp add: exponent_text_def Let_def)
    moreover have "?es \<noteq> []" "(if x < 0 then 0x2D else 0x2B) \<in> {0x2B, 0x2D :: u8}" by simp_all
    ultimately show ?thesis by blast
  qed simp
  then show ?thesis
    unfolding numeral_text_def with_fraction_def using assms(1-3)
    by (intro exI [of _ "if s then [0x2D] else []"] exI [of _ ds] exI [of _ "if gs = [] then [] else 0x2E # gs"] exI [of _ ex]) auto
qed

lemma numeral_format_d: "numeral_text (format_d k)"
  using numeral_textI [of "decimal (nat \<bar>k\<bar>)" "[]" "[]" 0 "k < 0"] list_all_decimal
  by (auto simp: format_d_def with_fraction_def)

lemma numeral_format_g: "numeral_text (format_g prec (Fin s m e))"
proof (cases "m = 0")
  case True
  then show ?thesis using numeral_textI [of "[0x30]" "[]" "[]" 0 s] by (simp add: format_g_def with_fraction_def digit_def)
next
  case False
  obtain q x where r: "significant prec (m * 2 ^ nat e) (2 ^ nat (- e)) = (q, x)" by fastforce
  have d: "list_all digit (take k (decimal q))" "list_all digit (drop k (decimal q))" for k
    using list_all_decimal [of q] by (auto simp: list_all_iff dest: in_set_takeD in_set_dropD)
  have z: "list_all digit (replicate k 0x30)" for k by (simp add: list_all_iff digit_def)
  have "numeral_text ((if s then [0x2D] else []) @ digits_text prec q x)"
  proof (cases "x < - 4 \<or> int prec \<le> x")
    case True
    then show ?thesis using numeral_textI [of "take 1 (decimal q)" "strip_zeros (drop 1 (decimal q))" "exponent_text x" x s] d [of 1]
      by (simp add: digits_text_def Let_def list_all_strip)
  next
    case False
    then show ?thesis
      using numeral_textI [of "take (nat x + 1) (decimal q)" "strip_zeros (drop (nat x + 1) (decimal q))" "[]" 0 s] d [of "nat x + 1"]
        numeral_textI [of "[0x30]" "replicate (nat (- x) - 1) 0x30 @ strip_zeros (decimal q)" "[]" 0 s] list_all_decimal [of q] z
      by (simp add: digits_text_def Let_def list_all_strip digit_def)
  qed
  then show ?thesis using False r by (simp add: format_g_def)
qed

lemma numeral_number_text: "finite_double (i_valuedouble f) \<Longrightarrow> numeral_text (number_text f)"
  using numeral_format_d numeral_format_g by (auto simp: number_text_def finite_double_def Let_def split: prod.split)

lemma numeral_bytes: "numeral_text s \<Longrightarrow> c \<in> set s \<Longrightarrow> number_byte c \<or> c = 0x2E"
  unfolding numeral_text_def by (auto simp: number_byte_def list_all_iff)

lemma numeral_head: "numeral_text s \<Longrightarrow> \<exists>c cs. s = c # cs \<and> (c = 0x2D \<or> digit c)"
  unfolding numeral_text_def by (auto simp: list_all_iff neq_Nil_conv)

lemma number_span_reads:
  assumes "wf_buffer b" "drop i (rest b) = s @ c # r" "\<forall>x \<in> set s. number_byte x \<or> x = 0x2E" "\<not> number_byte c" "c \<noteq> 0x2E"
  shows "\<exists>p. number_span b i pt = Inr (i + length s, p)"
  using assms(2,3)
proof (induction s arbitrary: i pt)
  case Nil
  then have "drop i (rest b) \<noteq> []" "rest b ! i = c" by (simp_all add: nth_via_drop)
  then have "i < length (rest b)" by simp
  then have "can_access_at_index b i" "buffer_byte b i = Inr c"
    using \<open>rest b ! i = c\<close> can_access_rest [OF assms(1)] nth_rest [OF assms(1)] by auto
  then show ?case using assms(4,5) by (subst number_span.simps) simp
next
  case (Cons x s)
  then have "drop i (rest b) \<noteq> []" "rest b ! i = x" by (simp_all add: nth_via_drop)
  then have "i < length (rest b)" by simp
  then have x: "can_access_at_index b i" "buffer_byte b i = Inr x"
    using \<open>rest b ! i = x\<close> can_access_rest [OF assms(1)] nth_rest [OF assms(1)] by auto
  have "drop (Suc i) (rest b) = s @ c # r" using Cons.prems(1) by (metis append_Cons drop_Suc_Cons drop_drop drop0 plus_1_eq_Suc)
  from Cons.IH [OF this] have "\<exists>p. number_span b (Suc i) q = Inr (Suc i + length s, p)" for q using Cons.prems(2) by simp
  then show ?case using x Cons.prems(2) by (subst number_span.simps) auto
qed

lemma parse_number_reads:
  assumes "wf_buffer b" "granted (b_heap b)" "numeral_text s" "rest b = s @ c # r" "\<not> number_byte c" "c \<noteq> 0x2E"
  shows "\<exists>b'. parse_number f b = Inr (True,
      f\<lparr>i_valuedouble := fst (strtod s), i_valueint := saturate (fst (strtod s)), i_type := cJSON_Number\<rparr>, b') \<and>
    consumed (length s) b b'"
proof -
  obtain p where p: "number_span b 0 False = Inr (length s, p)"
    using number_span_reads [OF assms(1), of 0 s c r False] assms(4-6) numeral_bytes [OF assms(3)] by auto
  have "take (length s) (rest b) = s" using assms(4) by simp
  then have t: "take (length s) (drop (b_offset b) (b_content b)) = s"
    using length_rest [OF assms(1)] assms(4) by (auto simp: rest_def segment_def drop_take min_def dest: arg_cong [of _ _ length] split: if_splits)
  then have "length s \<le> length (drop (b_offset b) (b_content b))" by (metis length_take min.cobounded1 nat_le_linear take_all)
  then have m: "memcpy (replicate (length s + 1) 0) 0 (drop (b_offset b) (b_content b)) (length s) = Inr (s @ [0])"
    using t by (simp add: memcpy_def flip: replicate_append_same)
  have pt: "map (\<lambda>c. if c = 0x2E then get_decimal_point else c) s = s"
    by (rule map_idI) (simp add: get_decimal_point_def)
  let ?h = "(b_heap b)\<lparr>h_calls := Suc (h_calls (b_heap b)), h_live := h_live (b_heap b) + 1\<rparr>"
  have "parse_number f b = Inr (True, f\<lparr>i_valuedouble := fst (strtod s), i_valueint := saturate (fst (strtod s)),
      i_type := cJSON_Number\<rparr>, advance (length s) (b\<lparr>b_heap := deallocate ?h\<rparr>))"
    using p m strtod_numeral [OF assms(3)] pt by (simp add: parse_number_def granted_allocate [OF assms(2)] Let_def split_def)
  then show ?thesis using assms(2) by (simp add: consumed_def)
qed

subsection \<open>Trees read back\<close>

text \<open>
  The tree that reading the text of a tree gives, on an item that already has a name: numbers are what
  \<open>strtod\<close> makes of their text, and a number that is not finite has become \<open>null\<close>.
\<close>

definition key_item :: "cJSON \<Rightarrow> item" where
  "key_item c = zero_item\<lparr>i_type := cJSON_String, i_string := Some (cstr (the (i_string (item_of c))) @ [0])\<rparr>"

fun reread :: "item \<Rightarrow> cJSON \<Rightarrow> cJSON" where
  "reread f (Item g cs) =
     (let t = i_type g in
      if t = cJSON_False then Item (f\<lparr>i_type := cJSON_False\<rparr>) []
      else if t = cJSON_True then Item (f\<lparr>i_type := cJSON_True, i_valueint := 1\<rparr>) []
      else if t = cJSON_Number \<and> finite_double (i_valuedouble g) then
        (let number = fst (strtod (number_text g)) in
         Item (f\<lparr>i_valuedouble := number, i_valueint := saturate number, i_type := cJSON_Number\<rparr>) [])
      else if t = cJSON_String then
        Item (f\<lparr>i_type := cJSON_String, i_valuestring := Some (cstr (the (i_valuestring g)) @ [0])\<rparr>) []
      else if t = cJSON_Array then Item (f\<lparr>i_type := cJSON_Array\<rparr>) (map (reread zero_item) cs)
      else if t = cJSON_Object then
        Item (f\<lparr>i_type := cJSON_Object\<rparr>) (map (\<lambda>c. reread (key_item c) c) cs)
      else Item (f\<lparr>i_type := cJSON_NULL\<rparr>) [])"

definition boundary :: "u8 \<Rightarrow> bool" where
  "boundary c \<longleftrightarrow> \<not> number_byte c \<and> c \<noteq> 0x2E"

definition reads_back :: "nat \<Rightarrow> cJSON \<Rightarrow> bool" where
  "reads_back n t \<longleftrightarrow> (\<forall>fmt d s f b c r. render fmt d t = Some s \<longrightarrow> wf_buffer b \<longrightarrow> granted (b_heap b) \<longrightarrow>
     rest b = s @ c # r \<longrightarrow> boundary c \<longrightarrow> b_depth b + height t \<le> CJSON_NESTING_LIMIT \<longrightarrow>
     (\<exists>b'. parse_value n f b = Inr (True, reread f t, b') \<and> consumed (length s) b b'))"

lemma reads_backD:
  assumes "reads_back n t" "render fmt d t = Some s" "wf_buffer b" "rest b = s @ c # r" "granted (b_heap b)" "boundary c"
    "b_depth b + height t \<le> CJSON_NESTING_LIMIT"
  obtains b' where "parse_value n f b = Inr (True, reread f t, b')" "consumed (length s) b b'"
  using assms unfolding reads_back_def by blast

lemma boundary_chars: "boundary 0x2C" "boundary 0x5D" "boundary 0x7D" "boundary 0" "boundary 0x0A"
  by (simp_all add: boundary_def number_byte_def digit_def)

lemma boundary_low: "c \<le> 32 \<Longrightarrow> boundary c"
  by (auto simp: boundary_def number_byte_def digit_def word_le_nat_alt)

lemma not_blank: "\<not> (0x22 :: u8) \<le> 32" "\<not> (0x3A :: u8) \<le> 32" "\<not> (0x5D :: u8) \<le> 32" "\<not> (0x7D :: u8) \<le> 32"
  by simp_all

lemma consumed_trans: "consumed j b c \<Longrightarrow> consumed k c d \<Longrightarrow> consumed (j + k) b d"
  by (simp add: consumed_def)

lemma consumed_advance: "granted (b_heap b) \<Longrightarrow> consumed k b (advance k b)"
  by (simp add: consumed_def)

lemma parse_value_literal:
  assumes "wf_buffer b" "granted (b_heap b)"
  shows "rest b = lit ''null'' @ r \<Longrightarrow> parse_value (Suc n) f b = Inr (True, Item (f\<lparr>i_type := cJSON_NULL\<rparr>) [], advance 4 b)"
    and "rest b = lit ''false'' @ r \<Longrightarrow> parse_value (Suc n) f b = Inr (True, Item (f\<lparr>i_type := cJSON_False\<rparr>) [], advance 5 b)"
    and "rest b = lit ''true'' @ r \<Longrightarrow>
      parse_value (Suc n) f b = Inr (True, Item (f\<lparr>i_type := cJSON_True, i_valueint := 1\<rparr>) [], advance 4 b)"
  using reads_rest [OF assms(1), of "lit ''null''"] reads_rest [OF assms(1), of "lit ''false''"] reads_rest [OF assms(1), of "lit ''true''"]
  by (simp_all add: lit_def)

lemma literal_reads:
  assumes "wf_buffer b" "granted (b_heap b)"
  shows "rest b = lit ''null'' @ r \<Longrightarrow>
      \<exists>b'. parse_value (Suc n) f b = Inr (True, Item (f\<lparr>i_type := cJSON_NULL\<rparr>) [], b') \<and> consumed (length (lit ''null'')) b b'" (is "_ \<Longrightarrow> ?thesis1")
    and "rest b = lit ''false'' @ r \<Longrightarrow>
      \<exists>b'. parse_value (Suc n) f b = Inr (True, Item (f\<lparr>i_type := cJSON_False\<rparr>) [], b') \<and> consumed (length (lit ''false'')) b b'" (is "_ \<Longrightarrow> ?thesis2")
    and "rest b = lit ''true'' @ r \<Longrightarrow>
      \<exists>b'. parse_value (Suc n) f b = Inr (True, Item (f\<lparr>i_type := cJSON_True, i_valueint := 1\<rparr>) [], b') \<and>
        consumed (length (lit ''true'')) b b'" (is "_ \<Longrightarrow> ?thesis3")
proof -
  have "length (lit ''null'') = 4" "length (lit ''false'') = 5" "length (lit ''true'') = 4" by (simp_all add: lit_def)
  then show "rest b = lit ''null'' @ r \<Longrightarrow> ?thesis1" "rest b = lit ''false'' @ r \<Longrightarrow> ?thesis2" "rest b = lit ''true'' @ r \<Longrightarrow> ?thesis3"
    using parse_value_literal [OF assms, of r n f] consumed_advance [OF assms(2)] by (metis)+
qed

lemma parse_value_dispatch:
  assumes "wf_buffer b" "rest b = c # r" "c \<notin> {0x6E, 0x66, 0x74}"
  shows "parse_value (Suc n) f b =
    (if c = 0x22 then lift_item (parse_string f b)
     else if c = 0x2D \<or> digit c then lift_item (parse_number f b)
     else if c = 0x5B then parse_array (parse_value n) f b
     else if c = 0x7B then parse_object (parse_value n) f b
     else Inr (False, Item f [], b))"
proof -
  have "reads b (lit ''null'') = Inr False" "reads b (lit ''false'') = Inr False" "reads b (lit ''true'') = Inr False"
    using assms by (simp_all add: reads_rest lit_def)
  then show ?thesis using can_access_rest [OF assms(1), of 0] nth_rest [OF assms(1), of 0] assms(2) by simp
qed

lemma number_text_null: "\<not> finite_double (i_valuedouble f) \<Longrightarrow> number_text f = lit ''null''"
  by (cases "i_valuedouble f") (simp_all add: number_text_def finite_double_def)

text \<open>The first byte of a text is not white space.\<close>

lemma render_head:
  assumes "well_typed t" "render fmt d t = Some s"
  shows "\<exists>c s'. s = c # s' \<and> \<not> c \<le> 32 \<and> c \<notin> {0x5D, 0x7D, 0xEF}"
proof -
  have cat_head: "\<exists>s'. u = c # s'" if "cat (Some (c # v)) w = Some u" for c :: u8 and v w u using that by (cases w) auto
  obtain f cs where t: "t = Item f cs" by (cases t)
  have "\<exists>c s'. number_text f = c # s' \<and> \<not> c \<le> 32 \<and> c \<notin> {0x5D, 0x7D, 0xEF}"
  proof (cases "finite_double (i_valuedouble f)")
    case True
    then obtain c cs where c: "number_text f = c # cs" "c = 0x2D \<or> digit c" using numeral_head [OF numeral_number_text] by blast
    then have "0x2D \<le> c \<and> c \<le> 0x39" by (auto simp: digit_def word_le_nat_alt)
    then show ?thesis using c(1) by (auto simp: word_le_nat_alt)
  next
    case False
    then have "number_text f = lit ''null''" by (rule number_text_null)
    then show ?thesis by (simp add: lit_def)
  qed
  then show ?thesis using assms cat_head
    by (auto simp: t lit_def render_string_def open_object_def split: if_splits dest!: cat_head)
qed

text \<open>The loop over the elements of an array, from the byte in front of an element on.\<close>

lemma array_loop_reads:
  assumes "\<forall>t \<in> set ts. reads_back n t \<and> well_typed t \<and> b_depth b + height t \<le> CJSON_NESTING_LIMIT"
    and "render_elements fmt d ts = Some s" "ts \<noteq> []" "length ts \<le> k"
    and "wf_buffer b" "granted (b_heap b)" "rest b = x # ws @ s @ 0x5D # r" "\<forall>w \<in> set ws. w \<le> 32"
  shows "\<exists>b'. array_loop (parse_value n) k head b = Inr (True, head @ map (reread zero_item) ts, b') \<and>
    consumed (1 + length ws + length s) b b'"
  using assms
proof (induction ts arbitrary: s k b x ws head)
  case (Cons t ts)
  obtain j where k: "k = Suc j" using Cons.prems(4) by (cases k) auto
  obtain h where h: "cJSON_New_Item (b_heap b) = (Some zero_item, h)" "granted h"
    using granted_new_item [OF Cons.prems(6)] by blast
  obtain v s' where v: "render fmt d t = Some v" "render_elements fmt d ts = Some s'"
    "s = v @ (if ts = [] then [] else separator fmt) @ s'"
    using Cons.prems(2) by (auto simp: cat_def map_option_case split: option.splits if_splits)
  obtain c v' where c: "v = c # v'" "\<not> c \<le> 32" using render_head [OF _ v(1)] Cons.prems(1) by auto
  let ?b0 = "b\<lparr>b_heap := h\<rparr>"
  let ?b1 = "advance (1 + length ws) ?b0"
  define y where "y = hd ((if ts = [] then [] else separator fmt) @ s' @ 0x5D # r)"
  define z where "z = tl ((if ts = [] then [] else separator fmt) @ s' @ 0x5D # r)"
  have yz: "(if ts = [] then [] else separator fmt) @ s' @ 0x5D # r = y # z"
    by (cases "ts = []"; cases s'; cases fmt) (simp_all add: y_def z_def separator_def)
  have y: "y = (if ts = [] then 0x5D else 0x2C)" using v(2) by (auto simp: y_def separator_def)
  have wf1: "wf_buffer ?b1" using Cons.prems(5) by simp
  have "rest (advance 1 ?b0) = ws @ c # (v' @ y # z)" using Cons.prems(7) v(3) c(1) yz by simp
  then have skip1: "buffer_skip_whitespace (advance 1 ?b0) = Inr ?b1"
    using skip_rest [of "advance 1 ?b0" ws c] Cons.prems(5,8) c(2) by (simp add: add.commute)
  have rest1: "rest ?b1 = v @ y # z" using Cons.prems(7) v(3) yz by simp
  have rb: "reads_back n t" "boundary y" "granted (b_heap ?b1)" "b_depth ?b1 + height t \<le> CJSON_NESTING_LIMIT"
    using Cons.prems(1) boundary_chars y h(2) by simp_all
  obtain b2 where b2: "parse_value n zero_item ?b1 = Inr (True, reread zero_item t, b2)" "consumed (length v) ?b1 b2"
    by (rule reads_backD [OF rb(1) v(1) wf1 rest1 rb(3,2,4)])
  have rest2: "rest b2 = y # z" unfolding consumed_rest [OF b2(2)] rest1 by simp
  have wf2: "wf_buffer b2" using consumed_wf [OF b2(2)] wf1 by simp
  have "\<not> y \<le> 32" using y by (simp split: if_split)
  then have skip2: "buffer_skip_whitespace b2 = Inr b2" using skip_rest [OF wf2, of "[]" y z] rest2 by simp
  have total: "consumed (1 + length ws + length v) b b2"
    using b2(2) by (simp add: consumed_def add.assoc)
  show ?case
  proof (cases "ts = []")
    case True
    then have "array_loop (parse_value n) k head b = Inr (True, head @ [reread zero_item t], b2)"
      using h(1) skip1 b2(1) skip2 sees_rest [OF wf2 rest2] y by (simp add: k array_loop.simps(2) del: advance_simps(6))
    then show ?thesis using True total v by simp
  next
    case False
    have "separator fmt = 0x2C # tl (separator fmt)" "\<forall>w \<in> set (tl (separator fmt)). w \<le> 32"
      by (simp_all add: separator_def)
    moreover from this(1) have "z = tl (separator fmt) @ s' @ 0x5D # r" using False by (simp add: z_def separator_def)
    ultimately obtain b3 where b3: "array_loop (parse_value n) j (head @ [reread zero_item t]) b2 =
        Inr (True, (head @ [reread zero_item t]) @ map (reread zero_item) ts, b3)"
      "consumed (1 + length (tl (separator fmt)) + length s') b2 b3"
      using Cons.IH [of b2 s' j y "tl (separator fmt)" "head @ [reread zero_item t]"] Cons.prems(1,4) v(2) False wf2 rest2 b2(2) k
      by (auto simp: consumed_def)
    have "array_loop (parse_value n) k head b = array_loop (parse_value n) j (head @ [reread zero_item t]) b2"
      using h(1) skip1 b2(1) skip2 sees_rest [OF wf2 rest2] y False by (simp add: k array_loop.simps(2) del: advance_simps(6))
    moreover have "1 + length (tl (separator fmt)) = length (separator fmt)" by (simp add: separator_def)
    ultimately show ?thesis using b3 consumed_trans [OF total b3(2)] v(3) False by (simp add: add.assoc)
  qed
qed simp

text \<open>The loop over the members of an object. The indentation in front of the first may be gone already.\<close>

lemma object_loop_reads:
  assumes "\<forall>t \<in> set ts. reads_back n t \<and> well_typed t \<and> named t \<and> b_depth b + height t \<le> CJSON_NESTING_LIMIT"
    and "render_members fmt d ts = Some ((if fmt then replicate d 0x09 else []) @ s)" "ts \<noteq> []" "length ts \<le> k"
    and "wf_buffer b" "granted (b_heap b)" "rest b = x # ws @ s @ we @ 0x7D # r" "\<forall>w \<in> set (ws @ we). w \<le> 32"
  shows "\<exists>b'. object_loop (parse_value n) k head b = Inr (True, head @ map (\<lambda>c. reread (key_item c) c) ts, b') \<and>
    consumed (1 + length ws + length s + length we) b b'"
  using assms
proof (induction ts arbitrary: s k b x ws head)
  case (Cons t ts)
  obtain j where k: "k = Suc j" using Cons.prems(4) by (cases k) auto
  obtain h where h: "cJSON_New_Item (b_heap b) = (Some zero_item, h)" "granted h"
    using granted_new_item [OF Cons.prems(6)] by blast
  obtain key where key: "i_string (item_of t) = Some key" "0 \<in> set key" using Cons.prems(1) by (auto simp: named_def)
  let ?E = "concat (map escape (cstr key))"
  let ?in = "if fmt then replicate d 0x09 else [] :: u8 list"
  obtain v m' where v: "render fmt d t = Some v" "render_members fmt d ts = Some m'"
    "s = (0x22 # ?E @ [0x22]) @ colon fmt @ v @ member_end fmt (ts \<noteq> []) @ m'"
    using Cons.prems(2) key(1) by (auto simp: cat_def map_option_case render_string_def split: option.splits)
  obtain c v' where c: "v = c # v'" "\<not> c \<le> 32" using render_head [OF _ v(1)] Cons.prems(1) by auto
  let ?kt = "key_item t"
  define w where "w = member_end fmt (ts \<noteq> []) @ m' @ we @ 0x7D # r"
  define lead where "lead = (if ts = [] then member_end fmt False @ we else [])"
  define y where "y = (if ts = [] then 0x7D else 0x2C :: u8)"
  define z where "z = (if ts = [] then r else (if fmt then [0x0A] else []) @ m' @ we @ 0x7D # r)"
  have m': "m' = []" if "ts = []" using v(2) that by simp
  have w: "w = lead @ y # z" using m' by (auto simp: w_def lead_def y_def z_def member_end_def)
  have lead: "\<forall>w \<in> set lead. w \<le> 32" "\<not> y \<le> 32" using Cons.prems(8) by (auto simp: lead_def member_end_def y_def)
  obtain q u where qu: "w = q # u" using w by (cases lead) auto
  have q: "boundary q"
    using lead(1) boundary_low [of q] boundary_chars w qu by (cases lead) (auto simp: y_def split: if_splits)
  let ?b0 = "b\<lparr>b_heap := h\<rparr>"
  let ?b1 = "advance (1 + length ws) ?b0"
  have wf1: "wf_buffer ?b0" "wf_buffer ?b1" using Cons.prems(5) by simp_all
  have rest0: "rest ?b0 = x # ws @ 0x22 # ?E @ 0x22 # colon fmt @ v @ w" using Cons.prems(7) v(3) by (simp add: w_def)
  have acc: "can_access_at_index ?b0 1" unfolding can_access_rest [OF wf1(1)] rest0 by simp
  have "rest (advance 1 ?b0) = ws @ 0x22 # (?E @ 0x22 # colon fmt @ v @ w)" by (simp only: rest_simps(1) rest0) simp
  then have skip1: "buffer_skip_whitespace (advance 1 ?b0) = Inr ?b1"
    using skip_rest [OF _ _ _ not_blank(1), of "advance 1 ?b0" ws] Cons.prems(5,8) by (simp add: add.commute)
  have rest1: "rest ?b1 = [0x22] @ ?E @ [0x22] @ colon fmt @ v @ w" by (simp only: rest_simps(1) rest0) simp
  have g1: "granted (b_heap ?b1)" using h(2) by simp
  obtain b2 where b2: "parse_string zero_item ?b1 =
      Inr (True, zero_item\<lparr>i_type := cJSON_String, i_valuestring := Some (cstr key @ [0])\<rparr>, b2)"
    "consumed (length ([0x22] @ ?E @ [0x22])) ?b1 b2"
    using parse_string_reads [OF wf1(2) g1 rest1] by blast
  have rest2: "rest b2 = 0x3A # tl (colon fmt) @ v @ w" unfolding consumed_rest [OF b2(2)] rest1 by (simp add: colon_def)
  have wf2: "wf_buffer b2" using consumed_wf [OF b2(2)] wf1 by simp
  have skip2: "buffer_skip_whitespace b2 = Inr b2" using skip_rest [OF wf2 _ _ not_blank(2), of "[]"] rest2 by simp
  have kt: "(zero_item\<lparr>i_type := cJSON_String, i_valuestring := Some (cstr key @ [0])\<rparr>)
      \<lparr>i_string := Some (cstr key @ [0]), i_valuestring := None\<rparr> = ?kt"
    using key(1) by (simp add: key_item_def zero_item_def)
  let ?b3 = "advance (length (colon fmt)) b2"
  have skip3: "buffer_skip_whitespace (advance 1 b2) = Inr ?b3"
    using skip_rest [of "advance 1 b2" "tl (colon fmt)" c "v' @ w"] wf2 rest2 c by (simp add: colon_def)
  have rest3: "rest ?b3 = v @ q # u" by (simp only: rest_simps(1) rest2) (simp add: colon_def qu)
  have rb: "reads_back n t" "granted (b_heap ?b3)" "b_depth ?b3 + height t \<le> CJSON_NESTING_LIMIT" "wf_buffer ?b3"
    using Cons.prems(1) b2(2) wf2 by (simp_all add: consumed_def)
  obtain b4 where b4: "parse_value n ?kt ?b3 = Inr (True, reread ?kt t, b4)" "consumed (length v) ?b3 b4"
    by (rule reads_backD [OF rb(1) v(1) rb(4) rest3 rb(2) q rb(3)])
  have rest4: "rest b4 = lead @ y # z" unfolding consumed_rest [OF b4(2)] rest3 using w qu by simp
  have wf4: "wf_buffer b4" using consumed_wf [OF b4(2)] wf2 by simp
  let ?b5 = "advance (length lead) b4"
  have skip4: "buffer_skip_whitespace b4 = Inr ?b5" by (rule skip_rest [OF wf4 rest4 lead])
  have rest5: "rest ?b5 = y # z" "wf_buffer ?b5" using rest4 wf4 by simp_all
  have total: "consumed (1 + length ws + (length ?E + 2) + length (colon fmt) + length v + length lead) b ?b5"
    using b2(2) b4(2) by (simp add: consumed_def)
  have step: "object_loop (parse_value n) k head b =
      (if y = 0x2C then object_loop (parse_value n) j (head @ [reread ?kt t]) ?b5
       else Inr (y = 0x7D, head @ [reread ?kt t], ?b5))"
    using h(1) acc skip1 b2(1) skip2 skip3 b4(1) skip4 sees_rest [OF wf2 rest2] sees_rest [OF rest5(2,1)] kt
    by (simp add: k object_loop.simps(2) del: advance_simps(6))
  show ?case
  proof (cases "ts = []")
    case True
    then show ?thesis using step total v(3) m' by (auto simp: y_def lead_def add.assoc)
  next
    case False
    let ?nl = "if fmt then [0x0A] else [] :: u8 list"
    obtain s' where s': "m' = ?in @ s'" using v(2) False by (cases ts) (auto simp: cat_def map_option_case split: option.splits)
    have "rest ?b5 = y # (?nl @ ?in) @ s' @ we @ 0x7D # r" using rest5(1) False s' by (simp add: z_def)
    moreover have "\<forall>w \<in> set ((?nl @ ?in) @ we). w \<le> 32" using Cons.prems(8) by auto
    ultimately obtain b6 where b6: "object_loop (parse_value n) j (head @ [reread ?kt t]) ?b5 =
        Inr (True, (head @ [reread ?kt t]) @ map (\<lambda>c. reread (key_item c) c) ts, b6)"
      "consumed (1 + length (?nl @ ?in) + length s' + length we) ?b5 b6"
      using Cons.IH [of ?b5 s' j y "?nl @ ?in" "head @ [reread ?kt t]"] Cons.prems(1,4) v(2) False rest5(2) total k s'
      by (auto simp: consumed_def)
    have "length s = length ?E + 2 + length (colon fmt) + length v + length (member_end fmt True) + length ?in + length s'"
      using v(3) False s' by simp
    then have "consumed (1 + length ws + length s + length we) b b6"
      using consumed_trans [OF total b6(2)] False by (simp add: lead_def member_end_def add.assoc add.commute add.left_commute)
    then show ?thesis using step b6(1) False by (simp add: y_def)
  qed
qed simp

lemma height_child: "c \<in> set cs \<Longrightarrow> i_type f = cJSON_Array \<or> i_type f = cJSON_Object \<Longrightarrow> height c < height (Item f cs)"
  using fold_max_ge [of "height c" "map height cs" 0] by (auto simp: less_Suc_eq_le)

lemma render_elements_length: "list_all well_typed ts \<Longrightarrow> render_elements fmt d ts = Some s \<Longrightarrow> length ts \<le> length s"
proof (induction ts arbitrary: s)
  case (Cons t ts)
  obtain v s' where v: "render fmt d t = Some v" "render_elements fmt d ts = Some s'"
    "s = v @ (if ts = [] then [] else separator fmt) @ s'"
    using Cons.prems(2) by (auto simp: cat_def map_option_case split: option.splits if_splits)
  then show ?case using Cons render_head [OF _ v(1)] by fastforce
qed simp

lemma render_members_length: "render_members fmt d ts = Some s \<Longrightarrow> length ts \<le> length s"
proof (induction ts arbitrary: s)
  case (Cons t ts)
  then show ?case by (fastforce simp: cat_def map_option_case render_string_def split: option.splits)
qed simp

lemma parse_array_reads:
  assumes "\<forall>t \<in> set ts. reads_back n t \<and> well_typed t \<and> b_depth b + 1 + height t \<le> CJSON_NESTING_LIMIT"
    and "render_elements fmt d ts = Some s" "b_depth b < CJSON_NESTING_LIMIT"
    and "wf_buffer b" "granted (b_heap b)" "rest b = 0x5B # s @ 0x5D # r"
  shows "\<exists>b'. parse_array (parse_value n) f b = Inr (True, Item (f\<lparr>i_type := cJSON_Array\<rparr>) (map (reread zero_item) ts), b') \<and>
    consumed (length s + 2) b b'"
proof -
  let ?b0 = "b\<lparr>b_depth := b_depth b + 1\<rparr>"
  have wf: "wf_buffer ?b0" "wf_buffer (advance 1 ?b0)" using assms(4) by simp_all
  have byte: "buffer_byte ?b0 0 = Inr 0x5B" using nth_rest [OF wf(1), of 0] assms(6) by simp
  have rest1: "rest (advance 1 ?b0) = s @ 0x5D # r" using assms(6) by simp
  have size: "length s < b_length b" using length_rest [OF assms(4)] assms(6) by simp
  show ?thesis
  proof (cases "ts = []")
    case True
    then have s: "s = []" using assms(2) by simp
    have skip: "buffer_skip_whitespace (advance 1 ?b0) = Inr (advance 1 ?b0)"
      using skip_rest [OF wf(2) _ _ not_blank(3), of "[]" r] rest1 s by simp
    have "sees (advance 1 ?b0) 0x5D = Inr True" using sees_rest [OF wf(2), of "0x5D" r] rest1 s by simp
    then have "parse_array (parse_value n) f b =
        Inr (True, Item (f\<lparr>i_type := cJSON_Array\<rparr>) [], advance 1 ((advance 1 ?b0)\<lparr>b_depth := b_depth b\<rparr>))"
      using assms(3) byte skip by (simp add: parse_array_def Let_def del: advance_simps(6))
    then show ?thesis using True s assms(5) by (simp add: consumed_def)
  next
    case False
    obtain c v where c: "s = c # v" "\<not> c \<le> 32" "c \<noteq> 0x5D"
    proof -
      obtain t ts' where ts: "ts = t # ts'" using False by (cases ts) auto
      then obtain u where u: "render fmt d t = Some u" using assms(2) by (cases "render fmt d t") auto
      then obtain c u' where c: "u = c # u'" "\<not> c \<le> 32" "c \<noteq> 0x5D" using render_head [OF _ u] assms(1) ts by auto
      moreover obtain v where "s = c # v"
        using assms(2) ts u c(1) by (auto simp: cat_def map_option_case split: option.splits)
      ultimately show thesis using that by blast
    qed
    have skip: "buffer_skip_whitespace (advance 1 ?b0) = Inr (advance 1 ?b0)"
      using skip_rest [OF wf(2) _ _ c(2), of "[]"] rest1 c(1) by simp
    have look: "sees (advance 1 ?b0) 0x5D = Inr False" "can_access_at_index (advance 1 ?b0) 0"
      using sees_rest [OF wf(2)] can_access_rest [OF wf(2)] rest1 c assms(6) by simp_all
    obtain b1 where b1: "array_loop (parse_value n) (Suc (b_length ?b0)) [] ?b0 = Inr (True, [] @ map (reread zero_item) ts, b1)"
      "consumed (1 + length ([] :: u8 list) + length s) ?b0 b1"
      using array_loop_reads [of ts n ?b0 fmt d s "Suc (b_length ?b0)" "0x5B" "[]" r "[]"] assms False wf size
        render_elements_length [of ts fmt d s]
      by (auto simp: list_all_iff)
    have "parse_array (parse_value n) f b =
        Inr (True, Item (f\<lparr>i_type := cJSON_Array\<rparr>) (map (reread zero_item) ts), advance 1 (b1\<lparr>b_depth := b_depth b1 - 1\<rparr>))"
      using assms(3) byte skip look b1(1) by (simp add: parse_array_def Let_def step_back_advance del: advance_simps(6))
    moreover have "consumed (length s + 2) b (advance 1 (b1\<lparr>b_depth := b_depth b1 - 1\<rparr>))"
      using b1(2) by (simp add: consumed_def)
    ultimately show ?thesis by blast
  qed
qed

lemma parse_object_reads:
  assumes "\<forall>t \<in> set ts. reads_back n t \<and> well_typed t \<and> named t \<and> b_depth b + 1 + height t \<le> CJSON_NESTING_LIMIT"
    and "render_members fmt (d + 1) ts = Some s" "b_depth b < CJSON_NESTING_LIMIT"
    and "wf_buffer b" "granted (b_heap b)" "rest b = open_object fmt @ s @ close_text fmt d @ r"
  shows "\<exists>b'. parse_object (parse_value n) f b = Inr (True, Item (f\<lparr>i_type := cJSON_Object\<rparr>) (map (\<lambda>c. reread (key_item c) c) ts), b') \<and>
    consumed (length (open_object fmt) + length s + length (close_text fmt d)) b b'"
proof -
  let ?b0 = "b\<lparr>b_depth := b_depth b + 1\<rparr>" and ?nl = "if fmt then [0x0A] else [] :: u8 list"
  let ?tabs = "if fmt then replicate d 0x09 else [] :: u8 list" and ?in = "if fmt then replicate (d + 1) 0x09 else [] :: u8 list"
  have wf: "wf_buffer ?b0" "wf_buffer (advance 1 ?b0)" using assms(4) by simp_all
  have texts: "open_object fmt = 0x7B # ?nl" "close_text fmt d = ?tabs @ [0x7D]" by (simp_all add: open_object_def close_text_def)
  have blank: "\<forall>w \<in> set (?nl @ ?tabs). w \<le> 32" "\<forall>w \<in> set (?nl @ ?in). w \<le> 32" "\<forall>w \<in> set ([] @ ?tabs). w \<le> 32"
    by auto
  have rest0: "rest ?b0 = 0x7B # ?nl @ s @ ?tabs @ 0x7D # r" using assms(6) texts by simp
  have opened: "sees ?b0 0x7B = Inr True" using sees_rest [OF wf(1) rest0] by simp
  have rest1: "rest (advance 1 ?b0) = ?nl @ s @ ?tabs @ 0x7D # r" by (simp only: rest_simps(1) rest0) simp
  have size: "length s < b_length b" using length_rest [OF assms(4)] assms(6) texts by simp
  show ?thesis
  proof (cases "ts = []")
    case True
    then have s: "s = []" using assms(2) by simp
    let ?b1 = "advance (1 + length (?nl @ ?tabs)) ?b0"
    have "rest (advance 1 ?b0) = (?nl @ ?tabs) @ 0x7D # r" using rest1 s by simp
    then have skip: "buffer_skip_whitespace (advance 1 ?b0) = Inr ?b1"
      using skip_rest [OF wf(2) _ blank(1) not_blank(4)] by simp
    have "rest ?b1 = 0x7D # r" by (simp only: rest_simps(1) rest0 s) simp
    then have "sees ?b1 0x7D = Inr True" using sees_rest [of ?b1 "0x7D" r] wf by simp
    then have "parse_object (parse_value n) f b =
        Inr (True, Item (f\<lparr>i_type := cJSON_Object\<rparr>) [], advance 1 (?b1\<lparr>b_depth := b_depth b\<rparr>))"
      using assms(3) opened skip by (simp add: parse_object_def Let_def del: advance_simps(6))
    then show ?thesis using True s assms(5) texts by (simp add: consumed_def)
  next
    case False
    obtain k where k: "s = ?in @ k" "\<exists>k'. k = 0x22 # k'"
      using False assms(2) by (cases ts) (auto simp: cat_def map_option_case render_string_def split: option.splits)
    then obtain k' where k': "k = 0x22 # k'" by blast
    define pre where "pre = 0x7B # ?nl @ ?in"
    define x where "x = last pre"
    have "pre \<noteq> []" by (simp add: pre_def)
    then have pre: "pre = butlast pre @ [x]" by (simp add: x_def)
    have len: "length pre = 1 + length (?nl @ ?in)" "length (butlast pre) = length (?nl @ ?in)" by (simp_all add: pre_def)
    let ?b1 = "advance (1 + length (?nl @ ?in)) ?b0" and ?b2 = "advance (length (?nl @ ?in)) ?b0"
    have all: "rest ?b0 = pre @ k @ ?tabs @ 0x7D # r" using rest0 k(1) by (simp add: pre_def)
    have "rest (advance 1 ?b0) = (?nl @ ?in) @ 0x22 # (k' @ ?tabs @ 0x7D # r)" using rest1 k(1) k' by simp
    then have skip: "buffer_skip_whitespace (advance 1 ?b0) = Inr ?b1"
      using skip_rest [OF wf(2) _ blank(2) not_blank(1)] by simp
    have here: "rest ?b1 = 0x22 # k' @ ?tabs @ 0x7D # r"
      unfolding rest_simps(1) all using len(1) k' by simp
    have wf1: "wf_buffer ?b1" using wf(1) by simp
    have look: "sees ?b1 0x7D = Inr False" using sees_rest [OF wf1 here] by simp
    have look': "can_access_at_index ?b1 0" unfolding can_access_rest [OF wf1] here by simp
    have "rest ?b2 = drop (length (butlast pre)) (butlast pre @ x # k @ ?tabs @ 0x7D # r)"
      unfolding rest_simps(1) all len(2) by (subst pre) simp
    then have rest2: "rest ?b2 = x # [] @ k @ ?tabs @ 0x7D # r" by simp
    have pre2: "\<forall>t \<in> set ts. reads_back n t \<and> well_typed t \<and> named t \<and> b_depth ?b2 + height t \<le> CJSON_NESTING_LIMIT"
      using assms(1) by simp
    have "render_members fmt (d + 1) ts = Some (?in @ k)" using assms(2) k(1) by simp
    moreover have "length ts \<le> Suc (b_length ?b0)" using render_members_length [OF assms(2)] size by simp
    moreover have "wf_buffer ?b2" "granted (b_heap ?b2)" using wf assms(5) by simp_all
    ultimately obtain b3 where b3: "object_loop (parse_value n) (Suc (b_length ?b0)) [] ?b2 =
        Inr (True, [] @ map (\<lambda>c. reread (key_item c) c) ts, b3)"
      "consumed (1 + length ([] :: u8 list) + length k + length ?tabs) ?b2 b3"
      using object_loop_reads [OF pre2 _ False _ _ _ rest2 blank(3)] by blast
    have "parse_object (parse_value n) f b =
        Inr (True, Item (f\<lparr>i_type := cJSON_Object\<rparr>) (map (\<lambda>c. reread (key_item c) c) ts), advance 1 (b3\<lparr>b_depth := b_depth b3 - 1\<rparr>))"
      using assms(3) opened skip look look' b3(1) by (simp add: parse_object_def Let_def step_back_advance del: advance_simps(6))
    moreover have "consumed (length (open_object fmt) + length s + length (close_text fmt d)) b (advance 1 (b3\<lparr>b_depth := b_depth b3 - 1\<rparr>))"
      using b3(2) texts k(1) by (simp add: consumed_def)
    ultimately show ?thesis by blast
  qed
qed

lemma consumed_lift:
  "parse_string f b = Inr (ok, g, b') \<Longrightarrow> lift_item (parse_string f b) = Inr (ok, Item g [], b')"
  "parse_number f b = Inr (ok, g, b') \<Longrightarrow> lift_item (parse_number f b) = Inr (ok, Item g [], b')"
  by (simp_all add: lift_item_def)

lemma value_reads: "well_typed t \<Longrightarrow> height t < n \<Longrightarrow> reads_back n t"
proof (induction n arbitrary: t)
  case (Suc n)
  obtain g cs where t: "t = Item g cs" by (cases t)
  let ?ty = "i_type g"
  have mask: "?ty AND 0xFF = ?ty" using well_typed_mask Suc.prems(1) t by blast
  have kids: "\<forall>c \<in> set cs. reads_back n c \<and> height c + 1 \<le> height t"
    if "?ty = cJSON_Array \<or> ?ty = cJSON_Object" "list_all well_typed cs"
  proof
    fix c assume c: "c \<in> set cs"
    then have "well_typed c" "height c < height t" using that height_child [OF c that(1)] t by (simp_all only: list_all_iff)
    then show "reads_back n c \<and> height c + 1 \<le> height t" using Suc.IH [of c] Suc.prems(2) by simp
  qed
  show ?case unfolding reads_back_def
  proof (intro allI impI)
    fix fmt d s f b c r
    assume s: "render fmt d t = Some s" and wf: "wf_buffer b" and g: "granted (b_heap b)"
      and rest: "rest b = s @ c # r" and c: "boundary c" and depth: "b_depth b + height t \<le> CJSON_NESTING_LIMIT"
    let ?goal = "\<exists>b'. parse_value (Suc n) f b = Inr (True, reread f t, b') \<and> consumed (length s) b b'"
    consider (null) "?ty = cJSON_NULL" | (false) "?ty = cJSON_False" | (true) "?ty = cJSON_True"
      | (number) "?ty = cJSON_Number"
      | (str) v where "?ty = cJSON_String" "i_valuestring g = Some v"
      | (array) "?ty = cJSON_Array" "list_all well_typed cs" | (object) "?ty = cJSON_Object" "list_all well_typed cs" "list_all named cs"
      using Suc.prems(1) by (auto simp: t list_all_iff)
    then show ?goal
    proof cases
      case null
      then have "s = lit ''null''" using s mask by (simp add: t)
      then show ?thesis using literal_reads(1) [OF wf g] rest null by (simp add: t del: parse_value.simps)
    next
      case false
      then have "s = lit ''false''" using s mask by (simp add: t)
      then show ?thesis using literal_reads(2) [OF wf g] rest false by (simp add: t del: parse_value.simps)
    next
      case true
      then have "s = lit ''true''" using s mask by (simp add: t)
      then show ?thesis using literal_reads(3) [OF wf g] rest true by (simp add: t del: parse_value.simps)
    next
      case number
      then have s': "s = number_text g" using s mask by (simp add: t)
      show ?thesis
      proof (cases "finite_double (i_valuedouble g)")
        case False
        then have "s = lit ''null''" using s' number_text_null by simp
        then show ?thesis using literal_reads(1) [OF wf g] rest number False by (simp add: t del: parse_value.simps)
      next
        case True
        have num: "numeral_text s" using numeral_number_text [OF True] s' by simp
        then obtain x xs where x: "s = x # xs" "x = 0x2D \<or> digit x" using numeral_head by blast
        then have "x \<notin> {0x6E, 0x66, 0x74, 0x22}" by (auto simp: digit_def)
        then have "parse_value (Suc n) f b = lift_item (parse_number f b)"
          using parse_value_dispatch [OF wf, of x "xs @ c # r"] rest x by auto
        then show ?thesis using parse_number_reads [OF wf g num rest, of f] c consumed_lift(2) [of f b] number True s'
          by (auto simp: t boundary_def Let_def simp del: parse_value.simps)
      qed
    next
      case str
      then have s': "s = [0x22] @ concat (map escape (cstr v)) @ [0x22]" using s mask by (simp add: t render_string_def)
      then have rest': "rest b = [0x22] @ concat (map escape (cstr v)) @ [0x22] @ c # r" using rest by simp
      have "parse_value (Suc n) f b = lift_item (parse_string f b)"
        using parse_value_dispatch [OF wf, of "0x22"] rest' by simp
      then show ?thesis using parse_string_reads [OF wf g rest', of f] consumed_lift(1) [of f b] str s' by (auto simp: t simp del: parse_value.simps)
    next
      case array
      then obtain u where u: "render_elements fmt (d + 1) cs = Some u" "s = 0x5B # u @ [0x5D]"
        using s mask by (auto simp: t cat_def map_option_case split: option.splits)
      have "\<forall>c \<in> set cs. reads_back n c \<and> well_typed c \<and> b_depth b + 1 + height c \<le> CJSON_NESTING_LIMIT"
        using kids [OF disjI1 [OF array(1)] array(2)] array(2) depth by (auto simp: list_all_iff)
      moreover have "b_depth b < CJSON_NESTING_LIMIT" using depth array(1) by (simp add: t)
      moreover have rest': "rest b = 0x5B # u @ 0x5D # c # r" using rest u(2) by simp
      ultimately have "\<exists>b'. parse_array (parse_value n) f b =
          Inr (True, Item (f\<lparr>i_type := cJSON_Array\<rparr>) (map (reread zero_item) cs), b') \<and> consumed (length u + 2) b b'"
        using parse_array_reads [OF _ u(1) _ wf g] by blast
      moreover have "parse_value (Suc n) f b = parse_array (parse_value n) f b"
        using parse_value_dispatch [OF wf, of "0x5B"] rest' by (simp add: digit_def)
      ultimately show ?thesis using array(1) u(2) by (simp add: t del: parse_value.simps)
    next
      case object
      then obtain u where u: "render_members fmt (d + 1) cs = Some u" "s = open_object fmt @ u @ close_text fmt d"
        using s mask by (auto simp: t cat_def map_option_case split: option.splits)
      have "\<forall>c \<in> set cs. reads_back n c \<and> well_typed c \<and> named c \<and> b_depth b + 1 + height c \<le> CJSON_NESTING_LIMIT"
        using kids [OF disjI2 [OF object(1)] object(2)] object(2,3) depth by (auto simp: list_all_iff)
      moreover have "b_depth b < CJSON_NESTING_LIMIT" using depth object(1) by (simp add: t)
      moreover have rest': "rest b = open_object fmt @ u @ close_text fmt d @ c # r" using rest u(2) by simp
      ultimately have "\<exists>b'. parse_object (parse_value n) f b =
          Inr (True, Item (f\<lparr>i_type := cJSON_Object\<rparr>) (map (\<lambda>c. reread (key_item c) c) cs), b') \<and>
          consumed (length (open_object fmt) + length u + length (close_text fmt d)) b b'"
        using parse_object_reads [OF _ u(1) _ wf g] by blast
      moreover have "rest b = 0x7B # drop 1 (open_object fmt) @ u @ close_text fmt d @ c # r"
        using rest' by (simp add: open_object_def)
      then have "parse_value (Suc n) f b = parse_object (parse_value n) f b"
        using parse_value_dispatch [OF wf, of "0x7B"] by (simp add: digit_def)
      ultimately show ?thesis using object(1) u(2) by (simp add: t add.assoc del: parse_value.simps)
    qed
  qed
qed simp

subsection \<open>Whole documents\<close>

definition clean :: "u8 list option \<Rightarrow> bool" where
  "clean u \<longleftrightarrow> (\<forall>s. u = Some s \<longrightarrow> 0 \<notin> set s)"

lemma clean_simps [simp]: "clean None" "clean (Some s) \<longleftrightarrow> 0 \<notin> set s" "clean (map_option cstr v)"
  using cstr_nonzero by (auto simp: clean_def)

lemma clean_cat: "clean u \<Longrightarrow> clean v \<Longrightarrow> clean (cat u v)"
  by (auto simp: clean_def cat_def map_option_case split: option.splits)

lemma clean_texts:
  "0 \<notin> set (open_object fmt)" "0 \<notin> set (close_text fmt d)" "0 \<notin> set (separator fmt)" "0 \<notin> set (colon fmt)"
  "0 \<notin> set (member_end fmt v)" "0 \<notin> set (if fmt then replicate d (0x09 :: u8) else [])"
  "0 \<notin> set (lit ''null'')" "0 \<notin> set (lit ''true'')" "0 \<notin> set (lit ''false'')"
  by (auto simp: lit_def open_object_def close_text_def separator_def colon_def member_end_def)

lemma render_clean:
  "printable t \<Longrightarrow> clean (render fmt d t)"
  "list_all printable cs \<Longrightarrow> clean (render_elements fmt d cs)"
  "list_all printable cs \<Longrightarrow> clean (render_members fmt d cs)"
proof (induction fmt d t and fmt d cs and fmt d cs rule: render_render_elements_render_members.induct)
  case (1 fmt d f cs)
  then show ?case using number_text_nonzero [of f] render_string_nonzero
    by (simp add: clean_cat clean_texts Let_def)
next
  case (3 fmt d c cs)
  then show ?case by (simp add: clean_cat clean_texts)
next
  case (5 fmt d c cs)
  then show ?case using render_string_nonzero by (simp add: clean_cat clean_texts)
qed simp_all

lemma consumed_granted: "consumed k b b' \<Longrightarrow> granted (b_heap b) \<Longrightarrow> granted (b_heap b')"
  by (simp add: consumed_def granted_def)

lemma document_reads:
  assumes "well_typed t" "printable t" "height t \<le> CJSON_NESTING_LIMIT" "render fmt 0 t = Some x" "granted h"
  shows "\<exists>r. cJSON_Parse (Some (x @ [0])) e h = Inr r \<and> r_item r = Some (reread zero_item t) \<and> r_error r = None \<and>
    granted (r_heap r)"
proof -
  obtain c x' where c: "x = c # x'" "\<not> c \<le> 32" "c \<noteq> 0xEF" using render_head [OF assms(1,4)] by auto
  have zero: "0 \<notin> set x" using render_clean(1) [OF assms(2), of fmt 0] assms(4) by simp
  have len: "strlen (x @ [0]) = Inr (length x)" using cstr_no_zero [OF zero, of "[]"] by (simp add: strlen_def c_str_def)
  obtain h1 where h1: "cJSON_New_Item h = (Some zero_item, h1)" "granted h1"
    using granted_allocate [OF assms(5)] assms(5) by (auto simp: cJSON_New_Item_def granted_def)
  define b where "b = \<lparr>b_content = x @ [0], b_length = Suc (length x), b_offset = 0, b_depth = 0, b_heap = h1\<rparr>"
  have b: "wf_buffer b" "granted (b_heap b)" "rest b = x @ 0 # []" "b_depth b = 0"
    using h1(2) by (simp_all add: b_def wf_buffer_def rest_def segment_def)
  have bom: "skip_utf8_bom b = Inr (Some b)"
    using c by (simp add: skip_utf8_bom_def b_def numeral_3_eq_3)
  have skip: "buffer_skip_whitespace b = Inr b"
    using skip_rest [OF b(1), of "[]"] b(3) c by simp
  have "reads_back (Suc CJSON_NESTING_LIMIT) t" using value_reads assms(1,3) by simp
  moreover have "b_depth b + height t \<le> CJSON_NESTING_LIMIT" using assms(3) b(4) by simp
  ultimately obtain b' where "parse_value (Suc CJSON_NESTING_LIMIT) zero_item b = Inr (True, reread zero_item t, b')"
    and after: "granted (b_heap b')"
    using reads_backD [OF _ assms(4) b(1,3,2) boundary_chars(4)] consumed_granted [OF _ b(2)] by blast
  then have "parse_value 1001 zero_item b = Inr (True, reread zero_item t, b')" by (simp del: parse_value.simps)
  then show ?thesis using len h1(1) bom skip after
    by (simp add: cJSON_Parse_def cJSON_ParseWithOpts_def cJSON_ParseWithLengthOpts_def Let_def b_def [symmetric] del: parse_value.simps)
qed

lemma cat_Some: "u \<noteq> None \<Longrightarrow> v \<noteq> None \<Longrightarrow> cat u v \<noteq> None"
  by (auto simp: cat_def)

lemma render_total:
  "well_typed t \<Longrightarrow> render fmt d t \<noteq> None"
  "list_all well_typed cs \<Longrightarrow> render_elements fmt d cs \<noteq> None"
  "list_all well_typed cs \<Longrightarrow> render_members fmt d cs \<noteq> None"
proof (induction fmt d t and fmt d cs and fmt d cs rule: render_render_elements_render_members.induct)
  case (1 fmt d f cs)
  have "i_type f AND 0xFF = i_type f" using well_typed_mask "1.prems" by blast
  moreover have "list_all well_typed cs" using "1.prems" by (auto simp: list_all_iff)
  moreover have "i_type f \<in> {cJSON_NULL, cJSON_False, cJSON_True, cJSON_Number, cJSON_String, cJSON_Array, cJSON_Object}"
    using "1.prems" by auto
  ultimately show ?case using 1(1,2) by (auto simp: Let_def simp del: not_None_eq intro!: cat_Some)
qed (simp_all add: cat_Some del: not_None_eq)

lemma print_granted:
  assumes "printable t" "render fmt 0 t = Some x" "granted h" "length x + 2 \<le> nat INT_MAX"
  obtains h' where "print realloc mem (Some t) fmt h = Inr (Some (x @ [0]), h')" "granted h'"
proof (cases rule: print_result [OF assms(1), of realloc mem fmt h])
  case (1 s h')
  then show thesis using that assms(2,3) by (simp add: granted_def)
next
  case (2 h')
  then show thesis using assms(2-4) by (auto simp: refused_def granted_def)
qed

lemma sample_ok:
  "well_typed sample_object" "height sample_object \<le> CJSON_NESTING_LIMIT" "granted plenty"
  "length (the (render True 0 sample_object)) + 2 \<le> nat INT_MAX"
proof -
  have "saturate (Fin False 3001 0) = 3001" by (simp add: saturate_def signed_def)
  then show "well_typed sample_object"
    by (simp add: sample_object_def zero_item_def char_array_def lit_def named_def)
  show "height sample_object \<le> CJSON_NESTING_LIMIT" by (simp add: sample_object_def zero_item_def)
  show "granted plenty" by (simp add: granted_def plenty_def)
  show "length (the (render True 0 sample_object)) + 2 \<le> nat INT_MAX" by (simp add: render_sample lit_def)
qed

text \<open>
  C27. A well-formed tree of at most 1000 levels survives being sent: if memory is granted and the text
  stays below \<open>INT_MAX - 1\<close> bytes, \<open>cJSON_Print\<close> and \<open>cJSON_PrintUnformatted\<close> return a text that
  \<open>cJSON_Parse\<close> accepts, without an error position, and the tree comes back member for member and byte
  for byte, each number as \<open>strtod\<close> reads the text it was given and a number that is not finite as \<open>null\<close>.
\<close>

theorem print_parse_roundtrip:
  assumes "well_typed t" "printable t" "height t \<le> CJSON_NESTING_LIMIT" "granted h"
    and "length (the (render fmt 0 t)) + 2 \<le> nat INT_MAX"
  shows "\<exists>s h' r. print realloc mem (Some t) fmt h = Inr (Some s, h') \<and> cJSON_Parse (Some s) e h' = Inr r \<and>
           r_item r = Some (reread zero_item t) \<and> r_error r = None"
proof -
  obtain x where x: "render fmt 0 t = Some x" using render_total(1) [OF assms(1)] by auto
  obtain h' where "print realloc mem (Some t) fmt h = Inr (Some (x @ [0]), h')" "granted h'"
    using print_granted [OF assms(2) x assms(4)] assms(5) x by auto
  then show ?thesis using document_reads [OF assms(1-3) x] by blast
qed

theorem print_parse_roundtrip_witness:
  "\<exists>s h' r. print True (\<lambda>_ _. 0) (Some sample_object) True plenty = Inr (Some s, h') \<and>
     cJSON_Parse (Some s) None h' = Inr r \<and> r_item r = Some (reread zero_item sample_object)"
  using print_parse_roundtrip [OF sample_ok(1) printable_sample sample_ok(2,3,4)] by blast

end
