(* ===== verification/Json_Whole.thy ===== *)
theory Json_Whole
  imports Json_Reread
begin

text \<open>
  Whole numbers survive printing and reading exactly, so that trees whose numbers are integers, as the
  descriptors of this program are, print the same text again after they have been read.
\<close>

subsection \<open>Integers as texts and as doubles\<close>

lemma digits_value_snoc: "digits_value (ds @ [d]) = 10 * digits_value ds + unat (d - 0x30)"
  by (simp add: digits_value_def)

lemma unat_digit: "k < 10 \<Longrightarrow> unat (0x30 + word_of_nat k - 0x30 :: u8) = k"
  by (simp add: unat_of_nat)

lemma digits_value_decimal: "digits_value (decimal n) = n"
proof (induction n rule: decimal.induct)
  case (1 n)
  then show ?case using digits_value_snoc [of "[]" "0x30 + of_nat n"]
    by (subst decimal.simps) (auto simp: digits_value_snoc unat_of_nat digits_value_def)
qed

lemma bit_length_bounds: "n \<noteq> 0 \<Longrightarrow> 2 ^ (bit_length n - 1) \<le> n \<and> n < 2 ^ bit_length n"
proof (induction n rule: bit_length.induct)
  case (1 n)
  show ?case
  proof (cases "n = 1")
    case False
    then have "n div 2 \<noteq> 0" using "1.prems" by (simp add: div_eq_0_iff)
    then have ih: "2 ^ (bit_length (n div 2) - 1) \<le> n div 2" "n div 2 < 2 ^ bit_length (n div 2)" and "bit_length (n div 2) \<noteq> 0"
      using "1.IH" "1.prems" bit_length.simps [of "n div 2"] by auto
    then obtain k where "bit_length (n div 2) = Suc k" by (cases "bit_length (n div 2)") auto
    then have "bit_length n = Suc (Suc k)" "2 ^ k \<le> n div 2" "n div 2 < 2 * 2 ^ k"
      using ih "1.prems" by (simp_all add: bit_length.simps [of n])
    moreover have "2 * p \<le> n \<and> n < 4 * p" if "p \<le> n div 2" "n div 2 < 2 * p" for p using that by arith
    ultimately show ?thesis by (simp add: mult.assoc)
  qed (simp add: bit_length.simps)
qed

lemma round_integer:
  assumes "n \<noteq> 0" "n < 2 ^ 53"
  shows "\<exists>k \<le> 52. round_double s n 1 = Fin s (n * 2 ^ k) (- int k)"
proof -
  let ?l = "bit_length n"
  have l: "?l \<noteq> 0" "bit_length 1 = 1" using assms(1) by (simp_all add: bit_length.simps)
  then have log: "log2_ratio n 1 = int (?l - 1)"
    using bit_length_bounds [OF assms(1)] by (simp add: log2_ratio_def Let_def nat_diff_distrib of_nat_diff)
  have "?l - 1 \<le> 52"
  proof (rule ccontr)
    assume "\<not> ?l - 1 \<le> 52"
    then have "(2 :: nat) ^ 53 \<le> 2 ^ (?l - 1)" by (intro power_increasing) simp_all
    then show False using bit_length_bounds [OF assms(1)] assms(2) by simp
  qed
  then obtain k where k: "k \<le> 52" "int (?l - 1) - 52 = - int k" by (metis diff_le_self int_ops(6) minus_diff_eq of_nat_diff of_nat_numeral)
  have "n * 2 ^ k < 2 ^ 53 * 2 ^ k" using assms(2) by (intro mult_strict_right_mono) simp_all
  also have "\<dots> \<le> 2 ^ 53 * 2 ^ 52" using k(1) by (intro mult_left_mono power_increasing) simp_all
  also have "\<dots> = (2 :: nat) ^ (53 + 52)" by (rule power_add [symmetric])
  also have "\<dots> \<le> 2 ^ 1024" by (intro power_increasing) simp_all
  finally have "\<not> 2 ^ 1024 \<le> n * 2 ^ k" by (simp only: not_le)
  moreover have "round_double s n 1 = (if 2 ^ 1024 \<le> n * 2 ^ k then Inf s else Fin s (n * 2 ^ k) (- int k))"
  proof -
    have e: "max (- 1074) (log2_ratio n 1 - 52) = - int k" using k log by simp
    have q: "div_even (n * 2 ^ nat (- (- int k))) 1 = n * 2 ^ k" by (simp add: div_even_def Let_def)
    have one: "m * 2 ^ nat (- int k) = m" for m :: nat by simp
    show ?thesis unfolding round_double_def Let_def e one q using assms(1) by (simp only: if_False)
  qed
  ultimately show ?thesis using k(1) by auto
qed

lemma strtod_decimal:
  "strtod (format_d k) = (round_double (k < 0) (nat \<bar>k\<bar>) 1, length (format_d k))"
proof -
  let ?ds = "decimal (nat \<bar>k\<bar>)"
  have ds: "?ds \<noteq> []" "list_all digit ?ds" using list_all_decimal by (simp_all add: decimal_nonempty)
  have span: "takeWhile digit ?ds = ?ds" "dropWhile digit ?ds = []" using ds(2) by (simp_all add: list_all_iff)
  have shown: "format_d k = (if k < 0 then [0x2D] else []) @ ?ds" by (simp add: format_d_def)
  have "split_sign (format_d k) = (k < 0, ?ds)"
    using split_sign_digit [OF ds, of "[]"] by (cases "k < 0") (simp_all add: shown, simp add: split_sign_def)
  then show ?thesis
    using ds(1) by (simp add: strtod_def span split_exponent_def Let_def digits_value_decimal decimal_double_def)
qed

definition whole :: "item \<Rightarrow> bool" where
  "whole f \<longleftrightarrow> double_eq (i_valuedouble f) (double_of_int (i_valueint f)) \<and> INT_MIN \<le> i_valueint f \<and> i_valueint f \<le> INT_MAX"

fun whole_numbers :: "cJSON \<Rightarrow> bool" where
  "whole_numbers (Item f cs) \<longleftrightarrow>
     (i_type f = cJSON_Number \<longrightarrow> finite_double (i_valuedouble f) \<longrightarrow> whole f) \<and> list_all whole_numbers cs"

lemma scaled_integer:
  fixes k :: nat and m :: int
  shows "double_ge (Fin s (n * 2 ^ k) (- int k)) m \<longleftrightarrow> m \<le> signed s n"
    and "double_le (Fin s (n * 2 ^ k) (- int k)) m \<longleftrightarrow> signed s n \<le> m"
    and "double_trunc (Fin s (n * 2 ^ k) (- int k)) = signed s n"
proof -
  have "signed s (n * 2 ^ k) = signed s n * 2 ^ k" by (simp add: signed_def)
  then show "double_ge (Fin s (n * 2 ^ k) (- int k)) m \<longleftrightarrow> m \<le> signed s n"
    "double_le (Fin s (n * 2 ^ k) (- int k)) m \<longleftrightarrow> signed s n \<le> m"
    "double_trunc (Fin s (n * 2 ^ k) (- int k)) = signed s n" by simp_all
qed

lemma whole_rereads:
  assumes "whole f" "number = fst (strtod (number_text f))"
  shows "saturate number = i_valueint f" "double_eq number (double_of_int (i_valueint f))" "finite_double number"
proof -
  let ?v = "i_valueint f" and ?n = "nat \<bar>i_valueint f\<bar>"
  have "finite_double (i_valuedouble f)"
    using assms(1) by (cases "i_valuedouble f") (auto simp: whole_def double_eq_def double_of_int_def finite_double_def)
  then have number: "number = round_double (?v < 0) ?n 1"
    using assms strtod_decimal [of ?v]
    by (auto simp: number_text_def whole_def finite_double_def Let_def)
  have v: "signed (?v < 0) ?n = ?v" by (simp add: signed_def)
  obtain k where k: "number = Fin (?v < 0) (?n * 2 ^ k) (- int k)"
  proof (cases "?v = 0")
    case False
    then have "?n \<noteq> 0" "?n < 2 ^ 53" using assms(1) by (auto simp: whole_def)
    from round_integer [OF this, of "?v < 0"] show thesis using number that by blast
  qed (use that [of 0] number in \<open>simp add: round_double_def\<close>)
  show "finite_double number" by (simp add: k finite_double_def)
  have "saturate number = (if INT_MAX \<le> ?v then INT_MAX else if ?v \<le> INT_MIN then INT_MIN else ?v)"
    unfolding saturate_def k scaled_integer v by (rule refl)
  then show "saturate number = ?v" using assms(1) by (auto simp: whole_def)
  have sg: "signed (?v < 0) (?n * 2 ^ k) = ?v * 2 ^ k" using v by (simp add: signed_def)
  show "double_eq number (double_of_int ?v)"
    by (simp add: k double_eq_def double_of_int_def Let_def sg v)
qed

text \<open>The text of a tree of whole numbers does not change when it is read and written again.\<close>

lemma render_elements_cong:
  "(\<And>c d. c \<in> set cs \<Longrightarrow> render fmt d (g c) = render fmt d c) \<Longrightarrow> render_elements fmt d (map g cs) = render_elements fmt d cs"
  by (induction cs) simp_all

lemma render_members_cong:
  "(\<And>c d. c \<in> set cs \<Longrightarrow> render fmt d (g c) = render fmt d c \<and>
     render_string (i_string (item_of (g c))) = render_string (i_string (item_of c))) \<Longrightarrow>
   render_members fmt d (map g cs) = render_members fmt d cs"
  by (induction cs) simp_all

lemma render_string_again: "render_string (Some (cstr s @ [0])) = render_string (Some s)"
  using cstr_no_zero [of "cstr s" "[]"] cstr_nonzero by (auto simp: render_string_def)

lemma reread_string [simp]: "i_string (item_of (reread f t)) = i_string f"
  by (cases t) (simp add: Let_def)

lemma number_text_again:
  assumes "whole f" "finite_double (i_valuedouble f)" "number = fst (strtod (number_text f))"
    "i_valuedouble g = number" "i_valueint g = saturate number"
  shows "number_text g = number_text f"
  using whole_rereads [OF assms(1,3)] assms by (auto simp: number_text_def whole_def finite_double_def)

lemma render_reread: "well_typed t \<Longrightarrow> whole_numbers t \<Longrightarrow> render fmt d (reread f t) = render fmt d t"
proof (induction t arbitrary: fmt d f)
  case (Item g cs)
  have mask: "i_type g AND 0xFF = i_type g" using well_typed_mask Item.prems(1) by blast
  have kid: "render fmt d (reread f c) = render fmt d c" if "c \<in> set cs" for fmt d f c
    using Item.IH [OF that] Item.prems that by (auto simp: list_all_iff)
  have elements: "render_elements fmt d (map (reread zero_item) cs) = render_elements fmt d cs" for d
    by (rule render_elements_cong) (rule kid)
  consider (number) "i_type g = cJSON_Number" | (object) "i_type g = cJSON_Object" "list_all named cs"
    | (other) "i_type g \<in> {cJSON_NULL, cJSON_False, cJSON_True, cJSON_Array}"
    | (str) s where "i_type g = cJSON_String" "i_valuestring g = Some s"
    using Item.prems(1) by (auto simp: list_all_iff)
  then show ?case
  proof cases
    case number
    show ?thesis
    proof (cases "finite_double (i_valuedouble g)")
      case True
      then have "whole g" using Item.prems(2) number by simp
      from number_text_again [OF this True refl] show ?thesis using number True by (simp add: Let_def)
    qed (use number number_text_null in \<open>simp add: Let_def\<close>)
  next
    case object
    have "render_members fmt d (map (\<lambda>c. reread (key_item c) c) cs) = render_members fmt d cs" for d
    proof (rule render_members_cong)
      fix c d assume c: "c \<in> set cs"
      then obtain s where "i_string (item_of c) = Some s" using object(2) by (auto simp: list_all_iff named_def)
      then show "render fmt d (reread (key_item c) c) = render fmt d c \<and>
          render_string (i_string (item_of (reread (key_item c) c))) = render_string (i_string (item_of c))"
        using kid [OF c] render_string_again [of s] by (simp add: key_item_def)
    qed
    then show ?thesis using object by (simp add: Let_def)
  next
    case other
    then show ?thesis using elements mask by (auto simp: Let_def)
  next
    case str
    then show ?thesis using render_string_again by (simp add: Let_def)
  qed
qed

subsection \<open>Printing what was read\<close>

lemma wf_round_double: "wf_double (round_double s n d)"
proof (cases "n = 0")
  case False
  define e where "e = max (- 1074) (log2_ratio n d - 52)"
  define q where "q = div_even (n * 2 ^ nat (- e)) (d * 2 ^ nat e)"
  have r: "round_double s n d = (if 2 ^ 1024 \<le> q * 2 ^ nat e then Inf s else Fin s q e)"
    unfolding round_double_def Let_def e_def [symmetric] q_def [symmetric] using False by (simp only: if_False)
  have "q * 2 ^ nat e < 2 ^ 1024 * 2 ^ nat (- e)" if "q * 2 ^ nat e < 2 ^ 1024"
    by (rule less_le_trans [OF that]) simp
  then show ?thesis unfolding r wf_double_def using e_def by (simp only: not_le double.case split: if_split) auto
qed (simp add: round_double_def wf_double_def)

lemma wf_strtod: "wf_double (fst (strtod s))"
proof -
  have "wf_double (decimal_double s n k)" for s n k by (simp add: decimal_double_def wf_round_double)
  moreover have "wf_double (Fin False 0 0)" by (simp add: wf_double_def)
  ultimately show ?thesis by (simp add: strtod_def Let_def split: prod.split)
qed

lemma saturate_bounds: "INT_MIN \<le> saturate d" "saturate d \<le> INT_MAX"
proof -
  have "INT_MIN \<le> saturate d \<and> saturate d \<le> INT_MAX"
  proof (cases d)
    case (Fin s m e)
    define a b where "a = m * 2 ^ nat e" and "b = (2 :: nat) ^ nat (- e)"
    have "signed s m * 2 ^ nat e = signed s a" by (simp add: signed_def a_def)
    then have sat: "saturate d = (if INT_MAX * int b \<le> signed s a then INT_MAX
        else if signed s a \<le> INT_MIN * int b then INT_MIN else signed s (a div b))"
      by (simp add: Fin saturate_def a_def b_def)
    have "a div b < nat INT_MAX" if "int a < INT_MAX * int b"
      by (rule less_mult_imp_div_less) (use that in simp)
    moreover have "a div b < nat (- INT_MIN)" if "INT_MIN * int b < - int a"
      by (rule less_mult_imp_div_less) (use that in simp)
    ultimately show ?thesis unfolding sat by (cases s) (auto simp: signed_def)
  qed (simp_all add: saturate_def)
  then show "INT_MIN \<le> saturate d" "saturate d \<le> INT_MAX" by simp_all
qed

lemma printable_reread:
  "printable t \<Longrightarrow> well_typed t \<Longrightarrow> (\<forall>s. i_string f = Some s \<longrightarrow> 0 \<in> set s) \<Longrightarrow> i_valuestring f = None \<Longrightarrow> printable (reread f t)"
proof (induction t arbitrary: f)
  case (Item g cs)
  have kid: "printable (reread f c)" if "c \<in> set cs" "f = zero_item \<or> f = key_item c" for c f
    using Item.IH [OF that(1)] Item.prems(1,2) that by (auto simp: list_all_iff zero_item_def key_item_def)
  have number: "wf_number (f\<lparr>i_valuedouble := fst (strtod s), i_valueint := saturate (fst (strtod s)), i_type := cJSON_Number\<rparr>)" for s
    using saturate_bounds [of "fst (strtod s)"] wf_strtod [of s] by (simp add: wf_number_def)
  show ?case using Item.prems(3,4) number kid by (auto simp: Let_def list_all_iff)
qed

lemma sample_whole: "whole_numbers sample_object"
  by (simp add: sample_object_def zero_item_def whole_def double_eq_def double_of_int_def signed_def Let_def)

text \<open>
  C28. Printing what was read back gives the same bytes again, for a well-formed tree whose numbers are
  integers of 32 bits or not finite: print, parse and print of such a tree, with memory granted, end with
  the text they began with.
\<close>

theorem reprint_same_text:
  assumes "well_typed t" "printable t" "height t \<le> CJSON_NESTING_LIMIT" "whole_numbers t" "granted h"
    and "length (the (render fmt 0 t)) + 2 \<le> nat INT_MAX"
  shows "\<exists>s h1 r u h2. print realloc mem (Some t) fmt h = Inr (Some s, h1) \<and> cJSON_Parse (Some s) e h1 = Inr r \<and>
           r_item r = Some u \<and> print realloc mem (Some u) fmt (r_heap r) = Inr (Some s, h2)"
proof -
  obtain x where x: "render fmt 0 t = Some x" using render_total(1) [OF assms(1)] by auto
  obtain h1 where h1: "print realloc mem (Some t) fmt h = Inr (Some (x @ [0]), h1)" "granted h1"
    using print_granted [OF assms(2) x assms(5)] assms(6) x by auto
  obtain r where r: "cJSON_Parse (Some (x @ [0])) e h1 = Inr r" "r_item r = Some (reread zero_item t)" "granted (r_heap r)"
    using document_reads [OF assms(1-3) x h1(2)] by blast
  let ?u = "reread zero_item t"
  have u: "render fmt 0 ?u = Some x" using render_reread [OF assms(1,4)] x by simp
  have p: "printable ?u" using printable_reread [OF assms(2,1)] by (simp add: zero_item_def)
  obtain h2 where "print realloc mem (Some ?u) fmt (r_heap r) = Inr (Some (x @ [0]), h2)"
    using print_granted [OF p u r(3)] assms(6) x by (metis option.sel)
  then show ?thesis using h1(1) r(1,2) by blast
qed

theorem reprint_same_text_witness:
  "\<exists>s h1 r u h2. print True (\<lambda>_ _. 0) (Some sample_object) True plenty = Inr (Some s, h1) \<and> cJSON_Parse (Some s) None h1 = Inr r \<and>
     r_item r = Some u \<and> print True (\<lambda>_ _. 0) (Some u) True (r_heap r) = Inr (Some s, h2)"
  using reprint_same_text [OF sample_ok(1) printable_sample sample_ok(2) sample_whole sample_ok(3,4)] by blast

end
