(* ===== verification/Descriptor.thy ===== *)
theory Descriptor
  imports Client Json_Whole
begin

text \<open>
  The start of \<open>test/client_test.c\<close>: the descriptor file is read into a buffer of 256 bytes on the stack,
  parsed with the JSON library, and copied field by field into a \<open>desciptor_file\<close>, from which the client
  starts. \<open>test/file_test.c\<close> contains the same function.
\<close>

subsection \<open>Reading the file\<close>

definition FILE_BUFFER_SIZE :: nat where
  "FILE_BUFFER_SIZE = 256"

text \<open>
  The bytes that each call of \<open>read\<close> delivers before the one that returns 0 or an error, which ends the
  loop either way. Every call writes to the start of the buffer; nothing terminates the text.
\<close>

definition file_buffer :: "u8 list \<Rightarrow> u8 list list \<Rightarrow> u8 list" where
  "file_buffer buffer chunks = fold (\<lambda>bytes buf. bytes @ drop (length bytes) buf) chunks buffer"

definition lookup_key :: "cJSON option \<Rightarrow> string \<Rightarrow> cJSON option outcome" where
  "lookup_key it key = cJSON_GetObjectItemCaseSensitive it (Some (lit key @ [0]))"

text \<open>\<open>printf\<close> with \<open>%s\<close> reads up to the terminator; a null pointer is printed as such.\<close>

definition print_text :: "u8 list option \<Rightarrow> unit outcome" where
  "print_text s = (case s of None \<Rightarrow> Inr () | Some s \<Rightarrow> bind_res (c_str s) (\<lambda>_. Inr ()))"

subsection \<open>The fields of the descriptor\<close>

text \<open>
  The part about the member \<open>file\<close>; the flag is False where the function returns 1. The first test
  joins its two conditions with \<open>&&\<close>, so that only a missing member fails it.
\<close>

definition read_file_member ::
    "(nat \<Rightarrow> nat \<Rightarrow> u8) \<Rightarrow> cJSON option \<Rightarrow> desciptor_file \<Rightarrow> heap \<Rightarrow> (bool \<times> desciptor_file \<times> heap) outcome" where
  "read_file_member mem df_json file h =
     bind_res (lookup_key df_json ''file'') (\<lambda>f.
     if f = None \<and> \<not> cJSON_IsObject f then Inr (False, file, h)
     else
       bind_res (cJSON_Print True mem f h) (\<lambda>(f_str, h).
       bind_res (print_text f_str) (\<lambda>_.
       bind_res (lookup_key f ''path'') (\<lambda>f_path.
       if \<not> cJSON_IsString f_path then Inr (False, file, h)
       else
         bind_res (lookup_key f ''name'') (\<lambda>f_name.
         if \<not> cJSON_IsString f_name then Inr (False, file, h)
         else
           bind_res (lookup_key f ''length'') (\<lambda>f_len.
           if \<not> cJSON_IsNumber f_len then Inr (False, file, h)
           else
             Inr (True,
                  file\<lparr>d_path := i_valuestring (item_of (the f_path)),
                       d_name := i_valuestring (item_of (the f_name)),
                       d_length := word_of_int (i_valueint (item_of (the f_len)))\<rparr>,
                  h)))))))"

text \<open>
  The loop over the member \<open>nodes\<close>. The block of pointers is there or not; its index \<open>i\<close> is 0 before
  the loop and stays so, so that every new node goes to place 0.
\<close>

fun read_nodes ::
    "(nat \<Rightarrow> nat \<Rightarrow> u8) \<Rightarrow> bool \<Rightarrow> cJSON list \<Rightarrow> desciptor_file \<Rightarrow> origin_store \<Rightarrow> heap \<Rightarrow>
       (bool \<times> desciptor_file \<times> origin_store \<times> heap) outcome" where
  "read_nodes mem there [] file st h = Inr (True, file, st, h)"
| "read_nodes mem there (el # els) file st h =
     bind_res (lookup_key (Some el) ''ip'') (\<lambda>f_ip.
     bind_res (lookup_key (Some el) ''port'') (\<lambda>f_port.
     if f_ip = None \<or> f_port = None then Inr (False, file, st, h)
     else if \<not> cJSON_IsString f_ip then Inr (False, file, st, h)
     else if \<not> cJSON_IsNumber f_port then Inr (False, file, st, h)
     else
       (case allocate sizeof_origin h of
          (False, _) \<Rightarrow> Inl Null_deref
        | (True, h') \<Rightarrow>
            (case i_valuestring (item_of (the f_ip)) of
               None \<Rightarrow> Inl Null_deref
             | Some s \<Rightarrow>
                 bind_res (strcpy (drop 2 (fresh_block mem h sizeof_origin)) s) (\<lambda>ip.
                 let new_node = \<lparr>o_port = word_of_int (i_valueint (item_of (the f_port))), o_ip = ip\<rparr> in
                 if \<not> there then Inl Null_deref
                 else if d_nodes file = [] then Inl OOB_write
                 else
                   read_nodes mem there els (file\<lparr>d_nodes := (d_nodes file)[0 := (length st, 0)]\<rparr>)
                     (st @ [[new_node]]) h')))))"

text \<open>The tests printed at the end read every node through its pointer.\<close>

definition print_descriptor :: "desciptor_file \<Rightarrow> origin_store \<Rightarrow> unit outcome" where
  "print_descriptor file st =
     bind_res (print_text (d_path file)) (\<lambda>_.
     bind_res (print_text (d_name file)) (\<lambda>_.
     bind_res (print_text (Some (d_file_hash file))) (\<lambda>_.
     fold_res (\<lambda>_ i.
         bind_res (load_ptr (d_nodes file) i) (\<lambda>p.
         bind_res (load_origin st p) (\<lambda>_. Inr ())))
       () [0..<unat (d_node_len file)])))"

text \<open>
  The whole function: its result, and the descriptor, the blocks of origins and the heap afterwards.
  \<open>df_file\<close> is what \<open>open\<close> returned, \<open>stack\<close> what the buffer holds before the first \<open>read\<close>, and
  \<open>stale\<close> what a new block of pointers holds.
\<close>

definition parse_descriptor_file ::
    "(nat \<Rightarrow> nat \<Rightarrow> u8) \<Rightarrow> (nat \<Rightarrow> origin_ptr) \<Rightarrow> u8 list \<Rightarrow> nat option \<Rightarrow> int \<Rightarrow> u8 list list \<Rightarrow>
       desciptor_file \<Rightarrow> origin_store \<Rightarrow> heap \<Rightarrow> (int \<times> desciptor_file \<times> origin_store \<times> heap) outcome" where
  "parse_descriptor_file mem stale stack global_error df_file chunks file st h =
     (if df_file < 0 then Inr (df_file, file, st, h)
      else
        bind_res (cJSON_Parse (Some (file_buffer stack chunks)) global_error h) (\<lambda>r.
        let df_json = r_item r; h = r_heap r in
        if df_json = None then Inr (1, file, st, h)
        else
          bind_res (read_file_member mem df_json file h) (\<lambda>(ok, file, h).
          if \<not> ok then Inr (1, file, st, h)
          else
            bind_res (lookup_key df_json ''hash_key'') (\<lambda>f_hk.
            if f_hk = None \<and> \<not> cJSON_IsString f_hk then Inr (1, file, st, h)
            else
              bind_res (lookup_key df_json ''piece_length'') (\<lambda>f_pclen.
              if f_pclen = None \<and> \<not> cJSON_IsNumber f_pclen then Inr (1, file, st, h)
              else
                bind_res (lookup_key df_json ''nodes'') (\<lambda>f_nodes.
                if f_nodes = None then Inr (1, file, st, h)
                else if \<not> cJSON_IsArray f_nodes then Inr (1, file, st, h)
                else
                  let arr_size = cJSON_GetArraySize f_nodes;
                      (there, h) = allocate (unat (word_of_int arr_size * 8 :: u64)) h;
                      file = file\<lparr>d_nodes := (if there then map stale [0..<nat arr_size] else [])\<rparr> in
                  bind_res (read_nodes mem there (child (the f_nodes)) file st h) (\<lambda>(ok, file, st, h).
                  if \<not> ok then Inr (1, file, st, h)
                  else
                    let file = file\<lparr>d_node_len := word_of_int arr_size\<rparr> in
                    (case i_valuestring (item_of (the f_hk)) of
                       None \<Rightarrow> Inl Null_deref
                     | Some s \<Rightarrow>
                         bind_res (strcpy (d_file_hash file) s) (\<lambda>file_hash.
                         let file = file\<lparr>d_file_hash := file_hash,
                                         d_piece_length := word_of_int (i_valueint (item_of (the f_pclen)))\<rparr> in
                         bind_res (print_descriptor file st) (\<lambda>_.
                         Inr (0, file, st, h)))))))))))"

subsection \<open>The client from its arguments\<close>

text \<open>\<open>atoi\<close> on a terminated text; blanks and a sign may precede the digits.\<close>

definition atoi :: "u8 list \<Rightarrow> int" where
  "atoi s =
     (let (neg, t) = split_sign (dropWhile (\<lambda>c. c = 0x20 \<or> 0x09 \<le> c \<and> c \<le> 0x0D) (cstr s))
      in signed neg (digits_value (takeWhile digit t)))"

definition zero_file :: desciptor_file where
  "zero_file = \<lparr>d_file_hash = replicate ID_SIZE 0, d_piece_length = 0, d_length = 0, d_name = None, d_path = None,
                d_nodes = [], d_node_len = 0\<rparr>"

text \<open>
  What the environment of the client decides: memory that nothing has written, the results of the
  calls to the kernel, and the answers of the allocators.
\<close>

record client_env =
  v_mem :: "nat \<Rightarrow> nat \<Rightarrow> u8"
  v_stale :: "nat \<Rightarrow> origin_ptr"
  v_stack :: "u8 list"
  v_open :: "u8 list option \<Rightarrow> int"
  v_chunks :: "u8 list list"
  v_heap :: heap
  v_bind :: int
  v_getsockname :: int
  v_memn :: "node_array option"
  v_alcn :: "node_t allocator"
  v_memp :: "nat \<Rightarrow> peer_bucket_t option"
  v_alcp :: "nat \<Rightarrow> peer_t allocator"
  v_payload :: "u8 list"
  v_msg :: rpc_msg
  v_net :: net

text \<open>
  \<open>main\<close> up to its loop: the status it returns, or the state the loop starts in. With one argument
  \<open>argv[2]\<close> is the null pointer at the end of \<open>argv\<close>. Only a negative result of the parser is an error.
\<close>

definition client_main ::
    "client_env \<Rightarrow> u8 list list \<Rightarrow> (int + rpc_ctx \<times> node_array \<times> nat option \<times> u8 list) outcome" where
  "client_main v argv =
     (if length argv < 2 then Inr (Inl (- 1))
      else
        let descriptor_path = (if 2 < length argv then Some (argv ! 2) else None) in
        bind_res (parse_descriptor_file (v_mem v) (v_stale v) (v_stack v) None (v_open v descriptor_path) (v_chunks v)
                    zero_file [] (v_heap v)) (\<lambda>(r, file, st, h).
        if r < 0 then Inr (Inl 1)
        else
          let host_port = atoi (argv ! 1) in
          if v_bind v \<noteq> 0 then Inl (Exit (- 1))
          else
            bind_res (client_start (v_memn v) (v_alcn v) (v_memp v) (v_alcp v) (v_getsockname v) (v_payload v) (v_msg v)
                        (v_net v) st file (word_of_int host_port)) (\<lambda>(c, neighbors, bucket).
            Inr (Inr (c, neighbors, bucket, d_file_hash file)))))"

text \<open>
  \<open>test/file_test.c\<close> only parses. Its copy of the parser differs in two layouts that the model does not
  depend on or takes as an argument: the address comes first in an origin, and the hash has 16 bytes.
\<close>

definition file_test_main :: "client_env \<Rightarrow> u8 list list \<Rightarrow> int outcome" where
  "file_test_main v argv =
     (if length argv < 2 then Inr (- 1)
      else
        bind_res (parse_descriptor_file (v_mem v) (v_stale v) (v_stack v) None (v_open v (Some (argv ! 1))) (v_chunks v)
                    (zero_file\<lparr>d_file_hash := replicate 16 0\<rparr>) [] (v_heap v)) (\<lambda>(r, _).
        Inr (if r < 0 then 1 else 0)))"

subsection \<open>What is in the buffer\<close>

lemma file_buffer_unterminated:
  assumes "\<forall>bytes \<in> set chunks. 0 \<notin> set bytes" "0 \<notin> set (drop n buffer)" "\<exists>bytes \<in> set chunks. n \<le> length bytes"
  shows "0 \<notin> set (file_buffer buffer chunks)"
proof -
  have keep: "0 \<notin> set (file_buffer buf cs)" if "0 \<notin> set buf" "\<forall>bytes \<in> set cs. 0 \<notin> set bytes" for buf cs
    using that
  proof (induction cs arbitrary: buf)
    case (Cons bytes cs)
    have "0 \<notin> set (bytes @ drop (length bytes) buf)" using Cons.prems by (auto dest: in_set_dropD)
    then show ?case using Cons.IH Cons.prems(2) by (simp add: file_buffer_def)
  qed (simp add: file_buffer_def)
  have tail: "0 \<notin> set (drop m buf)" if "n \<le> m" "0 \<notin> set (drop n buf)" for m buf
    using that set_drop_subset_set_drop [OF that(1), of buf] by blast
  have drop: "0 \<notin> set (drop n (bytes @ drop (length bytes) buf))" if "0 \<notin> set bytes" "0 \<notin> set (drop n buf)" for bytes buf
    using that by (cases "n \<le> length bytes") (auto simp: tail dest: in_set_dropD)
  show ?thesis using assms
  proof (induction chunks arbitrary: buffer)
    case (Cons bytes cs)
    let ?b = "bytes @ drop (length bytes) buffer"
    show ?case
    proof (cases "n \<le> length bytes")
      case True
      then have "0 \<notin> set ?b" using Cons.prems tail by simp
      then show ?thesis using keep [of ?b cs] Cons.prems(1) by (simp add: file_buffer_def)
    next
      case False
      then show ?thesis using Cons.IH [of ?b] Cons.prems drop by (simp add: file_buffer_def)
    qed
  qed simp
qed

text \<open>A text that ends with an object is read whatever follows it, as long as a terminator does.\<close>

lemma object_document_reads:
  assumes "well_typed t" "printable t" "height t \<le> CJSON_NESTING_LIMIT" "render fmt 0 t = Some x" "granted h"
    and "i_type (item_of t) = cJSON_Object" "0 \<in> set g"
  shows "\<exists>r. cJSON_Parse (Some (x @ g)) e h = Inr r \<and> r_item r = Some (reread zero_item t) \<and> granted (r_heap r)"
proof -
  obtain f cs where t: "t = Item f cs" by (cases t)
  obtain c x' where c: "x = c # x'" "\<not> c \<le> 32" "c \<noteq> 0xEF" using render_head [OF assms(1,4)] by auto
  have zero: "0 \<notin> set x" using render_clean(1) [OF assms(2), of fmt 0] assms(4) by simp
  have cstr: "cstr (x @ g) = x @ cstr g" using zero by (induction x) auto
  have len: "strlen (x @ g) = Inr (length x + length (cstr g))"
    using assms(7) cstr by (simp add: strlen_def c_str_def)
  obtain h1 where h1: "cJSON_New_Item h = (Some zero_item, h1)" "granted h1"
    using granted_new_item [OF assms(5)] by blast
  define b where "b = \<lparr>b_content = x @ g, b_length = Suc (length x + length (cstr g)), b_offset = 0, b_depth = 0, b_heap = h1\<rparr>"
  define r where "r = take (Suc (length (cstr g))) g"
  have b: "wf_buffer b" "granted (b_heap b)" "rest b = x @ r" "b_depth b = 0"
    using h1(2) cstr_less_length [OF assms(7)] by (simp_all add: b_def r_def wf_buffer_def rest_def segment_def)
  have bom: "skip_utf8_bom b = Inr (Some b)"
    using c by (simp add: skip_utf8_bom_def b_def numeral_3_eq_3)
  have skip: "buffer_skip_whitespace b = Inr b"
    using skip_rest [OF b(1), of "[]"] b(3) c by simp
  have kids: "list_all well_typed cs" "list_all named cs" using assms(1,6) by (auto simp: t list_all_iff)
  obtain u where u: "render_members fmt 1 cs = Some u" "x = open_object fmt @ u @ close_text fmt 0"
    using assms(4,6) well_typed_mask [OF assms(1) [unfolded t]] by (auto simp: t cat_def map_option_case split: option.splits)
  have "\<forall>k \<in> set cs. reads_back CJSON_NESTING_LIMIT k \<and> well_typed k \<and> named k \<and> b_depth b + 1 + height k \<le> CJSON_NESTING_LIMIT"
  proof
    fix k assume k: "k \<in> set cs"
    then have "height k < height t" using height_child [of k cs f] assms(6) t by simp
    then have h: "height k < CJSON_NESTING_LIMIT" "b_depth b + 1 + height k \<le> CJSON_NESTING_LIMIT"
      using assms(3) b(4) by linarith+
    moreover have "well_typed k" "named k" using kids k by (simp_all add: list_all_iff)
    ultimately show "reads_back CJSON_NESTING_LIMIT k \<and> well_typed k \<and> named k \<and> b_depth b + 1 + height k \<le> CJSON_NESTING_LIMIT"
      using value_reads by blast
  qed
  moreover have "rest b = open_object fmt @ u @ close_text fmt 0 @ r" using b(3) u(2) by simp
  ultimately obtain b' where b': "parse_object (parse_value CJSON_NESTING_LIMIT) zero_item b =
      Inr (True, Item (zero_item\<lparr>i_type := cJSON_Object\<rparr>) (map (\<lambda>c. reread (key_item c) c) cs), b')" "granted (b_heap b')"
    using parse_object_reads [of cs CJSON_NESTING_LIMIT b fmt 0 u r zero_item] u(1) b(1,2,4) consumed_granted [OF _ b(2)]
    by fastforce
  have "rest b = 0x7B # drop 1 (open_object fmt) @ u @ close_text fmt 0 @ r"
    using b(3) u(2) by (simp add: open_object_def)
  then have "parse_value (Suc n) f b = parse_object (parse_value n) f b" for n f
    using parse_value_dispatch [OF b(1), of "0x7B"] by (simp add: digit_def del: parse_value.simps)
  from this [of CJSON_NESTING_LIMIT zero_item] have "parse_value 1001 zero_item b = Inr (True, reread zero_item t, b')"
    using b'(1) assms(6) by (simp add: t del: parse_value.simps)
  then show ?thesis using len h1(1) bom skip b'(2)
    by (simp add: cJSON_Parse_def cJSON_ParseWithOpts_def cJSON_ParseWithLengthOpts_def Let_def b_def [symmetric] del: parse_value.simps)
qed

subsection \<open>The tree of a descriptor\<close>

text \<open>The first member with a name, and members that are strings and whole numbers.\<close>

definition member :: "cJSON \<Rightarrow> string \<Rightarrow> cJSON option" where
  "member t key = find (\<lambda>m. member_key True m = lit key) (child t)"

definition text_member :: "cJSON \<Rightarrow> string \<Rightarrow> u8 list \<Rightarrow> bool" where
  "text_member t key s \<longleftrightarrow>
     (\<exists>f cs. member t key = Some (Item f cs) \<and> i_type f = cJSON_String \<and> map_option cstr (i_valuestring f) = Some s)"

definition number_member :: "cJSON \<Rightarrow> string \<Rightarrow> int \<Rightarrow> bool" where
  "number_member t key k \<longleftrightarrow>
     (\<exists>f cs. member t key = Some (Item f cs) \<and> i_type f = cJSON_Number \<and> whole f \<and> i_valueint f = k)"

text \<open>What a descriptor says, and that a tree says it; further members are allowed.\<close>

record description =
  c_hash :: "u8 list"
  c_piece_length :: int
  c_length :: int
  c_name :: "u8 list"
  c_path :: "u8 list"
  c_nodes :: "(u8 list \<times> int) list"

definition node_says :: "cJSON \<Rightarrow> u8 list \<times> int \<Rightarrow> bool" where
  "node_says t n \<longleftrightarrow> i_type (item_of t) = cJSON_Object \<and> text_member t ''ip'' (fst n) \<and> number_member t ''port'' (snd n)"

definition says :: "cJSON \<Rightarrow> description \<Rightarrow> bool" where
  "says t c \<longleftrightarrow> i_type (item_of t) = cJSON_Object \<and>
     text_member t ''hash_key'' (c_hash c) \<and> number_member t ''piece_length'' (c_piece_length c) \<and>
     (\<exists>f. member t ''file'' = Some f \<and> i_type (item_of f) = cJSON_Object \<and> text_member f ''path'' (c_path c) \<and>
        text_member f ''name'' (c_name c) \<and> number_member f ''length'' (c_length c)) \<and>
     (\<exists>a. member t ''nodes'' = Some a \<and> i_type (item_of a) = cJSON_Array \<and> list_all2 node_says (child a) (c_nodes c))"

lemma find_map: "find P (map f xs) = map_option f (find (P \<circ> f) xs)"
  by (induction xs) auto

lemma cstr_lit: "0 \<notin> set (lit key) \<Longrightarrow> cstr (lit key @ [0]) = lit key"
  using cstr_no_zero [of "lit key" "[]"] by simp

lemma member_key_reread: "named c \<Longrightarrow> member_key True (reread (key_item c) c) = member_key True c"
  using cstr_append_zero [of "the (i_string (item_of c))" "[]"] by (simp add: member_key_def key_item_def)

lemma lookup_reread:
  assumes "well_typed t" "i_type (item_of t) = cJSON_Object" "0 \<notin> set (lit key)"
  shows "lookup_key (Some (reread g t)) key = Inr (map_option (\<lambda>c. reread (key_item c) c) (member t key))"
proof -
  obtain f cs where t: "t = Item f cs" by (cases t)
  have named: "list_all named cs" using assms(1,2) by (auto simp: t list_all_iff)
  let ?r = "\<lambda>c. reread (key_item c) c"
  have "find ((\<lambda>m. member_key True m = lit key) \<circ> ?r) cs = find (\<lambda>m. member_key True m = lit key) cs"
    using named by (induction cs) (auto simp: member_key_reread)
  moreover have "list_all named (map ?r cs)" by (auto simp: list_all_iff named_def key_item_def)
  ultimately show ?thesis
    using get_object_item_first [of "Item (g\<lparr>i_type := cJSON_Object\<rparr>) (map ?r cs)" "lit key @ [0]" True] assms(2,3)
    by (simp add: lookup_key_def cJSON_GetObjectItemCaseSensitive_def t search_key_def cstr_lit find_map member_def)
qed

lemma lookup_text:
  assumes "well_typed t" "i_type (item_of t) = cJSON_Object" "0 \<notin> set (lit key)" "text_member t key s"
  obtains m where "lookup_key (Some (reread g t)) key = Inr (Some m)" "cJSON_IsString (Some m)"
    "i_valuestring (item_of m) = Some (s @ [0])" "0 \<notin> set s"
proof -
  obtain f cs v where m: "member t key = Some (Item f cs)" "i_type f = cJSON_String" "i_valuestring f = Some v" "s = cstr v"
    using assms(4) by (auto simp: text_member_def)
  show thesis
    by (rule that [of "reread (key_item (Item f cs)) (Item f cs)"])
      (use lookup_reread [OF assms(1-3)] m cstr_nonzero in \<open>auto simp: cJSON_IsString_def has_type_def\<close>)
qed

lemma lookup_number:
  assumes "well_typed t" "i_type (item_of t) = cJSON_Object" "0 \<notin> set (lit key)" "number_member t key k"
  obtains m where "lookup_key (Some (reread g t)) key = Inr (Some m)" "cJSON_IsNumber (Some m)"
    "i_valueint (item_of m) = k"
proof -
  obtain f cs where m: "member t key = Some (Item f cs)" "i_type f = cJSON_Number" "whole f" "i_valueint f = k"
    using assms(4) by (auto simp: number_member_def)
  have "finite_double (i_valuedouble f)"
    using m(3) by (cases "i_valuedouble f") (auto simp: whole_def double_eq_def double_of_int_def finite_double_def)
  then show thesis
    using lookup_reread [OF assms(1-3)] m whole_rereads(1) [OF m(3) refl]
    by (intro that [of "reread (key_item (Item f cs)) (Item f cs)"])
      (simp_all add: cJSON_IsNumber_def has_type_def Let_def)
qed

subsection \<open>Reading a descriptor\<close>

lemma member_child: "member t key = Some m \<Longrightarrow> m \<in> set (child t)"
  by (auto simp: member_def find_Some_iff)

lemma child_ok: "well_typed t \<Longrightarrow> printable t \<Longrightarrow> c \<in> set (child t) \<Longrightarrow> well_typed c \<and> printable c"
  by (cases t) (auto simp: list_all_iff)

lemma keys_nonzero:
  "0 \<notin> set (lit ''file'')" "0 \<notin> set (lit ''path'')" "0 \<notin> set (lit ''name'')" "0 \<notin> set (lit ''length'')"
  "0 \<notin> set (lit ''hash_key'')" "0 \<notin> set (lit ''piece_length'')" "0 \<notin> set (lit ''nodes'')"
  "0 \<notin> set (lit ''ip'')" "0 \<notin> set (lit ''port'')"
  by (simp_all add: lit_def)

lemma cJSON_Print_total:
  assumes "printable t" "granted h"
  obtains s h' where "cJSON_Print realloc mem (Some t) h = Inr (s, h')" "granted h'" "print_text s = Inr ()"
proof (cases rule: print_result [OF assms(1), of realloc mem True h])
  case (1 s h')
  then show thesis using that [of "Some (s @ [0])" h'] assms(2)
    by (simp add: cJSON_Print_def granted_def print_text_def c_str_def)
next
  case (2 h')
  then show thesis using that [of None h'] assms(2) by (simp add: cJSON_Print_def granted_def print_text_def)
qed

lemma read_file_member_says:
  assumes t: "well_typed t" "printable t" "i_type (item_of t) = cJSON_Object" and h: "granted h"
    and f: "member t ''file'' = Some f" "i_type (item_of f) = cJSON_Object" "text_member f ''path'' path"
      "text_member f ''name'' name" "number_member f ''length'' len"
  shows "\<exists>h'. read_file_member mem (Some (reread g t)) file h =
      Inr (True, file\<lparr>d_path := Some (path @ [0]), d_name := Some (name @ [0]), d_length := word_of_int len\<rparr>, h') \<and> granted h'"
proof -
  have wf: "well_typed f" "printable f" using child_ok [OF t(1,2) member_child [OF f(1)]] by simp_all
  let ?f = "reread (key_item f) f"
  have "printable ?f" by (rule printable_reread [OF wf(2,1)]) (simp_all add: key_item_def zero_item_def)
  then obtain s h' where s: "cJSON_Print True mem (Some ?f) h = Inr (s, h')" "granted h'" "print_text s = Inr ()"
    by (rule cJSON_Print_total [OF _ h])
  obtain p where p: "lookup_key (Some ?f) ''path'' = Inr (Some p)" "cJSON_IsString (Some p)" "i_valuestring (item_of p) = Some (path @ [0])"
    by (rule lookup_text [OF wf(1) f(2) keys_nonzero(2) f(3)])
  obtain n where n: "lookup_key (Some ?f) ''name'' = Inr (Some n)" "cJSON_IsString (Some n)" "i_valuestring (item_of n) = Some (name @ [0])"
    by (rule lookup_text [OF wf(1) f(2) keys_nonzero(3) f(4)])
  obtain l where l: "lookup_key (Some ?f) ''length'' = Inr (Some l)" "cJSON_IsNumber (Some l)" "i_valueint (item_of l) = len"
    by (rule lookup_number [OF wf(1) f(2) keys_nonzero(4) f(5)])
  show ?thesis
    using s p n l lookup_reread [OF t(1,3) keys_nonzero(1)] f(1) by (simp add: read_file_member_def)
qed

text \<open>The blocks that hold the origins read from a list of nodes.\<close>

definition holds :: "origin \<Rightarrow> u8 list \<times> int \<Rightarrow> bool" where
  "holds x n \<longleftrightarrow> wf_origin x \<and> o_port x = word_of_int (snd n) \<and> cstr (o_ip x) = fst n"

lemma read_nodes_says:
  assumes "list_all2 node_says ns cs" "\<forall>n \<in> set ns. well_typed n" "\<forall>c \<in> set cs. length (fst c) < INET_ADDRSTRLEN"
    and "granted h" "cs \<noteq> [] \<longrightarrow> d_nodes df \<noteq> []"
  shows "\<exists>xs h'. read_nodes mem True (map (reread zero_item) ns) df st h =
      Inr (True, df\<lparr>d_nodes := (if cs = [] then d_nodes df else (d_nodes df)[0 := (length st + length cs - 1, 0)])\<rparr>,
           st @ map (\<lambda>x. [x]) xs, h') \<and> granted h' \<and> list_all2 holds xs cs"
  using assms
proof (induction ns cs arbitrary: df st h rule: list_all2_induct)
  case (Cons n ns c cs)
  note says = Cons.hyps(1) [unfolded node_says_def]
  have n: "well_typed n" using Cons.prems(1) by simp
  obtain i where i: "lookup_key (Some (reread zero_item n)) ''ip'' = Inr (Some i)" "cJSON_IsString (Some i)"
    "i_valuestring (item_of i) = Some (fst c @ [0])" "0 \<notin> set (fst c)"
    by (rule lookup_text [OF n _ keys_nonzero(8)]) (use says in blast)+
  obtain p where p: "lookup_key (Some (reread zero_item n)) ''port'' = Inr (Some p)" "cJSON_IsNumber (Some p)"
    "i_valueint (item_of p) = snd c"
    by (rule lookup_number [OF n _ keys_nonzero(9)]) (use says in blast)+
  obtain h1 where h1: "allocate sizeof_origin h = (True, h1)" "granted h1"
    using granted_allocate [OF Cons.prems(3)] Cons.prems(3) by auto
  let ?old = "drop 2 (fresh_block mem h sizeof_origin)"
  define x where "x = \<lparr>o_port = word_of_int (snd c), o_ip = fst c @ 0 # drop (Suc (length (fst c))) ?old\<rparr>"
  have len: "length (fst c) < INET_ADDRSTRLEN" "length ?old = INET_ADDRSTRLEN"
    using Cons.prems(2) by (simp_all add: fresh_block_def sizeof_origin_def INET_ADDRSTRLEN_def)
  have cs: "cstr (fst c @ 0 # z) = fst c" for z using cstr_no_zero [OF i(4)] by simp
  have copy: "strcpy ?old (fst c @ [0]) = Inr (o_ip x)" using len cs [of "[]"] by (simp add: x_def)
  have x: "holds x c" using len cs by (simp add: holds_def x_def wf_origin_def wf_ip_def)
  let ?df = "df\<lparr>d_nodes := (d_nodes df)[0 := (length st, 0)]\<rparr>"
  have step: "read_nodes mem True (map (reread zero_item) (n # ns)) df st h =
      read_nodes mem True (map (reread zero_item) ns) ?df (st @ [[x]]) h1"
    using i p h1(1) copy Cons.prems(4) by (simp add: x_def Let_def del: strcpy_eq_Inr)
  have "\<forall>m \<in> set ns. well_typed m" "\<forall>m \<in> set cs. length (fst m) < INET_ADDRSTRLEN" "cs \<noteq> [] \<longrightarrow> d_nodes ?df \<noteq> []"
    using Cons.prems by simp_all
  from Cons.IH [OF this(1,2) h1(2) this(3), of "st @ [[x]]"] obtain xs h' where
    r: "read_nodes mem True (map (reread zero_item) ns) ?df (st @ [[x]]) h1 =
      Inr (True, ?df\<lparr>d_nodes := (if cs = [] then d_nodes ?df else (d_nodes ?df)[0 := (length (st @ [[x]]) + length cs - 1, 0)])\<rparr>,
           (st @ [[x]]) @ map (\<lambda>x. [x]) xs, h')" "granted h'" "list_all2 holds xs cs"
    by blast
  show ?case
    by (rule exI [of _ "x # xs"], rule exI [of _ h']) (use step r x in \<open>simp\<close>)
qed (auto intro!: exI [of _ "[]"])

lemma array_size: "length (child a) < 2 ^ 31 \<Longrightarrow> cJSON_GetArraySize (Some a) = int (length (child a))"
  by (simp add: cJSON_GetArraySize_def signed_of_nat signed_take_bit_int_eq_self)

text \<open>Everything up to the loop over the nodes succeeds; what is left is the loop and the fields after it.\<close>

lemma parse_descriptor_starts:
  assumes t: "well_typed t" "printable t" "height t \<le> CJSON_NESTING_LIMIT" "render fmt 0 t = Some x"
    and says: "says t c" "length (c_nodes c) < 2 ^ 16"
    and env: "0 \<le> fd" "granted h" "0 \<in> set (drop (length x) stack)"
  obtains a h1 where "list_all2 node_says (child a) (c_nodes c)" "\<forall>n \<in> set (child a). well_typed n" "granted h1"
    "parse_descriptor_file mem stale stack e fd [x] df st h =
       bind_res (read_nodes mem True (map (reread zero_item) (child a))
           (df\<lparr>d_path := Some (c_path c @ [0]), d_name := Some (c_name c @ [0]), d_length := word_of_int (c_length c),
               d_nodes := map stale [0..<length (c_nodes c)]\<rparr>) st h1) (\<lambda>(ok, df, st, h).
       if \<not> ok then Inr (1, df, st, h)
       else bind_res (strcpy (d_file_hash df) (c_hash c @ [0])) (\<lambda>file_hash.
         let df = df\<lparr>d_node_len := of_nat (length (c_nodes c)), d_file_hash := file_hash,
                     d_piece_length := word_of_int (c_piece_length c)\<rparr> in
         bind_res (print_descriptor df st) (\<lambda>_. Inr (0, df, st, h))))"
proof -
  note says' = says(1) [unfolded says_def]
  then obtain f a where f: "member t ''file'' = Some f" "i_type (item_of f) = cJSON_Object" "text_member f ''path'' (c_path c)"
      "text_member f ''name'' (c_name c)" "number_member f ''length'' (c_length c)"
    and a: "member t ''nodes'' = Some a" "i_type (item_of a) = cJSON_Array" "list_all2 node_says (child a) (c_nodes c)"
    by blast
  have obj: "i_type (item_of t) = cJSON_Object" using says' by blast
  obtain r where r: "cJSON_Parse (Some (x @ drop (length x) stack)) e h = Inr r" "r_item r = Some (reread zero_item t)"
    "granted (r_heap r)"
    using object_document_reads [OF t env(2) obj env(3)] by blast
  let ?df = "df\<lparr>d_path := Some (c_path c @ [0]), d_name := Some (c_name c @ [0]), d_length := word_of_int (c_length c)\<rparr>"
  obtain h2 where h2: "read_file_member mem (Some (reread zero_item t)) df (r_heap r) = Inr (True, ?df, h2)" "granted h2"
    using read_file_member_says [OF t(1,2) obj r(3) f] by blast
  obtain k where k: "lookup_key (Some (reread zero_item t)) ''hash_key'' = Inr (Some k)" "i_valuestring (item_of k) = Some (c_hash c @ [0])"
    by (rule lookup_text [OF t(1) obj keys_nonzero(5), of "c_hash c"]) (use says' in blast)+
  obtain p where p: "lookup_key (Some (reread zero_item t)) ''piece_length'' = Inr (Some p)" "i_valueint (item_of p) = c_piece_length c"
    by (rule lookup_number [OF t(1) obj keys_nonzero(6), of "c_piece_length c"]) (use says' in blast)+
  let ?a = "reread (key_item a) a"
  have n: "lookup_key (Some (reread zero_item t)) ''nodes'' = Inr (Some ?a)"
    using lookup_reread [OF t(1) obj keys_nonzero(7)] a(1) by simp
  have child: "child ?a = map (reread zero_item) (child a)" "cJSON_IsArray (Some ?a)"
    using a(2) by (cases a; simp add: cJSON_IsArray_def has_type_def Let_def)+
  have "length (child ?a) = length (c_nodes c)" using list_all2_lengthD [OF a(3)] child(1) by simp
  then have size: "cJSON_GetArraySize (Some ?a) = int (length (c_nodes c))" using array_size [of ?a] says(2) by simp
  obtain h3 where h3: "allocate (unat (word_of_int (int (length (c_nodes c))) * 8 :: u64)) h2 = (True, h3)" "granted h3"
    using granted_allocate [OF h2(2)] h2(2) by auto
  have wf: "\<forall>n \<in> set (child a). well_typed n"
    using child_ok [OF t(1,2) member_child [OF a(1)]] child_ok [of a] by blast
  show thesis
    by (rule that [OF a(3) wf h3(2)])
      (use r h2(1) k p n child size h3(1) env(1) in \<open>simp add: parse_descriptor_file_def file_buffer_def Let_def split_def cong del: if_weak_cong del: strcpy_eq_Inr\<close>)
qed

text \<open>What a descriptor leaves behind when all its strings fit; \<open>k\<close> blocks of origins were there before.\<close>

definition filled :: "(nat \<Rightarrow> origin_ptr) \<Rightarrow> nat \<Rightarrow> description \<Rightarrow> u8 list \<Rightarrow> desciptor_file" where
  "filled stale k c old =
     \<lparr>d_file_hash = c_hash c @ 0 # drop (Suc (length (c_hash c))) old, d_piece_length = word_of_int (c_piece_length c),
      d_length = word_of_int (c_length c), d_name = Some (c_name c @ [0]), d_path = Some (c_path c @ [0]),
      d_nodes = (map stale [0..<length (c_nodes c)])[0 := (k + length (c_nodes c) - 1, 0)],
      d_node_len = of_nat (length (c_nodes c))\<rparr>"

lemma says_clean:
  assumes "says t c"
  shows "0 \<notin> set (c_hash c)" "0 \<notin> set (c_path c)" "0 \<notin> set (c_name c)" "\<forall>n \<in> set (c_nodes c). 0 \<notin> set (fst n)"
proof -
  have clean: "0 \<notin> set s" if "text_member m key s" for m key s using that cstr_nonzero by (auto simp: text_member_def)
  have "\<forall>n \<in> set cs. 0 \<notin> set (fst n)" if "list_all2 node_says ns cs" for ns cs
    using that by (induction rule: list_all2_induct) (auto simp: node_says_def dest: clean)
  then show "0 \<notin> set (c_hash c)" "0 \<notin> set (c_path c)" "0 \<notin> set (c_name c)" "\<forall>n \<in> set (c_nodes c). 0 \<notin> set (fst n)"
    using assms clean unfolding says_def by blast+
qed

lemma parse_descriptor_says:
  assumes t: "well_typed t" "printable t" "height t \<le> CJSON_NESTING_LIMIT" "render fmt 0 t = Some x"
    and says: "says t c" "length (c_nodes c) < 2 ^ 16"
    and env: "0 \<le> fd" "granted h" "0 \<in> set (drop (length x) stack)"
    and fits: "length (c_hash c) < length (d_file_hash df)" "\<forall>n \<in> set (c_nodes c). length (fst n) < INET_ADDRSTRLEN"
  obtains xs h' where "list_all2 holds xs (c_nodes c)" "granted h'"
    "parse_descriptor_file mem stale stack e fd [x] df st h =
       (let new = filled stale (length st) c (d_file_hash df); bs = st @ map (\<lambda>x. [x]) xs in
        bind_res (print_descriptor new bs) (\<lambda>_. Inr (0, new, bs, h')))"
proof -
  obtain a h1 where a: "list_all2 node_says (child a) (c_nodes c)" "\<forall>n \<in> set (child a). well_typed n" "granted h1"
    and run: "parse_descriptor_file mem stale stack e fd [x] df st h =
       bind_res (read_nodes mem True (map (reread zero_item) (child a))
           (df\<lparr>d_path := Some (c_path c @ [0]), d_name := Some (c_name c @ [0]), d_length := word_of_int (c_length c),
               d_nodes := map stale [0..<length (c_nodes c)]\<rparr>) st h1) (\<lambda>(ok, df, st, h).
       if \<not> ok then Inr (1, df, st, h)
       else bind_res (strcpy (d_file_hash df) (c_hash c @ [0])) (\<lambda>file_hash.
         let df = df\<lparr>d_node_len := of_nat (length (c_nodes c)), d_file_hash := file_hash,
                     d_piece_length := word_of_int (c_piece_length c)\<rparr> in
         bind_res (print_descriptor df st) (\<lambda>_. Inr (0, df, st, h))))"
    by (rule parse_descriptor_starts [OF t says env])
  let ?df = "df\<lparr>d_path := Some (c_path c @ [0]), d_name := Some (c_name c @ [0]), d_length := word_of_int (c_length c),
               d_nodes := map stale [0..<length (c_nodes c)]\<rparr>"
  have "c_nodes c \<noteq> [] \<longrightarrow> d_nodes ?df \<noteq> []" by simp
  from read_nodes_says [OF a(1,2) fits(2) a(3) this, of mem st] obtain xs h' where
    r: "read_nodes mem True (map (reread zero_item) (child a)) ?df st h1 =
      Inr (True, ?df\<lparr>d_nodes := (if c_nodes c = [] then d_nodes ?df else (d_nodes ?df)[0 := (length st + length (c_nodes c) - 1, 0)])\<rparr>,
           st @ map (\<lambda>x. [x]) xs, h')" "granted h'" "list_all2 holds xs (c_nodes c)"
    by blast
  have copy: "strcpy (d_file_hash df) (c_hash c @ [0]) = Inr (c_hash c @ 0 # drop (Suc (length (c_hash c))) (d_file_hash df))"
    using fits(1) cstr_no_zero [OF says_clean(1) [OF says(1)], of "[]"] by simp
  let ?nodes = "if c_nodes c = [] then d_nodes ?df else (d_nodes ?df)[0 := (length st + length (c_nodes c) - 1, 0)]"
  let ?copy = "c_hash c @ 0 # drop (Suc (length (c_hash c))) (d_file_hash df)"
  have "?df\<lparr>d_nodes := ?nodes, d_node_len := of_nat (length (c_nodes c)), d_file_hash := ?copy,
      d_piece_length := word_of_int (c_piece_length c)\<rparr> = filled stale (length st) c (d_file_hash df)"
    by (cases df) (simp add: filled_def)
  moreover have "d_file_hash (?df\<lparr>d_nodes := ?nodes\<rparr>) = d_file_hash df" by simp
  ultimately show thesis
    by (intro that [OF r(3,2)]) (use run r(1) copy in \<open>simp only: bind_res_Inr case_prod_conv not_True_eq_False if_False Let_def\<close>)
qed

lemma print_descriptor_filled:
  assumes "0 < length (c_nodes c)" "length (c_nodes c) < 2 ^ 16" "says t c" "length bs = k + length (c_nodes c)"
    and "\<forall>b \<in> set (drop k bs). b \<noteq> []"
  shows "print_descriptor (filled stale k c old) bs =
    fold_res (\<lambda>_ i. bind_res (load_origin bs (stale i)) (\<lambda>_. Inr ())) () [1..<length (c_nodes c)]"
proof -
  let ?n = "length (c_nodes c)" and ?new = "filled stale k c old"
  have texts: "print_text (d_path ?new) = Inr ()" "print_text (d_name ?new) = Inr ()" "print_text (Some (d_file_hash ?new)) = Inr ()"
    by (simp_all add: filled_def print_text_def c_str_def)
  have n: "unat (d_node_len ?new) = ?n" using assms(2) by (simp add: filled_def unat_of_nat)
  have "bs ! (k + ?n - 1) = drop k bs ! (?n - 1)" using assms(1,4) by (cases "c_nodes c") simp_all
  moreover have "drop k bs ! (?n - 1) \<in> set (drop k bs)" using assms(1,4) by (intro nth_mem) simp
  ultimately have "bs ! (k + ?n - 1) \<noteq> []" using assms(5) by simp
  then have first: "load_ptr (d_nodes ?new) 0 = Inr (k + ?n - 1, 0)" "\<exists>x. load_origin bs (k + ?n - 1, 0) = Inr x"
    using assms(1,4) by (auto simp: filled_def load_ptr_def load_origin_def)
  have others: "load_ptr (d_nodes ?new) i = Inr (stale i)" if "0 < i" "i < ?n" for i
    using that by (simp add: filled_def load_ptr_def)
  have "[0..<?n] = 0 # [1..<?n]" using assms(1) by (simp add: upt_conv_Cons)
  moreover have "fold_res (\<lambda>_ i. bind_res (load_ptr (d_nodes ?new) i) (\<lambda>p. bind_res (load_origin bs p) (\<lambda>_. Inr ()))) () is =
      fold_res (\<lambda>_ i. bind_res (load_origin bs (stale i)) (\<lambda>_. Inr ())) () is" if "\<forall>i \<in> set is. 0 < i \<and> i < ?n" for "is"
    using that by (induction "is") (simp_all add: others)
  ultimately show ?thesis
    using first by (auto simp: print_descriptor_def texts n)
qed

lemma cstr_shorter: "length (cstr xs) < length xs \<Longrightarrow> 0 \<in> set xs"
  by (induction xs) (auto split: if_splits)

lemma descriptor_file_fits:
  assumes "well_typed t" "printable t" "height t \<le> CJSON_NESTING_LIMIT" "render fmt 0 t = Some x"
    and "says t c" "c_nodes c = [(ip, port)]" "0 \<le> fd" "granted h" "0 \<in> set (drop (length x) stack)"
    and "length (d_file_hash df) = ID_SIZE" "length (c_hash c) < ID_SIZE" "length ip < INET_ADDRSTRLEN"
  shows "\<exists>new o1 h'. parse_descriptor_file mem stale stack e fd [x] df st h = Inr (0, new, st @ [[o1]], h') \<and>
      d_path new = Some (c_path c @ [0]) \<and> d_name new = Some (c_name c @ [0]) \<and> d_length new = word_of_int (c_length c) \<and>
      length (d_file_hash new) = ID_SIZE \<and> cstr (d_file_hash new) = c_hash c \<and>
      d_piece_length new = word_of_int (c_piece_length c) \<and> d_nodes new = [(length st, 0)] \<and> d_node_len new = 1 \<and>
      wf_origin o1 \<and> o_port o1 = word_of_int port \<and> cstr (o_ip o1) = ip"
proof -
  have len: "length (c_nodes c) < 2 ^ 16" using assms(6) by simp
  have fits: "length (c_hash c) < length (d_file_hash df)" "\<forall>n \<in> set (c_nodes c). length (fst n) < INET_ADDRSTRLEN"
    using assms(6,10-12) by simp_all
  obtain xs h' where xs: "list_all2 holds xs (c_nodes c)"
    and run: "parse_descriptor_file mem stale stack e fd [x] df st h =
     (let new = filled stale (length st) c (d_file_hash df); bs = st @ map (\<lambda>x. [x]) xs in
      bind_res (print_descriptor new bs) (\<lambda>_. Inr (0, new, bs, h')))"
    by (rule parse_descriptor_says [OF assms(1-5) len assms(7-9) fits])
  obtain o1 where o1: "xs = [o1]" "holds o1 (ip, port)" using xs assms(6) by (auto simp: list_all2_Cons2)
  have "print_descriptor (filled stale (length st) c (d_file_hash df)) (st @ [[o1]]) = Inr ()"
    using print_descriptor_filled [OF _ len assms(5), of "st @ [[o1]]" "length st"] assms(6) by simp
  then show ?thesis
    using run o1 assms(6,10,11) cstr_no_zero [OF says_clean(1) [OF assms(5)]] by (simp add: filled_def holds_def)
qed

subsection \<open>Properties\<close>

text \<open>
  C20. A descriptor with one node is read back as it was written: a text that the JSON printer makes of a
  tree with the members the client looks for, of at most 255 bytes and with a zero byte in the rest of
  the buffer, gives exactly the hash, lengths, name, path and node of that tree, whatever bytes follow the
  text and whatever fresh memory holds. Only the hash and the address are not measured against their
  arrays: a hash of 36 characters or an address of 16 is written past the end.
\<close>

theorem descriptor_reads_back:
  assumes "well_typed t" "printable t" "height t \<le> CJSON_NESTING_LIMIT" "render fmt 0 t = Some x"
    and "says t c" "c_nodes c = [(ip, port)]" "0 \<le> fd" "granted h" "0 \<in> set (drop (length x) stack)"
    and "length (d_file_hash df) = ID_SIZE"
  shows "if length (c_hash c) < ID_SIZE \<and> length ip < INET_ADDRSTRLEN
    then \<exists>new o1 h'. parse_descriptor_file mem stale stack e fd [x] df st h = Inr (0, new, st @ [[o1]], h') \<and>
      d_path new = Some (c_path c @ [0]) \<and> d_name new = Some (c_name c @ [0]) \<and> d_length new = word_of_int (c_length c) \<and>
      length (d_file_hash new) = ID_SIZE \<and> cstr (d_file_hash new) = c_hash c \<and>
      d_piece_length new = word_of_int (c_piece_length c) \<and> d_nodes new = [(length st, 0)] \<and> d_node_len new = 1 \<and>
      wf_origin o1 \<and> o_port o1 = word_of_int port \<and> cstr (o_ip o1) = ip
    else parse_descriptor_file mem stale stack e fd [x] df st h = Inl OOB_write"
proof -
  have len: "length (c_nodes c) < 2 ^ 16" using assms(6) by simp
  note clean = says_clean [OF assms(5)]
  show ?thesis
  proof (cases "length (c_hash c) < ID_SIZE \<and> length ip < INET_ADDRSTRLEN")
    case True
    then show ?thesis using descriptor_file_fits [OF assms] by simp
  next
    case False
    obtain a h1 where a: "list_all2 node_says (child a) (c_nodes c)" "\<forall>n \<in> set (child a). well_typed n" "granted h1"
      and run: "parse_descriptor_file mem stale stack e fd [x] df st h =
       bind_res (read_nodes mem True (map (reread zero_item) (child a))
           (df\<lparr>d_path := Some (c_path c @ [0]), d_name := Some (c_name c @ [0]), d_length := word_of_int (c_length c),
               d_nodes := map stale [0..<length (c_nodes c)]\<rparr>) st h1) (\<lambda>(ok, df, st, h).
       if \<not> ok then Inr (1, df, st, h)
       else bind_res (strcpy (d_file_hash df) (c_hash c @ [0])) (\<lambda>file_hash.
         let df = df\<lparr>d_node_len := of_nat (length (c_nodes c)), d_file_hash := file_hash,
                     d_piece_length := word_of_int (c_piece_length c)\<rparr> in
         bind_res (print_descriptor df st) (\<lambda>_. Inr (0, df, st, h))))"
      by (rule parse_descriptor_starts [OF assms(1-5) len assms(7-9)])
    let ?df = "df\<lparr>d_path := Some (c_path c @ [0]), d_name := Some (c_name c @ [0]), d_length := word_of_int (c_length c),
               d_nodes := map stale [0..<length (c_nodes c)]\<rparr>"
    have too_long: "strcpy dst (s @ [0]) = Inl OOB_write" if "0 \<notin> set s" "length dst \<le> length s" for dst s
      using that cstr_no_zero [OF that(1), of "[]"] by (simp add: strcpy_def c_str_def)
    show ?thesis
    proof (cases "length ip < INET_ADDRSTRLEN")
      case True
      have "\<forall>n \<in> set (c_nodes c). length (fst n) < INET_ADDRSTRLEN" "c_nodes c \<noteq> [] \<longrightarrow> d_nodes ?df \<noteq> []"
        using True assms(6) by simp_all
      from read_nodes_says [OF a(1,2) this(1) a(3) this(2), of mem st] obtain st' h' ns where
        r: "read_nodes mem True (map (reread zero_item) (child a)) ?df st h1 = Inr (True, ?df\<lparr>d_nodes := ns\<rparr>, st', h')"
        by blast
      have "length (d_file_hash df) \<le> length (c_hash c)" using False True assms(10) by simp
      from too_long [OF clean(1) this] show ?thesis using False run r by simp
    next
      case long: False
      obtain n where n: "child a = [n]" "node_says n (ip, port)" using a(1) assms(6) by (auto simp: list_all2_Cons2)
      have says: "i_type (item_of n) = cJSON_Object" "text_member n ''ip'' ip" "number_member n ''port'' port"
        using n(2) by (simp_all add: node_says_def)
      have wf: "well_typed n" using a(2) n(1) by simp
      obtain i where i: "lookup_key (Some (reread zero_item n)) ''ip'' = Inr (Some i)" "cJSON_IsString (Some i)"
        "i_valuestring (item_of i) = Some (ip @ [0])" "0 \<notin> set ip"
        by (rule lookup_text [OF wf says(1) keys_nonzero(8) says(2)])
      obtain p where p: "lookup_key (Some (reread zero_item n)) ''port'' = Inr (Some p)" "cJSON_IsNumber (Some p)"
        by (rule lookup_number [OF wf says(1) keys_nonzero(9) says(3)])
      obtain h2 where h2: "allocate sizeof_origin h1 = (True, h2)" using granted_allocate [OF a(3)] by blast
      let ?old = "drop 2 (fresh_block mem h1 sizeof_origin)"
      have "length ?old \<le> length ip" using long by (simp add: fresh_block_def sizeof_origin_def INET_ADDRSTRLEN_def)
      then have "read_nodes mem True (map (reread zero_item) (child a)) ?df st h1 = Inl OOB_write"
        using i(1-3) p n(1) h2 too_long [OF i(4)] by simp
      then show ?thesis using False run by simp
    qed
  qed
qed

text \<open>A descriptor as the repository has one, without its first member.\<close>

definition json_number :: "string \<Rightarrow> nat \<Rightarrow> cJSON" where
  "json_number key k =
     Item (zero_item\<lparr>i_type := cJSON_Number, i_string := Some (lit key @ [0]), i_valueint := int k, i_valuedouble := Fin False k 0\<rparr>) []"

definition json_text :: "string \<Rightarrow> string \<Rightarrow> cJSON" where
  "json_text key s =
     Item (zero_item\<lparr>i_type := cJSON_String, i_string := Some (lit key @ [0]), i_valuestring := Some (lit s @ [0])\<rparr>) []"

definition json_object :: "cJSON list \<Rightarrow> cJSON" where
  "json_object cs = Item (zero_item\<lparr>i_type := cJSON_Object\<rparr>) cs"

definition keyed :: "string \<Rightarrow> u32 \<Rightarrow> cJSON list \<Rightarrow> cJSON" where
  "keyed key ty cs = Item (zero_item\<lparr>i_type := ty, i_string := Some (lit key @ [0])\<rparr>) cs"

definition sample_nodes :: "cJSON list \<Rightarrow> cJSON" where
  "sample_nodes ns =
     json_object [json_number ''piece_length'' 50, json_text ''hash_key'' ''13'',
       keyed ''file'' cJSON_Object [json_number ''length'' 500, json_text ''name'' ''ubuntu.iso'', json_text ''path'' ''./''],
       keyed ''nodes'' cJSON_Array ns]"

definition sample_node :: "string \<Rightarrow> nat \<Rightarrow> cJSON" where
  "sample_node ip port = json_object [json_text ''ip'' ip, json_number ''port'' port]"

definition sample_description :: "(u8 list \<times> int) list \<Rightarrow> description" where
  "sample_description ns =
     \<lparr>c_hash = lit ''13'', c_piece_length = 50, c_length = 500, c_name = lit ''ubuntu.iso'', c_path = lit ''./'', c_nodes = ns\<rparr>"

lemma json_number_ok:
  assumes "k < 2 ^ 31"
  shows "well_typed (json_number key k)" "printable (json_number key k)" "named (json_number key k)" "height (json_number key k) = 0"
proof -
  have "saturate (Fin False k 0) = int k" using assms by (simp add: saturate_def signed_def)
  then show "well_typed (json_number key k)" by (simp add: json_number_def zero_item_def)
  have "k < 2 ^ 1024" using assms by (rule less_trans) simp
  then show "printable (json_number key k)"
    using assms by (simp add: json_number_def zero_item_def wf_number_def wf_double_def)
  show "named (json_number key k)" "height (json_number key k) = 0" by (simp_all add: json_number_def named_def zero_item_def)
qed

lemma json_text_ok:
  "well_typed (json_text key s)" "printable (json_text key s)" "named (json_text key s)" "height (json_text key s) = 0"
  by (simp_all add: json_text_def zero_item_def named_def)

lemma sample_node_ok:
  assumes "k < 2 ^ 31"
  shows "well_typed (sample_node ip k)" "printable (sample_node ip k)" "height (sample_node ip k) = 1"
    "unnamed (sample_node ip k)"
  using json_number_ok [OF assms] json_text_ok
  by (simp_all add: sample_node_def json_object_def zero_item_def unnamed_def)

lemma sample_node_in: "k < 2 ^ 31 \<Longrightarrow> \<exists>ip' k'. k' < 2 ^ 31 \<and> sample_node ip k = sample_node ip' k'"
  by blast

lemma sample_nodes_ok:
  assumes "list_all (\<lambda>n. \<exists>ip k. k < 2 ^ 31 \<and> n = sample_node ip k) ns"
  shows "well_typed (sample_nodes ns)" "printable (sample_nodes ns)" "height (sample_nodes ns) \<le> CJSON_NESTING_LIMIT"
proof -
  have n: "list_all (\<lambda>c. unnamed c \<and> well_typed c) ns" "list_all printable ns" "\<forall>c \<in> set ns. height c = 1"
    using assms sample_node_ok by (fastforce simp: list_all_iff)+
  have num: "well_typed (json_number ''length'' 500)" "well_typed (json_number ''piece_length'' 50)"
    "printable (json_number ''length'' 500)" "printable (json_number ''piece_length'' 50)"
    "named (json_number ''length'' 500)" "named (json_number ''piece_length'' 50)"
    "height (json_number ''length'' 500) = 0" "height (json_number ''piece_length'' 50) = 0"
    using json_number_ok by simp_all
  show "well_typed (sample_nodes ns)" "printable (sample_nodes ns)"
    using n(1,2) num json_text_ok
    by (simp_all add: sample_nodes_def json_object_def keyed_def zero_item_def named_def)
  have "fold max (map height ns) 0 \<le> 1" using n(3)
  proof (induction ns rule: rev_induct)
    case (snoc n ns)
    then show ?case by simp
  qed simp
  then show "height (sample_nodes ns) \<le> CJSON_NESTING_LIMIT"
    using num json_text_ok by (simp add: sample_nodes_def json_object_def keyed_def zero_item_def)
qed

lemma json_number_whole: "whole (item_of (json_number key k)) \<longleftrightarrow> k < 2 ^ 31"
  by (auto simp: json_number_def whole_def double_eq_def double_of_int_def Let_def)

lemma sample_says:
  assumes "ns = map (\<lambda>(ip, k). sample_node ip k) ps" "\<forall>p \<in> set ps. snd p < 2 ^ 31 \<and> 0 \<notin> set (lit (fst p))"
  shows "says (sample_nodes ns) (sample_description (map (\<lambda>(ip, k). (lit ip, int k)) ps))"
proof -
  have number: "number_member t key (int k)" if "member t key = Some (json_number key k)" "k < 2 ^ 31" for t key k
    using that json_number_whole [of key k] by (simp add: number_member_def json_number_def)
  have str: "text_member t key (lit s)" if "member t key = Some (json_text key s)" "0 \<notin> set (lit s)" for t key s
    using that cstr_lit [of s] by (simp add: text_member_def json_text_def)
  have node: "node_says (sample_node ip k) (lit ip, int k)" if "k < 2 ^ 31" "0 \<notin> set (lit ip)" for ip k
    using that number [of "sample_node ip k" "''port''" k] str [of "sample_node ip k" "''ip''" ip]
    by (simp add: node_says_def sample_node_def json_object_def member_def member_key_def json_text_def json_number_def lit_def zero_item_def)
  have nodes: "list_all2 node_says ns (map (\<lambda>(ip, k). (lit ip, int k)) ps)"
    unfolding assms(1) using assms(2) node by (induction ps) auto
  let ?t = "sample_nodes ns"
  have m: "member ?t ''hash_key'' = Some (json_text ''hash_key'' ''13'')"
    "member ?t ''piece_length'' = Some (json_number ''piece_length'' 50)"
    "member ?t ''nodes'' = Some (keyed ''nodes'' cJSON_Array ns)"
    "member ?t ''file'' = Some (keyed ''file'' cJSON_Object [json_number ''length'' 500, json_text ''name'' ''ubuntu.iso'', json_text ''path'' ''./''])"
    (is "_ = Some ?f")
    by (simp_all add: sample_nodes_def json_object_def member_def member_key_def json_text_def json_number_def keyed_def lit_def)
  have f: "member ?f ''path'' = Some (json_text ''path'' ''./'')" "member ?f ''name'' = Some (json_text ''name'' ''ubuntu.iso'')"
    "member ?f ''length'' = Some (json_number ''length'' 500)"
    by (simp_all add: member_def member_key_def json_text_def json_number_def keyed_def lit_def)
  have lits: "0 \<notin> set (lit ''13'')" "0 \<notin> set (lit ''./'')" "0 \<notin> set (lit ''ubuntu.iso'')" by (simp_all add: lit_def)
  show ?thesis
    using str [OF m(1) lits(1)] number [OF m(2)] str [OF f(1) lits(2)] str [OF f(2) lits(3)] number [OF f(3)] m(3,4) nodes
    unfolding says_def by (simp add: sample_description_def) (simp add: sample_nodes_def json_object_def keyed_def)
qed

lemma sample_one:
  obtains x where "render True 0 (sample_nodes [sample_node ''127.0.0.1'' 3001]) = Some x" "length x = 170"
proof -
  have "map_option length (render True 0 (sample_nodes [sample_node ''127.0.0.1'' 3001])) = Some 170" by code_simp
  then show thesis using that by auto
qed

lemma sample_one_says:
  "well_typed (sample_nodes [sample_node ''127.0.0.1'' 3001])" "printable (sample_nodes [sample_node ''127.0.0.1'' 3001])"
  "height (sample_nodes [sample_node ''127.0.0.1'' 3001]) \<le> CJSON_NESTING_LIMIT"
  "says (sample_nodes [sample_node ''127.0.0.1'' 3001]) (sample_description [(lit ''127.0.0.1'', 3001)])"
proof -
  have "list_all (\<lambda>n. \<exists>ip k. k < 2 ^ 31 \<and> n = sample_node ip k) [sample_node ''127.0.0.1'' 3001]"
    using sample_node_in [of 3001 "''127.0.0.1''"] by simp
  from sample_nodes_ok [OF this] show "well_typed (sample_nodes [sample_node ''127.0.0.1'' 3001])"
    "printable (sample_nodes [sample_node ''127.0.0.1'' 3001])"
    "height (sample_nodes [sample_node ''127.0.0.1'' 3001]) \<le> CJSON_NESTING_LIMIT" .
  show "says (sample_nodes [sample_node ''127.0.0.1'' 3001]) (sample_description [(lit ''127.0.0.1'', 3001)])"
    using sample_says [of "[sample_node ''127.0.0.1'' 3001]" "[(''127.0.0.1'', 3001)]"] by (simp add: lit_def)
qed

lemma sample_sizes: "length (lit ''13'') = 2" "length (lit ''127.0.0.1'') = 9"
  by (simp_all add: lit_def)

theorem descriptor_reads_back_witness:
  "\<exists>x new o1 h'. render True 0 (sample_nodes [sample_node ''127.0.0.1'' 3001]) = Some x \<and>
     parse_descriptor_file (\<lambda>_ _. 7) (\<lambda>_. (9, 9)) (replicate 256 0) None 3 [x] zero_file [] plenty = Inr (0, new, [[o1]], h') \<and>
     cstr (d_file_hash new) = lit ''13'' \<and> d_name new = Some (lit ''ubuntu.iso'' @ [0]) \<and> d_nodes new = [(0, 0)] \<and>
     o_port o1 = 3001 \<and> cstr (o_ip o1) = lit ''127.0.0.1''"
proof -
  obtain x where x: "render True 0 (sample_nodes [sample_node ''127.0.0.1'' 3001]) = Some x" "length x = 170"
    by (rule sample_one)
  have "0 \<in> set (drop (length x) (replicate 256 (0 :: u8)))" by (simp add: x(2))
  then show ?thesis
    using descriptor_reads_back [OF sample_one_says(1-3) x(1) sample_one_says(4), of _ _ 3 plenty "replicate 256 0" zero_file
        "\<lambda>_ _. 7" "\<lambda>_. (9, 9)" None "[]"] sample_ok(3) x(1)
    by (auto simp: sample_description_def zero_file_def sample_sizes ID_SIZE_def INET_ADDRSTRLEN_def)
qed

text \<open>
  C21. A descriptor with two or more nodes keeps only the last: all of them are written to place 0 of the
  array, whose other places keep what its block held before. Printing the ports then follows these
  pointers, so that the function reads outside every block if the second is not a pointer to one.
\<close>

theorem descriptor_keeps_last_node:
  assumes "well_typed t" "printable t" "height t \<le> CJSON_NESTING_LIMIT" "render fmt 0 t = Some x"
    and "says t c" "2 \<le> length (c_nodes c)" "length (c_nodes c) < 2 ^ 16" "0 \<le> fd" "granted h"
    and "0 \<in> set (drop (length x) stack)" "length (c_hash c) < length (d_file_hash df)"
    and "\<forall>n \<in> set (c_nodes c). length (fst n) < INET_ADDRSTRLEN"
  shows "if length st + length (c_nodes c) \<le> fst (stale 1)
    then parse_descriptor_file mem stale stack e fd [x] df st h = Inl OOB_read
    else \<forall>r new st' h'. parse_descriptor_file mem stale stack e fd [x] df st h = Inr (r, new, st', h') \<longrightarrow>
      r = 0 \<and> d_nodes new = (length st + length (c_nodes c) - 1, 0) # map stale [1..<length (c_nodes c)] \<and>
      load_origin st' (d_nodes new ! 0) = Inr (last (concat st')) \<and>
      o_port (last (concat st')) = word_of_int (snd (last (c_nodes c))) \<and> cstr (o_ip (last (concat st'))) = fst (last (c_nodes c))"
proof -
  let ?n = "length (c_nodes c)" and ?k = "length st"
  obtain xs h' where xs: "list_all2 holds xs (c_nodes c)"
    and run: "parse_descriptor_file mem stale stack e fd [x] df st h =
     (let new = filled stale ?k c (d_file_hash df); bs = st @ map (\<lambda>x. [x]) xs in
      bind_res (print_descriptor new bs) (\<lambda>_. Inr (0, new, bs, h')))"
    by (rule parse_descriptor_says [OF assms(1-5,7-12)])
  let ?bs = "st @ map (\<lambda>x. [x]) xs" and ?new = "filled stale ?k c (d_file_hash df)"
  have len: "length xs = ?n" using list_all2_lengthD [OF xs] .
  then have xs0: "xs \<noteq> []" "c_nodes c \<noteq> []" using assms(6) by auto
  have print: "print_descriptor ?new ?bs = fold_res (\<lambda>_ i. bind_res (load_origin ?bs (stale i)) (\<lambda>_. Inr ())) () [1..<?n]"
    by (rule print_descriptor_filled) (use assms(5-7) len in auto)
  have "[1..<?n] = 1 # [2..<?n]" using assms(6) by (simp add: upt_conv_Cons numeral_2_eq_2)
  then have bad: "print_descriptor ?new ?bs = Inl OOB_read" if "?k + ?n \<le> fst (stale 1)"
    using that len print by (simp add: load_origin_def)
  have nodes: "d_nodes ?new = (?k + ?n - 1, 0) # map stale [1..<?n]"
  proof -
    have "[0..<?n] = 0 # [1..<?n]" by (rule upt_conv_Cons [of 0, unfolded One_nat_def [symmetric]]) (use assms(6) in auto)
    then show ?thesis unfolding filled_def by simp
  qed
  have "holds (last xs) (last (c_nodes c))"
    using xs xs0 len by (simp add: list_all2_conv_all_nth last_conv_nth)
  moreover have "last (concat ?bs) = last xs"
    using xs0(1) by (cases xs rule: rev_cases) simp_all
  moreover have "load_origin ?bs (d_nodes ?new ! 0) = Inr (last xs)"
    using xs0(1) unfolding nodes len [symmetric] by (cases xs rule: rev_cases) (simp_all add: load_origin_def nth_append)
  ultimately show ?thesis
    using run bad nodes by (auto simp: Let_def outcome_simps holds_def)
qed

lemma sample_two:
  obtains x where "render True 0 (sample_nodes [sample_node ''localhost'' 3001, sample_node ''localhost'' 3002]) = Some x" "length x = 215"
proof -
  have "map_option length (render True 0 (sample_nodes [sample_node ''localhost'' 3001, sample_node ''localhost'' 3002])) = Some 215"
    by code_simp
  then show thesis using that by auto
qed

theorem descriptor_keeps_last_node_witness:
  "\<exists>x. render True 0 (sample_nodes [sample_node ''localhost'' 3001, sample_node ''localhost'' 3002]) = Some x \<and>
     parse_descriptor_file (\<lambda>_ _. 7) (\<lambda>_. (9, 9)) (replicate 256 0) None 3 [x] zero_file [] plenty = Inl OOB_read"
proof -
  let ?ns = "[sample_node ''localhost'' 3001, sample_node ''localhost'' 3002]"
  obtain x where x: "render True 0 (sample_nodes ?ns) = Some x" "length x = 215" by (rule sample_two)
  have "0 \<in> set (drop (length x) (replicate 256 (0 :: u8)))" by (simp add: x(2))
  moreover have "list_all (\<lambda>n. \<exists>ip k. k < 2 ^ 31 \<and> n = sample_node ip k) ?ns"
    using sample_node_in [of 3001 "''localhost''"] sample_node_in [of 3002 "''localhost''"] by simp
  note ok = sample_nodes_ok [OF this]
  have says: "says (sample_nodes ?ns) (sample_description [(lit ''localhost'', 3001), (lit ''localhost'', 3002)])"
    using sample_says [of ?ns "[(''localhost'', 3001), (''localhost'', 3002)]"] by (simp add: lit_def)
  have "length (lit ''localhost'') = 9" by (simp add: lit_def)
  ultimately show ?thesis
    using descriptor_keeps_last_node [OF ok x(1) says, of 3 plenty "replicate 256 0" zero_file "[]" "\<lambda>_. (9, 9)" "\<lambda>_ _. 7" None]
      sample_ok(3) x(1)
    by (simp add: sample_description_def zero_file_def sample_sizes ID_SIZE_def INET_ADDRSTRLEN_def)
qed

text \<open>
  C22. The text of the descriptor needs a terminator that the program does not provide: if the file has no zero
  bytes and nothing after its text in the buffer is zero, in particular if it fills the buffer of 256 bytes,
  then the parser reads past the end of the buffer, whatever the file says.
\<close>

theorem descriptor_needs_terminator:
  assumes "0 \<le> fd" "\<forall>bytes \<in> set chunks. 0 \<notin> set bytes" "\<exists>bytes \<in> set chunks. n \<le> length bytes"
    and "0 \<notin> set (drop n stack)"
  shows "parse_descriptor_file mem stale stack e fd chunks df st h = Inl OOB_read"
proof -
  have "0 \<notin> set (file_buffer stack chunks)" by (rule file_buffer_unterminated [OF assms(2,4,3)])
  then have "cJSON_Parse (Some (file_buffer stack chunks)) e h = Inl OOB_read"
    by (simp add: cJSON_Parse_def cJSON_ParseWithOpts_def strlen_def c_str_def)
  then show ?thesis using assms(1) by (simp add: parse_descriptor_file_def)
qed

theorem descriptor_needs_terminator_witness:
  "parse_descriptor_file (\<lambda>_ _. 0) (\<lambda>_. (0, 0)) (replicate FILE_BUFFER_SIZE 0) None 3
     [replicate FILE_BUFFER_SIZE 0x20, lit ''{}''] zero_file [] plenty = Inl OOB_read"
  by (rule descriptor_needs_terminator [where n = FILE_BUFFER_SIZE]) (auto simp: lit_def FILE_BUFFER_SIZE_def)

text \<open>An environment in which the calls to the kernel and the allocators succeed.\<close>

definition calm :: "client_env \<Rightarrow> bool" where
  "calm v \<longleftrightarrow> granted (v_heap v) \<and> v_bind v = 0 \<and> v_getsockname v = 0 \<and> v_memn v \<noteq> None \<and> v_alcn v 288 \<noteq> None \<and>
     (\<forall>i < MAX_PEER_BUCKETS. \<exists>m. v_memp v i = Some m \<and> \<not> da_active m \<and> v_alcp v i 80 \<noteq> None) \<and>
     length (v_payload v) = MAX_PAYLOAD_SIZE"

text \<open>
  C23. From the descriptor file to the first datagram: a client started with a port and the path of a
  descriptor of one node, as the printer writes it, reaches its loop, waiting and with an empty peer
  table, and has asked once for the hash of the descriptor. The request goes to address 0.0.0.0 at the
  node's port, since bootstrapping loses the address, and names the client by the port of its argument.
\<close>

theorem client_main_asks:
  assumes "well_typed t" "printable t" "height t \<le> CJSON_NESTING_LIMIT" "render fmt 0 t = Some x"
    and "says t c" "c_nodes c = [(ip, port)]" "length (c_hash c) < ID_SIZE" "length ip < INET_ADDRSTRLEN"
    and "calm v" "0 \<le> v_open v (Some path)" "v_chunks v = [x]" "0 \<in> set (drop (length x) (v_stack v))"
    and "\<forall>k. send_ok (v_net v) k"
  shows "\<exists>s nbs bucket key. client_main v [name, arg, path] = Inr (Inr (s, nbs, bucket, key)) \<and>
    cstr key = c_hash c \<and> x_wait s \<and> (\<forall>i < MAX_PEER_BUCKETS. peers_at (x_table s) i = []) \<and>
    outbox (x_net s) = outbox (v_net v) @ [(\<lparr>sin_port = htons (word_of_int port), sin_addr = 0\<rparr>,
      peers_request (v_payload v) key (node_origin (client_node (word_of_int (atoi arg)))))]"
proof -
  note calm = assms(9) [unfolded calm_def]
  have zero: "length (d_file_hash zero_file) = ID_SIZE" by (simp add: zero_file_def)
  have heap: "granted (v_heap v)" using calm by blast
  obtain new o1 h' where
    new: "parse_descriptor_file (v_mem v) (v_stale v) (v_stack v) None (v_open v (Some path)) [x] zero_file [] (v_heap v) =
        Inr (0, new, [] @ [[o1]], h')" "length (d_file_hash new) = ID_SIZE" "cstr (d_file_hash new) = c_hash c"
      "d_nodes new = [(0, 0)]" "d_node_len new = 1" "wf_origin o1" "o_port o1 = word_of_int port"
    using descriptor_file_fits [OF assms(1-6,10) heap assms(12) zero assms(7,8), of "v_mem v" "v_stale v" None "[]"] by auto
  have load: "load_origin [[o1]] (0, 0) = Inr o1" by (simp add: load_origin_def)
  have "0 \<in> set (d_file_hash new)" using cstr_shorter [of "d_file_hash new"] new(2,3) assms(7) by simp
  then obtain k where k: "hash (d_file_hash new) = Inr k" using hash_total by blast
  obtain m where m: "v_memn v = Some m" using calm by blast
  have calm': "v_alcn v 288 \<noteq> None" "v_bind v = 0" "v_getsockname v = 0" "length (v_payload v) = MAX_PAYLOAD_SIZE"
    "\<forall>i < MAX_PEER_BUCKETS. \<exists>m. v_memp v i = Some m \<and> \<not> da_active m \<and> v_alcp v i 80 \<noteq> None"
    using calm by blast+
  let ?port = "word_of_int (atoi arg) :: u16"
  obtain s nbs bucket where s: "client_start (v_memn v) (v_alcn v) (v_memp v) (v_alcp v) 0 (v_payload v) (v_msg v) (v_net v)
        [[o1]] new ?port = Inr (s, nbs, bucket)" "x_wait s" "\<forall>i < MAX_PEER_BUCKETS. peers_at (x_table s) i = []"
      "x_net s = snd (attempt (v_net v) \<lparr>sin_port = htons (o_port o1), sin_addr = 0\<rparr>
        (peers_request (v_payload v) (d_file_hash new) (node_origin (client_node ?port))))"
    using client_start_single [where memp = "v_memp v" and alcp = "v_alcp v" and alcn = "v_alcn v", OF m calm'(1,5) new(4,5) load new(6,2) k calm'(4), of "v_msg v" "v_net v" ?port]
    by blast
  have "client_main v [name, arg, path] = Inr (Inr (s, nbs, bucket, d_file_hash new))"
    using new(1) s(1) calm'(2,3) assms(11) by (simp add: client_main_def)
  then show ?thesis
    using new(3,7) s(2-4) assms(13) by (intro exI [of _ s] exI [of _ nbs] exI [of _ bucket] exI [of _ "d_file_hash new"])
      (simp add: attempt_def sendto_def)
qed

definition sample_env :: "u8 list list \<Rightarrow> client_env" where
  "sample_env chunks =
     \<lparr>v_mem = (\<lambda>_ _. 7), v_stale = (\<lambda>_. (9, 9)), v_stack = replicate FILE_BUFFER_SIZE 0, v_open = (\<lambda>_. 3), v_chunks = chunks,
      v_heap = plenty, v_bind = 0, v_getsockname = 0, v_memn = Some no_nodes, v_alcn = zero_node_alloc, v_memp = zero_mem,
      v_alcp = (\<lambda>_. zero_alloc), v_payload = zero_stack, v_msg = zero_msg, v_net = online\<rparr>"

lemma calm_sample: "calm (sample_env chunks)"
  using sample_ok(3) by (simp add: calm_def sample_env_def zero_node_alloc_def zero_mem_def)

theorem client_main_asks_witness:
  "\<exists>x s nbs bucket key. render True 0 (sample_nodes [sample_node ''127.0.0.1'' 3001]) = Some x \<and>
     client_main (sample_env [x]) [lit ''client_test'', lit ''4209'' @ [0], lit ''descriptor.json'' @ [0]] = Inr (Inr (s, nbs, bucket, key)) \<and>
     cstr key = lit ''13'' \<and> x_wait s \<and> map fst (outbox (x_net s)) = [\<lparr>sin_port = htons 3001, sin_addr = 0\<rparr>]"
proof -
  obtain x where x: "render True 0 (sample_nodes [sample_node ''127.0.0.1'' 3001]) = Some x" "length x = 170"
    by (rule sample_one)
  have "0 \<in> set (drop (length x) (v_stack (sample_env [x])))" by (simp add: x(2) sample_env_def FILE_BUFFER_SIZE_def)
  then show ?thesis
    using client_main_asks [OF sample_one_says(1-3) x(1) sample_one_says(4) _ _ _ calm_sample, of _ _ "[x]" "lit ''descriptor.json'' @ [0]"
        "lit ''client_test''" "lit ''4209'' @ [0]"] x(1)
    by (fastforce simp: sample_description_def sample_sizes ID_SIZE_def INET_ADDRSTRLEN_def sample_env_def)
qed

text \<open>
  C24. A descriptor that cannot be parsed does not stop the client, since the parser returns 1 and only
  negative results are errors: the client reaches its loop with an empty hash, without neighbors,
  having asked nobody, and waits.
\<close>

theorem client_main_ignores_bad_descriptor:
  assumes "calm v" "0 \<le> v_open v (Some path)"
    and "cJSON_Parse (Some (file_buffer (v_stack v) (v_chunks v))) None (v_heap v) = Inr r" "r_item r = None"
  shows "\<exists>s nbs bucket. client_main v [name, arg, path] = Inr (Inr (s, nbs, bucket, replicate ID_SIZE 0)) \<and>
    x_wait s \<and> elems nbs = [] \<and> (\<forall>i < MAX_PEER_BUCKETS. peers_at (x_table s) i = []) \<and> x_net s = v_net v"
proof -
  note calm = assms(1) [unfolded calm_def]
  have parse: "parse_descriptor_file (v_mem v) (v_stale v) (v_stack v) None (v_open v (Some path)) (v_chunks v) zero_file [] (v_heap v) =
      Inr (1, zero_file, [], r_heap r)"
    using assms(2-4) by (simp add: parse_descriptor_file_def)
  have zero: "d_node_len zero_file = 0" "length (d_file_hash zero_file) = ID_SIZE" "d_file_hash zero_file = replicate ID_SIZE 0"
    by (simp_all add: zero_file_def)
  have "0 \<in> set (d_file_hash zero_file)" by (simp add: zero_file_def ID_SIZE_def)
  then obtain k where k: "hash (d_file_hash zero_file) = Inr k" using hash_total by blast
  obtain m where m: "v_memn v = Some m" using calm by blast
  have calm': "v_alcn v 288 \<noteq> None" "v_bind v = 0" "v_getsockname v = 0" "length (v_payload v) = MAX_PAYLOAD_SIZE"
    "\<forall>i < MAX_PEER_BUCKETS. \<exists>m. v_memp v i = Some m \<and> \<not> da_active m \<and> v_alcp v i 80 \<noteq> None"
    using calm by blast+
  obtain s nbs bucket where s: "client_start (v_memn v) (v_alcn v) (v_memp v) (v_alcp v) 0 (v_payload v) (v_msg v) (v_net v)
        [] zero_file (word_of_int (atoi arg)) = Inr (s, nbs, bucket)" "x_wait s"
      "\<forall>i < MAX_PEER_BUCKETS. peers_at (x_table s) i = []" "elems nbs = []" "x_net s = v_net v"
    using client_start_nobody [where memp = "v_memp v" and alcp = "v_alcp v" and alcn = "v_alcn v", OF m calm'(1,5) zero(1,2) k calm'(4), of "v_msg v" "v_net v" "[]"]
    by blast
  have "client_main v [name, arg, path] = Inr (Inr (s, nbs, bucket, replicate ID_SIZE 0))"
    using parse s(1) calm'(2,3) zero(3) by (simp add: client_main_def)
  then show ?thesis using s(2-5) by blast
qed

theorem client_main_ignores_bad_descriptor_witness:
  "\<exists>s nbs bucket. client_main (sample_env [lit ''{x''])
      [lit ''client_test'', lit ''4209'' @ [0], lit ''descriptor.json'' @ [0]] = Inr (Inr (s, nbs, bucket, replicate ID_SIZE 0)) \<and> x_wait s"
proof -
  have "map_sum id r_item (cJSON_Parse (Some (file_buffer (replicate 256 0) [lit ''{x''])) None plenty) = Inr None"
    by code_simp
  then obtain r where "cJSON_Parse (Some (file_buffer (v_stack (sample_env [lit ''{x''])) (v_chunks (sample_env [lit ''{x''])))) None
      (v_heap (sample_env [lit ''{x''])) = Inr r" "r_item r = None"
    by (auto simp: sample_env_def FILE_BUFFER_SIZE_def map_sum_def split: sum.splits)
  from client_main_ignores_bad_descriptor [OF calm_sample _ this, of "lit ''descriptor.json'' @ [0]" "lit ''client_test''" "lit ''4209'' @ [0]"]
  show ?thesis by (auto simp: sample_env_def)
qed

end
