(* ===== verification/Responder.thy ===== *)
theory Responder
  imports Descriptor
begin

text \<open>
  The start of \<open>test/rpc_test.c\<close>, a node that only answers: its neighbors come from its arguments, and with
  more than one of them it starts with two peers in its table. As in \<open>main.c\<close>, an array of nodes is
  passed where an array of pointers to origins is expected.
\<close>

subsection \<open>The program\<close>

definition responder_neighbor :: "u16 \<Rightarrow> node_t" where
  "responder_neighbor port =
     zero_node\<lparr>n_id := char_array ID_SIZE ''69'', n_ip := char_array INET_ADDRSTRLEN ''localhost'', n_port := port\<rparr>"

definition responder_node :: "u16 \<Rightarrow> node_t" where
  "responder_node host_port =
     zero_node\<lparr>n_id := char_array ID_SIZE ''12'', n_ip := char_array INET_ADDRSTRLEN ''localhost'', n_port := host_port\<rparr>"

text \<open>The member of \<open>file_info\<close> is an array of 36 bytes, filled up with zeros.\<close>

definition responder_hash :: "u8 list" where
  "responder_hash = char_array ID_SIZE ''13''"

definition argument :: "u8 list list \<Rightarrow> nat \<Rightarrow> u8 list outcome" where
  "argument argv i =
     (if i < length argv then Inr (argv ! i) else if i = length argv then Inl Null_deref else Inl OOB_read)"

definition push_argument ::
    "node_t allocator \<Rightarrow> u8 list list \<Rightarrow> node_array option \<Rightarrow> nat \<Rightarrow> node_array option outcome" where
  "push_argument alc argv arr i =
     bind_res (argument argv (2 + i)) (\<lambda>a.
     case arr of
       None \<Rightarrow> Inl Null_deref
     | Some d \<Rightarrow>
         bind_res (push_node alc d (responder_neighbor (word_of_int (atoi a)))) (\<lambda>d. Inr (Some d)))"

definition seed_peers :: "(nat \<Rightarrow> peer_t allocator) \<Rightarrow> peer_table \<Rightarrow> peer_table outcome" where
  "seed_peers alc table =
     bind_res (set_peer (alc 0) table responder_hash
       \<lparr>p_ip = char_array INET_ADDRSTRLEN ''localhost'', p_port = 6969, p_job_id = char_array 16 ''THiS NODE?'',
        p_state = peer_state_code PASSIVE_ST\<rparr>) (\<lambda>table.
     bind_res (set_peer (alc 1) table responder_hash
       \<lparr>p_ip = char_array INET_ADDRSTRLEN ''localhost'', p_port = 4209, p_job_id = char_array 16 ''job!!'',
        p_state = peer_state_code LEECH_ST\<rparr>) (\<lambda>table.
     bind_res (get_peer_bucket table responder_hash) (\<lambda>bucket.
     case bucket of
       None \<Rightarrow> Inl (Exit (- 1))
     | Some i \<Rightarrow>
         bind_res (slot table i) (\<lambda>b.
         bind_res (print_peers_from_bucket b) (\<lambda>_. Inr table)))))"

text \<open>
  What the environment decides: headers and answers for the two arrays of nodes, how the words of a
  \<open>node_array\<close> read as pointers to origins and the origins in memory, the same for the peer table and the
  two peers, the result of \<open>bind\<close>, and the message buffer and the socket before the loop.
\<close>

record responder_env =
  w_mem :: "nat \<Rightarrow> node_array option"
  w_alc :: "nat \<Rightarrow> node_t allocator"
  w_view :: "node_array \<Rightarrow> origin_ptr list"
  w_st :: origin_store
  w_memp :: "nat \<Rightarrow> peer_bucket_t option"
  w_alcp :: "nat \<Rightarrow> peer_t allocator"
  w_alcs :: "nat \<Rightarrow> peer_t allocator"
  w_bind :: int
  w_msg :: rpc_msg
  w_net :: net

text \<open>\<open>main\<close> up to its loop: the status it returns, or the state and neighbors the loop starts with.\<close>

definition responder_main :: "responder_env \<Rightarrow> u8 list list \<Rightarrow> (int + rpc_ctx \<times> node_array) outcome" where
  "responder_main w argv =
     (if length argv < 1 then Inr (Inl (- 1))
      else
        bind_res (argument argv 0) (\<lambda>host.
        bind_res (argument argv 1) (\<lambda>amount.
        let host_port = atoi host; n_ports = atoi amount in
        bind_res (fold_res (push_argument (w_alc w 0) argv) (new_node_array (w_mem w 0) (w_alc w 0)) [0..<nat n_ports]) (\<lambda>nodes.
        if w_bind w = - 1 then Inl (Exit (- 1))
        else
          case (nodes, new_node_array (w_mem w 1) (w_alc w 1)) of
            (Some nodes, Some nbs) \<Rightarrow>
              bind_res (bootstrap_neigbors (w_alc w 1) (w_st w) (w_view w nodes) (unat (da_len nodes)) nbs) (\<lambda>(st, nbs).
              bind_res (compare_hash nbs (unat (da_len nbs)) responder_hash) (\<lambda>nbs.
              let node = responder_node (word_of_int host_port);
                  table = init_peer_table (w_memp w) (w_alcp w) (n_peer_table node) in
              bind_res (if 1 < n_ports then seed_peers (w_alcs w) table else Inr table) (\<lambda>table.
              Inr (Inr (\<lparr>x_node = node\<lparr>n_peer_table := table\<rparr>, x_msg = w_msg w, x_wait = False, x_net = w_net w\<rparr>, nbs)))))
          | _ \<Rightarrow> Inl Null_deref))))"

subsection \<open>Facts about the start\<close>

lemma pushed_arguments:
  assumes "fold_res (push_argument alc argv) (Some d) is = Inr res" "wf_nodes d" "na.tight d"
  shows "\<exists>d'. res = Some d' \<and> wf_nodes d' \<and> length (elems d') = length (elems d) + length is"
  using assms
proof (induction "is" arbitrary: d)
  case (Cons i "is")
  from Cons.prems(1) obtain r where r: "push_argument alc argv (Some d) i = Inr r" "fold_res (push_argument alc argv) r is = Inr res"
    by (auto simp: bind_res_eq_Inr)
  then obtain x e where e: "push_node alc d x = Inr e" "r = Some e"
    by (auto simp: push_argument_def bind_res_eq_Inr)
  note w = na.push_wf [OF Cons.prems(2) e(1)]
  have "na.tight e" using na.push_tight [OF Cons.prems(2) e(1) Cons.prems(3)] .
  then show ?case using Cons.IH [OF r(2) [unfolded e(2)] w(1)] w(2) by auto
qed auto

text \<open>With two ports or more the bootstrap reads outside the list; with none it has nothing to do.\<close>

lemma responder_stops:
  assumes "2 \<le> atoi amount"
  shows "responder_main w (host # amount # ports) \<noteq> Inr (Inr (s, nbs))"
proof
  let ?argv = "host # amount # ports"
  assume "responder_main w ?argv = Inr (Inr (s, nbs))"
  then obtain nodes d1 r where
    p: "fold_res (push_argument (w_alc w 0) ?argv) (new_node_array (w_mem w 0) (w_alc w 0)) [0..<nat (atoi amount)] = Inr (Some nodes)"
    and new: "new_node_array (w_mem w 1) (w_alc w 1) = Some d1"
    and r: "bootstrap_neigbors (w_alc w 1) (w_st w) (w_view w nodes) (unat (da_len nodes)) d1 = Inr r"
    by (auto simp: responder_main_def argument_def Let_def bind_res_eq_Inr split: option.splits if_splits)
  obtain d0 where d0: "new_node_array (w_mem w 0) (w_alc w 0) = Some d0"
  proof (cases "new_node_array (w_mem w 0) (w_alc w 0)")
    case None
    have "[0..<nat (atoi amount)] = 0 # [1..<nat (atoi amount)]" using assms by (simp add: upt_conv_Cons)
    then show ?thesis using p None by (simp add: push_argument_def bind_res_eq_Inr)
  qed
  note f0 = na.fresh_wf [OF d0] and f1 = na.fresh_wf [OF new]
  have tight: "na.tight d0" using f0(3) by (simp add: na.tight_def)
  have "wf_nodes nodes" "length (elems nodes) = nat (atoi amount)"
    using pushed_arguments [OF p [unfolded d0] f0(1) tight] f0(2) by auto
  then have "2 \<le> unat (da_len nodes)" using assms by simp
  then show False using bootstrap_two_fails [OF f1(1,2), of "unat (da_len nodes)"] f1(3) r by (simp add: INITIAL_CAP_def)
qed

lemma responder_alone:
  assumes "atoi amount \<le> 0" and "\<forall>i. w_mem w i \<noteq> None \<and> w_alc w i 288 \<noteq> None" and "w_bind w = 0"
    and "\<forall>i < MAX_PEER_BUCKETS. \<exists>m. w_memp w i = Some m \<and> \<not> da_active m \<and> w_alcp w i 80 \<noteq> None"
  shows "\<exists>s nbs. responder_main w (host # amount # ports) = Inr (Inr (s, nbs)) \<and> elems nbs = [] \<and> \<not> x_wait s \<and>
    (\<forall>i < MAX_PEER_BUCKETS. peers_at (x_table s) i = []) \<and> x_net s = w_net w \<and> n_port (x_node s) = word_of_int (atoi host)"
proof -
  obtain d0 d1 where new: "new_node_array (w_mem w 0) (w_alc w 0) = Some d0" "new_node_array (w_mem w 1) (w_alc w 1) = Some d1"
    using new_node_array_succeeds assms(2) by (metis not_None_eq)
  note f0 = na.fresh_wf [OF new(1)] and f1 = na.fresh_wf [OF new(2)]
  let ?t = "init_peer_table (w_memp w) (w_alcp w) (replicate MAX_PEER_BUCKETS None)"
  have t: "peers_at ?t i = []" if "i < MAX_PEER_BUCKETS" for i
    by (rule wf_table_init) (use assms(4) that in fastforce)+
  have boot: "bootstrap_neigbors (w_alc w 1) (w_st w) (w_view w d0) (unat (da_len d0)) d1 = Inr (w_st w, d1)"
    using f0(4) by (simp add: bootstrap_neigbors_def)
  have sort: "compare_hash d1 (unat (da_len d1)) responder_hash = Inr d1"
    using f1(4) by (simp add: compare_hash_def)
  have "responder_main w (host # amount # ports) =
    Inr (Inr (\<lparr>x_node = (responder_node (word_of_int (atoi host)))\<lparr>n_peer_table := ?t\<rparr>, x_msg = w_msg w, x_wait = False,
               x_net = w_net w\<rparr>, d1))"
    using assms(1,3) new new(2) [unfolded One_nat_def] boot sort
    by (simp add: responder_main_def argument_def Let_def responder_node_def zero_node_def)
  then show ?thesis using t f1(2) by (simp add: responder_node_def)
qed

text \<open>
  C25. What the responding node does with its list of neighbors. With two or more ports in its arguments it
  never reaches its loop, whatever the environment answers, since bootstrapping two nodes reads
  outside the list; so the two peers it would then store are never served. With none, and when every
  allocation and the bind of its socket succeed, it reaches the loop without neighbors, with an empty peer
  table and the port of its arguments, and has sent nothing.
\<close>

theorem responder_starts:
  shows "(2 \<le> atoi amount \<longrightarrow> \<not> (\<exists>s nbs. responder_main w (host # amount # ports) = Inr (Inr (s, nbs)))) \<and>
    (atoi amount \<le> 0 \<and> (\<forall>i. w_mem w i \<noteq> None \<and> w_alc w i 288 \<noteq> None) \<and> w_bind w = 0 \<and>
     (\<forall>i < MAX_PEER_BUCKETS. \<exists>m. w_memp w i = Some m \<and> \<not> da_active m \<and> w_alcp w i 80 \<noteq> None) \<longrightarrow>
      (\<exists>s nbs. responder_main w (host # amount # ports) = Inr (Inr (s, nbs)) \<and> elems nbs = [] \<and> \<not> x_wait s \<and>
         (\<forall>i < MAX_PEER_BUCKETS. peers_at (x_table s) i = []) \<and> x_net s = w_net w \<and>
         n_port (x_node s) = word_of_int (atoi host)))"
  using responder_stops responder_alone by blast

definition sample_responder :: responder_env where
  "sample_responder =
     \<lparr>w_mem = (\<lambda>_. Some no_nodes), w_alc = (\<lambda>_. zero_node_alloc), w_view = (\<lambda>_. []), w_st = [], w_memp = zero_mem,
      w_alcp = (\<lambda>_. zero_alloc), w_alcs = (\<lambda>_. zero_alloc), w_bind = 0, w_msg = zero_msg, w_net = online\<rparr>"

theorem responder_starts_witness:
  "(\<not> (\<exists>s nbs. responder_main sample_responder [lit ''3002'' @ [0], lit ''2'' @ [0], lit ''3000'' @ [0], lit ''3001'' @ [0]] =
      Inr (Inr (s, nbs)))) \<and>
   (\<exists>s nbs. responder_main sample_responder [lit ''6969'' @ [0], lit ''0'' @ [0]] = Inr (Inr (s, nbs)) \<and>
      elems nbs = [] \<and> n_port (x_node s) = 6969)"
proof -
  have env: "\<forall>i. w_mem sample_responder i \<noteq> None \<and> w_alc sample_responder i 288 \<noteq> None" "w_bind sample_responder = 0"
    "\<forall>i < MAX_PEER_BUCKETS. \<exists>m. w_memp sample_responder i = Some m \<and> \<not> da_active m \<and> w_alcp sample_responder i 80 \<noteq> None"
    by (simp_all add: sample_responder_def zero_node_alloc_def zero_mem_def)
  have "atoi (lit ''2'' @ [0]) = 2" "atoi (lit ''0'' @ [0]) = 0" "atoi (lit ''6969'' @ [0]) = 6969" by code_simp+
  then show ?thesis
    using responder_starts [of "lit ''2'' @ [0]" sample_responder "lit ''3002'' @ [0]" "[lit ''3000'' @ [0], lit ''3001'' @ [0]]"]
      responder_starts [of "lit ''0'' @ [0]" sample_responder "lit ''6969'' @ [0]" "[]"] env
    by auto
qed

end
