(* ===== verification/Main_Program.thy ===== *)
theory Main_Program
  imports Nodes
begin

text \<open>
  \<open>main.c\<close>, an earlier program than the test clients: it fills an array with nine nodes, bootstraps its
  neighbors from it, sorts them and prints every datagram it receives. The array of nodes is passed
  where \<open>bootstrap_neigbors\<close> expects an array of pointers to origins.
\<close>

subsection \<open>The program\<close>

definition known_node :: "string \<Rightarrow> u16 \<Rightarrow> node_t" where
  "known_node ident port =
     zero_node\<lparr>n_id := char_array ID_SIZE ident, n_ip := char_array INET_ADDRSTRLEN '''', n_port := port\<rparr>"

definition bootstrap_nodes :: "node_t list" where
  "bootstrap_nodes =
     [known_node ''55'' 5432, known_node ''10'' 4292, known_node ''30'' 3000, known_node ''29'' 7010, known_node ''24'' 7002,
      known_node ''40'' 5060, known_node ''49'' 5030, known_node ''19'' 6939, known_node ''11'' 6942]"

definition main_node :: node_t where
  "main_node =
     zero_node\<lparr>n_id := char_array ID_SIZE ''12'', n_ip := char_array INET_ADDRSTRLEN ''localhost'', n_port := 6969\<rparr>"

text \<open>The address of \<open>INADDR_ANY\<close> stays where \<open>inet_pton\<close> does not understand the text.\<close>

definition server_address :: "u16 \<times> u32" where
  "server_address =
     (htons (n_port main_node),
      (case inet_pton (cstr (n_ip main_node)) of None \<Rightarrow> 0 | Some a \<Rightarrow> a))"

definition print_id :: "node_array \<Rightarrow> nat \<Rightarrow> unit outcome" where
  "print_id nbs i =
     (if i < length (da_data nbs) then bind_res (c_str (n_id (da_data nbs ! i))) (\<lambda>_. Inr ()) else Inl OOB_read)"

text \<open>
  Up to the loop. \<open>mem\<close> and \<open>alc\<close> are what the two calls of \<open>new_node_array\<close> get; \<open>view\<close> is how the words
  of a \<open>node_array\<close> read as pointers to origins, and \<open>st\<close> the origins in memory; \<open>sock\<close> and \<open>bound\<close> are the
  results of \<open>socket\<close> and \<open>bind\<close>. The result is the list of neighbors.
\<close>

definition main_setup ::
    "(nat \<Rightarrow> node_array option) \<Rightarrow> (nat \<Rightarrow> node_t allocator) \<Rightarrow> (node_array \<Rightarrow> origin_ptr list) \<Rightarrow> origin_store \<Rightarrow>
       int \<Rightarrow> (u16 \<times> u32 \<Rightarrow> int) \<Rightarrow> node_array outcome" where
  "main_setup mem alc view st sock bound =
     (case new_node_array (mem 0) (alc 0) of
        None \<Rightarrow> Inl Null_deref
      | Some fresh \<Rightarrow>
          bind_res (fold_res (push_node (alc 0)) fresh bootstrap_nodes) (\<lambda>nodes.
          case new_node_array (mem 1) (alc 1) of
            None \<Rightarrow> Inl Null_deref
          | Some neighboring_nodes \<Rightarrow>
              bind_res (bootstrap_neigbors (alc 1) st (view nodes) (unat (da_len nodes)) neighboring_nodes) (\<lambda>(st, nbs).
              bind_res (fold_res (\<lambda>_ i. print_id nbs i) () [0..<unat (da_len nodes)]) (\<lambda>_.
              bind_res (compare_hash nbs (unat (da_len nbs)) (char_array 3 ''13'')) (\<lambda>nbs.
              if sock < 0 then Inl (Exit 1)
              else if bound server_address < 0 then Inl (Exit 1)
              else Inr nbs)))))"

text \<open>
  The loop over the results of \<open>recvfrom\<close>: an error ends it, a datagram goes to the start of the buffer,
  which is then printed up to a terminator. The flag says whether the loop still runs.
\<close>

fun main_loop :: "u8 list \<Rightarrow> u8 list option list \<Rightarrow> (bool \<times> u8 list) outcome" where
  "main_loop client_buf [] = Inr (True, client_buf)"
| "main_loop client_buf (None # rs) = Inr (False, client_buf)"
| "main_loop client_buf (Some bytes # rs) =
     (let client_buf = take (length client_buf) bytes @ drop (length bytes) client_buf in
      bind_res (c_str client_buf) (\<lambda>_. main_loop client_buf rs))"

subsection \<open>Properties\<close>

lemma bootstrap_array:
  assumes "new_node_array m a = Some fresh" "fold_res (push_node a) fresh bootstrap_nodes = Inr nodes"
  shows "unat (da_len nodes) = 9"
proof -
  note fr = na.fresh_wf [OF assms(1)]
  have "na.tight fresh" using fr(3) by (simp add: na.tight_def)
  from na.push_all_frame [OF fr(1) this assms(2)] have "wf_nodes nodes" "elems nodes = bootstrap_nodes"
    using fr(2) by simp_all
  then show ?thesis using length_elems [of sizeof_node nodes] by (simp add: bootstrap_nodes_def)
qed

text \<open>
  C26. The main program never receives a datagram: whatever the allocators grant, whatever the words of
  the node array mean as pointers and whatever is in memory there, it stops with a fault or with
  \<open>exit\<close> before its loop, since bootstrapping from nine nodes reads outside the list of neighbors.
\<close>

theorem main_never_listens:
  "\<nexists>nbs. main_setup mem alc view st sock bound = Inr nbs"
proof
  assume "\<exists>nbs. main_setup mem alc view st sock bound = Inr nbs"
  then obtain fresh nodes nbs r where f: "new_node_array (mem 0) (alc 0) = Some fresh"
      "fold_res (push_node (alc 0)) fresh bootstrap_nodes = Inr nodes" "new_node_array (mem 1) (alc 1) = Some nbs"
      "bootstrap_neigbors (alc 1) st (view nodes) (unat (da_len nodes)) nbs = Inr r"
    by (auto simp: main_setup_def bind_res_eq_Inr split: option.splits)
  note fr = na.fresh_wf [OF f(3)]
  have "bootstrap_neigbors (alc 1) st (view nodes) 9 nbs \<noteq> Inr r"
    using bootstrap_two_fails [OF fr(1,2)] fr(3) by (simp add: INITIAL_CAP_def)
  then show False using f(4) bootstrap_array [OF f(1,2)] by simp
qed

end
