(* ===== verification/Json_Minify.thy ===== *)
theory Json_Minify
  imports Json_Whole
begin

text \<open>
  \<open>cJSON_Minify\<close>, which removes blanks and comments from a text in place, and what it makes of the texts
  that the printer writes. The two pointers into the text are the indices of the bytes they point to:
  the one that reads is never behind the one that writes.
\<close>

subsection \<open>The code\<close>

definition write_at :: "u8 list \<Rightarrow> nat \<Rightarrow> u8 \<Rightarrow> u8 list outcome" where
  "write_at m i c = (if i < length m then Inr (m[i := c]) else Inl OOB_write)"

lemma write_at_Inr [simp]: "write_at m i c = Inr m' \<longleftrightarrow> i < length m \<and> m' = m[i := c]"
  by (auto simp: write_at_def)

function oneline_loop :: "u8 list \<Rightarrow> nat \<Rightarrow> nat outcome" where
  "oneline_loop m i =
     bind_res (byte_at m i) (\<lambda>c.
     if c = 0 then Inr i
     else if c = 0x0A then Inr (i + 1)
     else oneline_loop m (i + 1))"
  by pat_completeness auto
termination by (relation "measure (\<lambda>(m, i). length m - i)") auto

declare oneline_loop.simps [simp del]

definition skip_oneline_comment :: "u8 list \<Rightarrow> nat \<Rightarrow> nat outcome" where
  "skip_oneline_comment m i = oneline_loop m (i + 2)"

function multiline_loop :: "u8 list \<Rightarrow> nat \<Rightarrow> nat outcome" where
  "multiline_loop m i =
     bind_res (byte_at m i) (\<lambda>c.
     if c = 0 then Inr i
     else
       bind_res (if c = 0x2A then bind_res (byte_at m (i + 1)) (\<lambda>d. Inr (d = 0x2F)) else Inr False) (\<lambda>ends.
       if ends then Inr (i + 2) else multiline_loop m (i + 1)))"
  by pat_completeness auto
termination by (relation "measure (\<lambda>(m, i). length m - i)") auto

declare multiline_loop.simps [simp del]

definition skip_multiline_comment :: "u8 list \<Rightarrow> nat \<Rightarrow> nat outcome" where
  "skip_multiline_comment m i = multiline_loop m (i + 2)"

text \<open>The loop reads the current byte again after it has written it to the output.\<close>

function string_loop :: "u8 list \<Rightarrow> nat \<Rightarrow> nat \<Rightarrow> (u8 list \<times> nat \<times> nat) outcome" where
  "string_loop m i out =
     bind_res (byte_at m i) (\<lambda>c.
     if c = 0 then Inr (m, i, out)
     else
       bind_res (write_at m out c) (\<lambda>m1.
       bind_res (byte_at m1 i) (\<lambda>c.
       if c = 0x22 then bind_res (write_at m1 out 0x22) (\<lambda>m2. Inr (m2, i + 1, out + 1))
       else
         bind_res (if c = 0x5C then bind_res (byte_at m1 (i + 1)) (\<lambda>d. Inr (d = 0x22)) else Inr False) (\<lambda>quote.
         if quote then
           bind_res (byte_at m1 (i + 1)) (\<lambda>d.
           bind_res (write_at m1 (out + 1) d) (\<lambda>m2. string_loop m2 (i + 2) (out + 2)))
         else string_loop m1 (i + 1) (out + 1)))))"
  by pat_completeness auto
termination by (relation "measure (\<lambda>(m, i, out). length m - i)") auto

declare string_loop.simps [simp del]

definition minify_string :: "u8 list \<Rightarrow> nat \<Rightarrow> nat \<Rightarrow> (u8 list \<times> nat \<times> nat) outcome" where
  "minify_string m i out =
     bind_res (byte_at m i) (\<lambda>c.
     bind_res (write_at m out c) (\<lambda>m. string_loop m (i + 1) (out + 1)))"

lemma oneline_loop_forward: "oneline_loop m i = Inr j \<Longrightarrow> i \<le> j"
proof (induction m i rule: oneline_loop.induct)
  case (1 m i)
  then show ?case by (subst (asm) (2) oneline_loop.simps) (fastforce simp: bind_res_eq_Inr split: if_splits)
qed

lemma multiline_loop_forward: "multiline_loop m i = Inr j \<Longrightarrow> i \<le> j"
proof (induction m i rule: multiline_loop.induct)
  case (1 m i)
  then show ?case by (subst (asm) (2) multiline_loop.simps) (fastforce simp: bind_res_eq_Inr split: if_splits)
qed

lemma string_loop_forward: "string_loop m i out = Inr (m', j, k) \<Longrightarrow> i \<le> j \<and> length m' = length m"
proof (induction "length m - i" arbitrary: m i out rule: less_induct)
  case less
  have ih: "i \<le> j \<and> length m' = length m"
    if "string_loop n p q = Inr (m', j, k)" "length n = length m" "i < length m" "i < p" for n p q
    using less.hyps [of n p q] that by fastforce
  have b: "i < length m" using less.prems unfolding string_loop.simps [of m i out] by (auto simp: bind_res_eq_Inr)
  show ?case
  proof (cases "m ! i = 0 \<or> \<not> out < length m")
    case True
    then show ?thesis using less.prems b unfolding string_loop.simps [of m i out]
      by (auto simp: byte_at_less write_at_def split: if_splits)
  next
    case False
    then show ?thesis using less.prems b unfolding string_loop.simps [of m i out]
      by (auto simp: bind_res_eq_Inr split: if_splits dest!: ih)
  qed
qed

text \<open>The loop of \<open>cJSON_Minify\<close> and the terminator that it writes in the end.\<close>

function minify_loop :: "u8 list \<Rightarrow> nat \<Rightarrow> nat \<Rightarrow> u8 list outcome" where
  "minify_loop m i into =
     bind_res (byte_at m i) (\<lambda>c.
     if c = 0 then write_at m into 0
     else if c = 0x20 \<or> c = 0x09 \<or> c = 0x0D \<or> c = 0x0A then minify_loop m (i + 1) into
     else if c = 0x2F then
       bind_res (byte_at m (i + 1)) (\<lambda>d.
       if d = 0x2F then bind_res (skip_oneline_comment m i) (\<lambda>j. minify_loop m j into)
       else if d = 0x2A then bind_res (skip_multiline_comment m i) (\<lambda>j. minify_loop m j into)
       else minify_loop m (i + 1) into)
     else if c = 0x22 then bind_res (minify_string m i into) (\<lambda>(m, j, k). minify_loop m j k)
     else bind_res (write_at m into c) (\<lambda>m. minify_loop m (i + 1) (into + 1)))"
  by pat_completeness auto
termination
proof (relation "measure (\<lambda>(m, i, into). length m - i)")
  fix m :: "u8 list" and i into c d j
  assume "byte_at m i = Inr c" "skip_oneline_comment m i = Inr j"
  then show "((m, j, into), m, i, into) \<in> measure (\<lambda>(m, i, into). length m - i)"
    using oneline_loop_forward by (fastforce simp: skip_oneline_comment_def)
next
  fix m :: "u8 list" and i into c d j
  assume "byte_at m i = Inr c" "skip_multiline_comment m i = Inr j"
  then show "((m, j, into), m, i, into) \<in> measure (\<lambda>(m, i, into). length m - i)"
    using multiline_loop_forward by (fastforce simp: skip_multiline_comment_def)
next
  fix m :: "u8 list" and i into c x m' y j k
  assume "byte_at m i = Inr c" "minify_string m i into = Inr x" "(m', y) = x" "(j, k) = y"
  then show "((m', j, k), m, i, into) \<in> measure (\<lambda>(m, i, into). length m - i)"
    using string_loop_forward by (fastforce simp: minify_string_def bind_res_eq_Inr)
qed auto

declare minify_loop.simps [simp del]

definition cJSON_Minify :: "u8 list option \<Rightarrow> u8 list option outcome" where
  "cJSON_Minify json = (case json of None \<Rightarrow> Inr None | Some m \<Rightarrow> bind_res (minify_loop m 0 0) (\<lambda>m. Inr (Some m)))"

subsection \<open>What it leaves\<close>

fun after_line :: "u8 list \<Rightarrow> u8 list" where
  "after_line [] = []"
| "after_line (c # cs) = (if c = 0x0A then cs else after_line cs)"

fun after_comment :: "u8 list \<Rightarrow> u8 list" where
  "after_comment [] = []"
| "after_comment (c # cs) = (if c = 0x2A \<and> take 1 cs = [0x2F] then drop 1 cs else after_comment cs)"

text \<open>A string up to its closing quotation mark, as the loop finds it, and what follows.\<close>

fun quoted :: "u8 list \<Rightarrow> u8 list \<times> u8 list" where
  "quoted [] = ([], [])"
| "quoted (c # cs) =
     (if c = 0x22 then ([c], cs)
      else if c = 0x5C \<and> take 1 cs = [0x22] then (let (q, r) = quoted (drop 1 cs) in (c # 0x22 # q, r))
      else (let (q, r) = quoted cs in (c # q, r)))"

lemma length_after_line: "length (after_line cs) \<le> length cs"
  by (induction cs) auto

lemma length_after_comment: "length (after_comment cs) \<le> length cs"
  by (induction cs rule: after_comment.induct) auto

lemma length_quoted: "quoted cs = (q, r) \<Longrightarrow> length q + length r = length cs"
proof (induction cs arbitrary: q r rule: quoted.induct)
  case (2 c cs)
  then show ?case by (cases cs) (fastforce simp: Let_def split: if_splits prod.splits)+
qed simp

function minified :: "u8 list \<Rightarrow> u8 list" where
  "minified [] = []"
| "minified (c # cs) =
     (if c = 0x20 \<or> c = 0x09 \<or> c = 0x0D \<or> c = 0x0A then minified cs
      else if c = 0x2F then
        (if take 1 cs = [0x2F] then minified (after_line (drop 1 cs))
         else if take 1 cs = [0x2A] then minified (after_comment (drop 1 cs))
         else minified cs)
      else if c = 0x22 then c # fst (quoted cs) @ minified (snd (quoted cs))
      else c # minified cs)"
  by pat_completeness auto
termination
proof (relation "measure length")
  fix c cs
  show "(after_line (drop 1 cs), c # cs) \<in> measure length" for c :: u8
    using length_after_line [of "drop 1 cs"] by simp
  show "(after_comment (drop 1 cs), c # cs) \<in> measure length" for c :: u8
    using length_after_comment [of "drop 1 cs"] by simp
  show "(snd (quoted cs), c # cs) \<in> measure length" for c :: u8
    using length_quoted [of cs] by (cases "quoted cs") fastforce
qed simp_all

declare minified.simps(2) [simp del]

text \<open>
  The reading index stands at a byte of the string that is left, \<open>s\<close>, and the writing index is not
  beyond it: what follows is not changed by what is written.
\<close>

definition at :: "u8 list \<Rightarrow> nat \<Rightarrow> u8 list \<Rightarrow> bool" where
  "at m i s \<longleftrightarrow> 0 \<notin> set s \<and> (\<exists>r. drop i m = s @ 0 # r)"

lemma at_Nil: "at m i [] \<Longrightarrow> i < length m \<and> m ! i = 0"
  unfolding at_def by (metis append_Nil drop_all list.distinct(1) not_le hd_drop_conv_nth list.sel(1))

lemma at_Cons: "at m i (c # cs) \<Longrightarrow> i < length m \<and> m ! i = c \<and> c \<noteq> 0 \<and> at m (i + 1) cs"
proof -
  assume a: "at m i (c # cs)"
  then obtain r where r: "drop i m = c # cs @ 0 # r" by (auto simp: at_def)
  then have "i < length m" by (metis drop_all list.distinct(1) not_le)
  moreover have "m ! i = c" using r calculation by (metis hd_drop_conv_nth list.sel(1))
  moreover have "drop (i + 1) m = cs @ 0 # r" using r by (metis add.commute drop_drop drop_0 drop_Suc_Cons plus_1_eq_Suc)
  ultimately show ?thesis using a by (auto simp: at_def)
qed

lemma at_update: "at m i s \<Longrightarrow> k < i \<Longrightarrow> at (m[k := c]) i s"
  by (auto simp: at_def)

lemma at_byte: "at m i s \<Longrightarrow> byte_at m i = Inr (case s of [] \<Rightarrow> 0 | c # cs \<Rightarrow> c)"
  using at_Nil at_Cons by (cases s) auto

lemma oneline_after: "at m i s \<Longrightarrow> \<exists>j. oneline_loop m i = Inr j \<and> i \<le> j \<and> at m j (after_line s)"
proof (induction s arbitrary: i)
  case Nil
  then show ?case using at_Nil [of m i] by (subst oneline_loop.simps) (auto simp: byte_at_less)
next
  case (Cons c cs)
  note here = at_Cons [OF Cons.prems]
  then obtain j where "oneline_loop m (i + 1) = Inr j" "i + 1 \<le> j" "at m j (after_line cs)"
    using Cons.IH [of "i + 1"] by blast
  then show ?case using here by (subst oneline_loop.simps) (auto simp: byte_at_less)
qed

lemma multiline_after: "at m i s \<Longrightarrow> \<exists>j. multiline_loop m i = Inr j \<and> i \<le> j \<and> at m j (after_comment s)"
proof (induction s arbitrary: i)
  case Nil
  then show ?case using at_Nil [of m i] by (subst multiline_loop.simps) (auto simp: byte_at_less)
next
  case (Cons c cs)
  note here = at_Cons [OF Cons.prems]
  then obtain j where j: "multiline_loop m (i + 1) = Inr j" "i + 1 \<le> j" "at m j (after_comment cs)"
    using Cons.IH [of "i + 1"] by blast
  have look: "byte_at m (i + 1) = Inr (case cs of [] \<Rightarrow> 0 | d # _ \<Rightarrow> d)" using at_byte here by blast
  show ?case
  proof (cases "c = 0x2A \<and> take 1 cs = [0x2F]")
    case True
    then obtain r where r: "cs = 0x2F # r" by (cases cs) auto
    then have "at m (i + 2) r" using at_Cons [of m "i + 1" "0x2F" r] here by simp
    then show ?thesis using here True look r by (subst multiline_loop.simps) (auto simp: byte_at_less)
  next
    case False
    then show ?thesis using here look j by (subst multiline_loop.simps) (cases cs; auto simp: byte_at_less)
  qed
qed

lemma string_loop_quoted:
  assumes "at m i s" "out \<le> i"
  shows "\<exists>m' j. string_loop m i out = Inr (m', j, out + length (fst (quoted s))) \<and> length m' = length m \<and>
    take (out + length (fst (quoted s))) m' = take out m @ fst (quoted s) \<and> out + length (fst (quoted s)) \<le> j \<and>
    i \<le> j \<and> at m' j (snd (quoted s))"
  using assms
proof (induction s arbitrary: m i out rule: quoted.induct)
  case 1
  then show ?case using at_Nil [of m i] by (subst string_loop.simps) (auto simp: byte_at_less)
next
  case (2 c cs)
  note here = at_Cons [OF "2.prems"(1)]
  let ?m1 = "m[out := c]"
  have out: "out < length m" using "2.prems"(2) here by simp
  have same: "?m1 ! i = c" using here by (cases "out = i") auto
  have next1: "at ?m1 (i + 1) cs" using here at_update "2.prems"(2) by simp
  have take1: "take (out + 1) ?m1 = take out m @ [c]" using out by (simp add: take_Suc_conv_app_nth)
  have step: "string_loop m i out =
     (if c = 0x22 then Inr (?m1, i + 1, out + 1)
      else if c = 0x5C \<and> take 1 cs = [0x22] then string_loop (?m1[out + 1 := 0x22]) (i + 2) (out + 2)
      else string_loop ?m1 (i + 1) (out + 1))"
  proof -
    have b: "byte_at m i = Inr c" "write_at m out c = Inr ?m1" "byte_at ?m1 i = Inr c" "write_at ?m1 out 0x22 = Inr (?m1[out := 0x22])"
      using here out same by simp_all
    have d: "byte_at ?m1 (i + 1) = Inr (case cs of [] \<Rightarrow> 0 | d # _ \<Rightarrow> d)" using at_byte [OF next1] .
    have l: "out + 1 < length m" if "cs \<noteq> []"
      using that next1 at_Cons [of ?m1 "i + 1"] "2.prems"(2) by (cases cs) fastforce+
    show ?thesis unfolding string_loop.simps [of m i out] b bind_res_Inr d
      using here l by (cases cs) (auto simp: write_at_def)
  qed
  consider (quote) "c = 0x22" | (escape) r where "c = 0x5C" "cs = 0x22 # r"
    | (plain) "c \<noteq> 0x22" "\<not> (c = 0x5C \<and> take 1 cs = [0x22])"
    by (cases cs) auto
  then show ?case
  proof cases
    case quote
    then show ?thesis using step next1 take1 "2.prems"(2) by auto
  next
    case escape
    have next2: "at (?m1[out + 1 := 0x22]) (i + 2) r"
      using at_Cons [of ?m1 "i + 1" "0x22" r] next1 escape "2.prems"(2) at_update [of ?m1 "i + 2" r "out + 1"] by simp
    have out1: "out + 1 < length ?m1" using at_Cons [of ?m1 "i + 1" "0x22" r] next1 escape "2.prems"(2) by simp
    have take2: "take (out + 2) (?m1[out + 1 := 0x22]) = take out m @ [c, 0x22]"
      using take_Suc_conv_app_nth [of "out + 1" "?m1[out + 1 := 0x22]"] take1 out1 by simp
    have q: "quoted (c # cs) = (c # 0x22 # fst (quoted r), snd (quoted r))" using escape by (simp add: split_def Let_def)
    obtain m' j where "string_loop (?m1[out + 1 := 0x22]) (i + 2) (out + 2) = Inr (m', j, out + 2 + length (fst (quoted r)))"
      "length m' = length m" "take (out + 2 + length (fst (quoted r))) m' = take out m @ [c, 0x22] @ fst (quoted r)"
      "out + 2 + length (fst (quoted r)) \<le> j" "i + 2 \<le> j" "at m' j (snd (quoted r))"
      using "2.IH"(1) [of "?m1[out + 1 := 0x22]" "i + 2" "out + 2"] next2 escape "2.prems"(2) take2 by auto
    then show ?thesis unfolding q using step escape by (intro exI [of _ m'] exI [of _ j]) simp
  next
    case plain
    then have q: "quoted (c # cs) = (c # fst (quoted cs), snd (quoted cs))" by (auto simp: split_def Let_def)
    obtain m' j where "string_loop ?m1 (i + 1) (out + 1) = Inr (m', j, out + 1 + length (fst (quoted cs)))"
      "length m' = length m" "take (out + 1 + length (fst (quoted cs))) m' = take out m @ [c] @ fst (quoted cs)"
      "out + 1 + length (fst (quoted cs)) \<le> j" "i + 1 \<le> j" "at m' j (snd (quoted cs))"
      using "2.IH"(2) [of ?m1 "i + 1" "out + 1"] next1 plain "2.prems"(2) take1 by auto
    then show ?thesis unfolding q using step plain by (intro exI [of _ m'] exI [of _ j]) auto
  qed
qed

lemma minify_loop_minified:
  assumes "at m i s" "into \<le> i"
  shows "\<exists>m'. minify_loop m i into = Inr m' \<and> length m' = length m \<and>
    take (into + length (minified s) + 1) m' = take into m @ minified s @ [0] \<and> into + length (minified s) < length m"
  using assms
proof (induction s arbitrary: m i into rule: minified.induct)
  case 1
  then have "i < length m" "m ! i = 0" "into < length m" using at_Nil [of m i] by auto
  then show ?case by (subst minify_loop.simps) (simp add: byte_at_less write_at_def take_Suc_conv_app_nth)
next
  case (2 c cs)
  note here = at_Cons [OF "2.prems"(1)]
  have b: "byte_at m i = Inr c" using here by simp
  have look: "byte_at m (i + 1) = Inr (case cs of [] \<Rightarrow> 0 | d # _ \<Rightarrow> d)" using at_byte here by blast
  have rest: "at m (i + 2) (drop 1 cs)" if "take 1 cs \<noteq> []"
    using that here at_Cons [of m "i + 1"] by (cases cs) auto
  note loop = minify_loop.simps [of m i into, unfolded b bind_res_Inr look]
  consider (blank) "c = 0x20 \<or> c = 0x09 \<or> c = 0x0D \<or> c = 0x0A"
    | (line) r where "c = 0x2F" "cs = 0x2F # r" | (comment) r where "c = 0x2F" "cs = 0x2A # r"
    | (slash) "c = 0x2F" "take 1 cs \<noteq> [0x2F]" "take 1 cs \<noteq> [0x2A]"
    | (str) "c = 0x22" | (other) "c \<notin> {0x20, 0x09, 0x0D, 0x0A, 0x2F, 0x22}"
    by (cases cs) auto
  then show ?case
  proof cases
    case blank
    then have "minify_loop m i into = minify_loop m (i + 1) into" using loop here by auto
    then show ?thesis using "2.IH"(1) [OF blank, of m "i + 1" into] here blank "2.prems"(2)
      by (simp add: minified.simps(2))
  next
    case line
    then obtain j where j: "skip_oneline_comment m i = Inr j" "i + 2 \<le> j" "at m j (after_line r)"
      using oneline_after [of m "i + 2" r] rest by (auto simp: skip_oneline_comment_def)
    then have "minify_loop m i into = minify_loop m j into" using loop line by simp
    then show ?thesis using "2.IH"(2) [of m j into] j line "2.prems"(2) by (simp add: minified.simps(2))
  next
    case comment
    then obtain j where j: "skip_multiline_comment m i = Inr j" "i + 2 \<le> j" "at m j (after_comment r)"
      using multiline_after [of m "i + 2" r] rest by (auto simp: skip_multiline_comment_def)
    then have "minify_loop m i into = minify_loop m j into" using loop comment by simp
    then show ?thesis using "2.IH"(3) [of m j into] j comment "2.prems"(2) by (simp add: minified.simps(2))
  next
    case slash
    then have "minify_loop m i into = minify_loop m (i + 1) into" using loop by (cases cs) auto
    then show ?thesis using "2.IH"(4) [of m "i + 1" into] here slash "2.prems"(2) by (simp add: minified.simps(2))
  next
    case str
    have "at (m[into := c]) (i + 1) cs" using here at_update "2.prems"(2) by simp
    from string_loop_quoted [OF this, of "into + 1"] obtain m' j where q:
      "string_loop (m[into := c]) (i + 1) (into + 1) = Inr (m', j, into + 1 + length (fst (quoted cs)))" "length m' = length m"
      "take (into + 1 + length (fst (quoted cs))) m' = take (into + 1) (m[into := c]) @ fst (quoted cs)"
      "into + 1 + length (fst (quoted cs)) \<le> j" "at m' j (snd (quoted cs))"
      using "2.prems"(2) by auto
    have "into < length m" using here "2.prems"(2) by simp
    then have "minify_string m i into = Inr (m', j, into + 1 + length (fst (quoted cs)))"
      "take (into + 1) (m[into := c]) = take into m @ [c]"
      using q(1) here by (simp_all add: minify_string_def byte_at_less write_at_def take_Suc_conv_app_nth)
    then show ?thesis using "2.IH"(5) [of m' j "into + 1 + length (fst (quoted cs))"] q str loop
      by (auto simp: minified.simps(2) add.assoc)
  next
    case other
    have "into < length m" using here "2.prems"(2) by simp
    then have "minify_loop m i into = minify_loop (m[into := c]) (i + 1) (into + 1)"
      "take (into + 1) (m[into := c]) = take into m @ [c]"
      using loop other here by (auto simp: write_at_def take_Suc_conv_app_nth)
    moreover have "at (m[into := c]) (i + 1) cs" using here at_update "2.prems"(2) by simp
    ultimately show ?thesis using "2.IH"(6) [of "m[into := c]" "i + 1" "into + 1"] other "2.prems"(2)
      by (auto simp: minified.simps(2))
  qed
qed

subsection \<open>Texts of the printer\<close>

definition ends_well :: "u8 list option \<Rightarrow> bool" where
  "ends_well s \<longleftrightarrow> (\<forall>v. s = Some v \<longrightarrow> cstr v = [] \<or> last (cstr v) \<noteq> 0x5C)"

fun strings_end_well :: "cJSON \<Rightarrow> bool" where
  "strings_end_well (Item f cs) \<longleftrightarrow>
     (i_type f = cJSON_String \<longrightarrow> ends_well (i_valuestring f)) \<and>
     (i_type f = cJSON_Object \<longrightarrow> (\<forall>c \<in> set cs. ends_well (i_string (item_of c)))) \<and> list_all strings_end_well cs"

definition skipped_by :: "u8 list \<Rightarrow> u8 list \<Rightarrow> bool" where
  "skipped_by x y \<longleftrightarrow> (\<forall>w. minified (x @ w) = y @ minified w)"

lemma skipped_Nil: "skipped_by [] []"
  by (simp add: skipped_by_def)

lemma skipped_append: "skipped_by x y \<Longrightarrow> skipped_by x' y' \<Longrightarrow> skipped_by (x @ x') (y @ y')"
  by (simp add: skipped_by_def)

definition kept :: "u8 \<Rightarrow> bool" where
  "kept c \<longleftrightarrow> c \<notin> {0x20, 0x09, 0x0D, 0x0A, 0x2F, 0x22}"

lemma skipped_kept: "list_all kept x \<Longrightarrow> skipped_by x x"
  by (induction x) (auto simp: skipped_by_def minified.simps(2) kept_def)

lemma skipped_blank: "\<forall>c \<in> set x. c \<in> {0x20, 0x09, 0x0D, 0x0A} \<Longrightarrow> skipped_by x []"
  by (induction x) (auto simp: skipped_by_def minified.simps(2))

lemma quoted_plain: "c \<noteq> 0x22 \<Longrightarrow> c \<noteq> 0x5C \<Longrightarrow> quoted (c # w) = (c # fst (quoted w), snd (quoted w))"
  by (simp add: split_def Let_def)

lemma short_escape_facts:
  "short_escape c = Some e \<Longrightarrow> (e = 0x5C \<longleftrightarrow> c = 0x5C) \<and> (e = 0x22 \<longleftrightarrow> c = 0x22)"
  by (auto simp: short_escape_def split: if_splits)

lemma escape_quotes:
  obtains (plain) "escape c = [c]" "c \<noteq> 0x22" "c \<noteq> 0x5C"
  | (quote) "escape c = [0x5C, 0x22]" "c = 0x22"
  | (backslash) "escape c = [0x5C, 0x5C]" "c = 0x5C"
  | (other) e v where "escape c = 0x5C # e # v" "e \<noteq> 0x22" "list_all (\<lambda>b. b \<noteq> 0x22 \<and> b \<noteq> 0x5C) (e # v)" "c \<noteq> 0x5C"
proof (cases rule: escape_cases [of c])
  case plain
  then show thesis by (intro that(1))
next
  case (short e)
  have "short_escape c = Some e" using short(1) by (auto simp: escape_def split: option.splits if_splits)
  from short_escape_facts [OF this] show thesis
    using short(1) that(2,3) that(4) [of e "[]"] by (cases "c = 0x22"; cases "c = 0x5C") auto
next
  case (long a b)
  have "c \<noteq> 0x5C" using long(1) by (auto simp: escape_def short_escape_def)
  then show thesis using long(1,2,3) that(4) [of "0x75" "[0x30, 0x30, a, b]"] by simp
qed

lemma quoted_span: "list_all (\<lambda>b. b \<noteq> 0x22 \<and> b \<noteq> 0x5C) v \<Longrightarrow> quoted (v @ w) = (v @ fst (quoted w), snd (quoted w))"
  by (induction v) (simp_all add: split_def Let_def)

lemma escape_head: "take 1 (concat (map escape cs) @ x # w) = [0x22] \<Longrightarrow> cs = [] \<and> x = 0x22"
proof (cases cs)
  case (Cons c ds)
  then show "take 1 (concat (map escape cs) @ x # w) = [0x22] \<Longrightarrow> cs = [] \<and> x = 0x22"
    by (cases rule: escape_quotes [of c]) auto
qed auto

lemma quoted_escapes:
  "cs = [] \<or> last cs \<noteq> 0x5C \<Longrightarrow> quoted (concat (map escape cs) @ 0x22 # w) = (concat (map escape cs) @ [0x22], w)"
proof (induction cs)
  case (Cons c cs)
  let ?u = "concat (map escape cs) @ 0x22 # w"
  have ih: "quoted ?u = (concat (map escape cs) @ [0x22], w)" using Cons by (cases cs) auto
  show ?case
  proof (cases rule: escape_quotes [of c])
    case plain
    then show ?thesis using ih quoted_plain [of c ?u] by simp
  next
    case quote
    then show ?thesis using ih by (simp add: split_def Let_def)
  next
    case backslash
    then have "cs \<noteq> []" using Cons.prems by auto
    then have "take 1 ?u \<noteq> [0x22]" using escape_head by blast
    then show ?thesis using ih backslash by (simp add: split_def Let_def)
  next
    case (other e v)
    have "quoted (0x5C # (e # v) @ ?u) = (0x5C # (e # v) @ fst (quoted ?u), snd (quoted ?u))"
      using other(2) quoted_span [OF other(3), of ?u] by (simp add: split_def Let_def)
    then show ?thesis using ih other(1) by simp
  qed
qed simp

lemma skipped_string: "ends_well s \<Longrightarrow> skipped_by (render_string s) (render_string s)"
  using quoted_escapes by (auto simp: skipped_by_def render_string_def ends_well_def minified.simps(2) split: option.splits)

lemma skipped_number: "finite_double (i_valuedouble f) \<Longrightarrow> skipped_by (number_text f) (number_text f)"
proof (rule skipped_kept)
  assume "finite_double (i_valuedouble f)"
  then have "number_byte c \<or> c = 0x2E" if "c \<in> set (number_text f)" for c
    using numeral_bytes [OF numeral_number_text] that by blast
  moreover have "kept c" if "number_byte c \<or> c = 0x2E" for c
    using that by (auto simp: kept_def number_byte_def digit_def)
  ultimately show "list_all kept (number_text f)" by (auto simp: list_all_iff)
qed

lemma skipped_texts:
  "skipped_by (lit ''null'') (lit ''null'')" "skipped_by (lit ''true'') (lit ''true'')" "skipped_by (lit ''false'') (lit ''false'')"
  "skipped_by [0x5B] [0x5B]" "skipped_by [0x5D] [0x5D]"
  by (rule skipped_kept; simp add: lit_def kept_def)+

lemma skipped_layout:
  "skipped_by (open_object True) (open_object False)" "skipped_by (close_text True d) (close_text False k)"
  "skipped_by (separator True) (separator False)" "skipped_by (colon True) (colon False)"
  "skipped_by (member_end True v) (member_end False v)" "skipped_by (replicate d 0x09) []"
proof -
  have blank: "skipped_by [0x0A] []" "skipped_by [0x20] []" "skipped_by [0x09] []" "skipped_by (replicate d 0x09) []"
    by (rule skipped_blank; simp)+
  have kept: "skipped_by [c] [c]" if "kept c" for c using skipped_kept [of "[c]"] that by simp
  have k: "kept 0x7B" "kept 0x7D" "kept 0x2C" "kept 0x3A" by (simp_all add: kept_def)
  show "skipped_by (replicate d 0x09) []" by (rule blank(4))
  show "skipped_by (open_object True) (open_object False)" "skipped_by (separator True) (separator False)"
    "skipped_by (colon True) (colon False)"
    using skipped_append [OF kept [OF k(1)] blank(1)] skipped_append [OF kept [OF k(3)] blank(2)]
      skipped_append [OF kept [OF k(4)] blank(3)]
    by (simp_all add: open_object_def separator_def colon_def)
  show "skipped_by (close_text True d) (close_text False k)"
    using skipped_append [OF blank(4) kept [OF k(2)]] by (simp add: close_text_def)
  show "skipped_by (member_end True v) (member_end False v)"
    using skipped_append [OF kept [OF k(3)] blank(1)] blank(1) by (simp add: member_end_def)
qed

definition skipped_text :: "u8 list option \<Rightarrow> u8 list option \<Rightarrow> bool" where
  "skipped_text u v \<longleftrightarrow> (\<exists>x y. u = Some x \<and> v = Some y \<and> skipped_by x y)"

lemma skipped_text_Some [simp]: "skipped_text (Some x) (Some y) = skipped_by x y"
  by (simp add: skipped_text_def)

lemma skipped_cat: "skipped_text u v \<Longrightarrow> skipped_text u' v' \<Longrightarrow> skipped_text (cat u u') (cat v v')"
  by (auto simp: skipped_text_def skipped_append)

lemma skipped_elements:
  "(\<And>c. c \<in> set cs \<Longrightarrow> skipped_text (render True d c) (render False k c)) \<Longrightarrow>
   skipped_text (render_elements True d cs) (render_elements False k cs)"
  by (induction cs) (auto simp: skipped_Nil skipped_layout intro!: skipped_cat)

lemma skipped_members:
  "(\<And>c. c \<in> set cs \<Longrightarrow> skipped_text (render True d c) (render False k c) \<and> ends_well (i_string (item_of c))) \<Longrightarrow>
   skipped_text (render_members True d cs) (render_members False k cs)"
proof (induction cs)
  case (Cons c cs)
  have "skipped_by (replicate d 0x09 @ render_string (i_string (item_of c)) @ colon True) (render_string (i_string (item_of c)) @ colon False)"
    using skipped_append [OF skipped_layout(6) skipped_append [OF skipped_string skipped_layout(4)]] Cons.prems by fastforce
  then show ?case using Cons by (auto simp: skipped_layout intro!: skipped_cat)
qed (simp add: skipped_Nil)

lemma render_skipped:
  "well_typed t \<Longrightarrow> strings_end_well t \<Longrightarrow> skipped_text (render True d t) (render False k t)"
proof (induction t arbitrary: d k)
  case (Item f cs)
  have mask: "i_type f AND 0xFF = i_type f" using well_typed_mask Item.prems(1) by blast
  have kid: "skipped_text (render True d c) (render False k c)" if "c \<in> set cs" for c d k
    using Item.IH [OF that] Item.prems that by (auto simp: list_all_iff)
  consider (number) "i_type f = cJSON_Number" | (array) "i_type f = cJSON_Array" | (object) "i_type f = cJSON_Object"
    | (lit) "i_type f \<in> {cJSON_NULL, cJSON_False, cJSON_True}" | (str) "i_type f = cJSON_String"
    using Item.prems(1) by auto
  then show ?case
  proof cases
    case number
    then show ?thesis using skipped_number skipped_texts(1) number_text_null [of f]
      by (cases "finite_double (i_valuedouble f)") (simp_all add: Let_def)
  next
    case array
    then show ?thesis using skipped_elements [OF kid] by (simp add: Let_def skipped_texts skipped_cat)
  next
    case object
    then have "skipped_text (render_members True (d + 1) cs) (render_members False (k + 1) cs)"
      using skipped_members [of cs] kid Item.prems(2) by auto
    then show ?thesis using object by (simp add: Let_def skipped_layout skipped_cat)
  next
    case lit
    then show ?thesis using mask skipped_texts by (auto simp: Let_def)
  next
    case str
    then show ?thesis using skipped_string Item.prems(2) by (simp add: Let_def)
  qed
qed

subsection \<open>Properties\<close>

lemma minified_bytes: "set (minified s) \<subseteq> set s"
proof -
  have line: "set (after_line cs) \<subseteq> set cs" for cs by (induction cs) auto
  have comment: "set (after_comment cs) \<subseteq> set cs" for cs
    by (induction cs rule: after_comment.induct) (auto dest: in_set_dropD)
  have str: "set (fst (quoted cs)) \<subseteq> set cs \<and> set (snd (quoted cs)) \<subseteq> set cs" for cs
  proof (induction cs rule: quoted.induct)
    case (2 c cs)
    then show ?case by (cases cs) (auto simp: Let_def split_def split: if_splits)
  qed simp
  show ?thesis
  proof (induction s rule: minified.induct)
    case (2 c cs)
    then show ?case using line [of "drop 1 cs"] comment [of "drop 1 cs"] str [of cs] set_drop_subset [of 1 cs]
      unfolding minified.simps(2) by (auto 4 3 split: if_splits)
  qed simp
qed

lemma minify_text:
  assumes "0 \<in> set m"
  obtains m' where "cJSON_Minify (Some m) = Inr (Some m')" "length m' = length m" "cstr m' = minified (cstr m)" "0 \<in> set m'"
proof -
  have split: "m = cstr m @ 0 # drop (length (cstr m) + 1) m"
    using assms by (induction m) auto
  then have "at m 0 (cstr m)" using cstr_nonzero unfolding at_def by (metis drop0)
  then obtain m' where m': "minify_loop m 0 0 = Inr m'" "length m' = length m"
    "take (length (minified (cstr m)) + 1) m' = minified (cstr m) @ [0]"
    using minify_loop_minified [of m 0 "cstr m" 0] by auto
  have "0 \<notin> set (minified (cstr m))" using minified_bytes cstr_nonzero by blast
  moreover have "m' = minified (cstr m) @ 0 # drop (length (minified (cstr m)) + 1) m'"
    using m'(3) by (metis append.assoc append_Cons append_Nil append_take_drop_id)
  ultimately have "cstr m' = minified (cstr m)" "0 \<in> set m'"
    using cstr_no_zero by (metis, metis in_set_conv_decomp)
  then show thesis using that m' by (simp add: cJSON_Minify_def)
qed

text \<open>
  C35. On every terminated text \<open>cJSON_Minify\<close> returns, reads and writes only bytes of the text, keeps it
  terminated, and leaves the text without the blanks and comments outside its strings, as the pure
  function on the characters defines it.
\<close>

theorem minify_exact:
  assumes "0 \<in> set m"
  shows "\<exists>m'. cJSON_Minify (Some m) = Inr (Some m') \<and> length m' = length m \<and> 0 \<in> set m' \<and>
           cstr m' = minified (cstr m)"
  using minify_text [OF assms] by metis

theorem minify_exact_witness:
  "\<exists>m'. cJSON_Minify (Some (lit ''[1, //x'' @ [0x0A] @ lit '' 2]/**/'' @ [0, 7])) = Inr (Some m') \<and> cstr m' = lit ''[1,2]''"
proof -
  have "minified (cstr (lit ''[1, //x'' @ [0x0A] @ lit '' 2]/**/'' @ [0, 7])) = lit ''[1,2]''" by code_simp
  then show ?thesis using minify_exact [of "lit ''[1, //x'' @ [0x0A] @ lit '' 2]/**/'' @ [0, 7]"] by auto
qed

lemma sample_ends_well: "strings_end_well sample_object"
  by (simp add: sample_object_def zero_item_def ends_well_def char_array_def lit_def)

lemma sample_short: "length (the (render False 0 sample_object)) + 2 \<le> nat INT_MAX"
proof -
  have "render False 0 sample_object =
    Some ([0x7B, 0x22] @ lit ''ip'' @ [0x22, 0x3A, 0x22, 0x68, 0x5C, 0x6E, 0x5C, 0x22, 0x22, 0x2C, 0x22]
      @ lit ''port'' @ [0x22, 0x3A] @ lit ''3001'' @ [0x7D])"
    by code_simp
  then show ?thesis by (simp add: lit_def)
qed

text \<open>
  C36. \<open>cJSON_Minify\<close> turns the text of \<open>cJSON_Print\<close> into that of \<open>cJSON_PrintUnformatted\<close>, for every
  well-formed tree in which no name and no string ends in a backslash: the code takes the second of
  two backslashes in front of a closing quotation mark for the start of an escaped one.
\<close>

theorem minify_formatted:
  assumes "well_typed t" "printable t" "strings_end_well t" "granted h"
    and "length (the (render True 0 t)) + 2 \<le> nat INT_MAX" "length (the (render False 0 t)) + 2 \<le> nat INT_MAX"
  shows "\<exists>s h1 m u h2. cJSON_Print realloc mem (Some t) h = Inr (Some s, h1) \<and> cJSON_Minify (Some s) = Inr (Some m) \<and>
           cJSON_PrintUnformatted realloc mem (Some t) h1 = Inr (Some u, h2) \<and> cstr m = cstr u"
proof -
  obtain x y where xy: "render True 0 t = Some x" "render False 0 t = Some y" "skipped_by x y"
    using render_skipped [OF assms(1,3), of 0 0] by (auto simp: skipped_text_def)
  have clean: "0 \<notin> set x" "0 \<notin> set y"
    using render_clean(1) [OF assms(2), of True 0] render_clean(1) [OF assms(2), of False 0] xy by simp_all
  have "minified x = y" using xy(3) unfolding skipped_by_def by (metis append_Nil2 minified.simps(1))
  moreover have "cstr (x @ [0]) = x" "cstr (y @ [0]) = y" using clean cstr_no_zero by blast+
  moreover obtain m where "cJSON_Minify (Some (x @ [0])) = Inr (Some m)" "cstr m = minified (cstr (x @ [0]))"
    using minify_text [of "x @ [0]"] by auto
  moreover obtain h1 where "print realloc mem (Some t) True h = Inr (Some (x @ [0]), h1)" "granted h1"
    using print_granted [OF assms(2) xy(1) assms(4)] assms(5) xy(1) by (metis option.sel)
  moreover from this obtain h2 where "print realloc mem (Some t) False h1 = Inr (Some (y @ [0]), h2)"
    using print_granted [OF assms(2) xy(2)] assms(6) xy(2) by (metis option.sel)
  ultimately show ?thesis unfolding cJSON_Print_def cJSON_PrintUnformatted_def by metis
qed

theorem minify_formatted_witness:
  "\<exists>s h1 m u h2. cJSON_Print True (\<lambda>_ _. 0) (Some sample_object) plenty = Inr (Some s, h1) \<and> cJSON_Minify (Some s) = Inr (Some m) \<and>
     cJSON_PrintUnformatted True (\<lambda>_ _. 0) (Some sample_object) h1 = Inr (Some u, h2) \<and> cstr m = cstr u"
  by (rule minify_formatted [OF sample_ok(1) printable_sample sample_ends_well sample_ok(3,4) sample_short])

end
