(* ===== verification/Json_Links.thy ===== *)
theory Json_Links
  imports Json_Tree
begin

text \<open>
  The functions of the bundled JSON library that edit a tree in place: adding, inserting, detaching,
  replacing and deleting children. Here an item is a node in a store, with the pointers \<open>next\<close>, \<open>prev\<close>
  and \<open>child\<close> of the source; the \<open>prev\<close> pointer of a first child is the last child. The other
  theories see the same items as trees; \<open>Json_Edit\<close> relates the two.
\<close>

subsection \<open>Nodes and pointers\<close>

type_synonym addr = nat

record node =
  n_item :: item
  n_next :: "addr option"
  n_prev :: "addr option"
  n_child :: "addr option"

text \<open>
  New nodes get addresses that no node has had before; freed nodes leave the store, so that any use of
  one is a fault.
\<close>

record node_store =
  s_node :: "addr \<Rightarrow> node option"
  s_fresh :: addr
  s_heap :: heap

definition load :: "addr option \<Rightarrow> node_store \<Rightarrow> node outcome" where
  "load p s =
     (case p of
        None \<Rightarrow> Inl Null_deref
      | Some a \<Rightarrow> (case s_node s a of None \<Rightarrow> Inl OOB_read | Some n \<Rightarrow> Inr n))"

definition change :: "(node \<Rightarrow> node) \<Rightarrow> addr option \<Rightarrow> node_store \<Rightarrow> node_store outcome" where
  "change f p s = bind_res (load p s) (\<lambda>n. Inr (s\<lparr>s_node := (s_node s)(the p \<mapsto> f n)\<rparr>))"

definition next_of :: "addr option \<Rightarrow> node_store \<Rightarrow> addr option outcome" where
  "next_of p s = bind_res (load p s) (\<lambda>n. Inr (n_next n))"

definition prev_of :: "addr option \<Rightarrow> node_store \<Rightarrow> addr option outcome" where
  "prev_of p s = bind_res (load p s) (\<lambda>n. Inr (n_prev n))"

definition child_of :: "addr option \<Rightarrow> node_store \<Rightarrow> addr option outcome" where
  "child_of p s = bind_res (load p s) (\<lambda>n. Inr (n_child n))"

definition set_next :: "addr option \<Rightarrow> addr option \<Rightarrow> node_store \<Rightarrow> node_store outcome" where
  "set_next p q = change (\<lambda>n. n\<lparr>n_next := q\<rparr>) p"

definition set_prev :: "addr option \<Rightarrow> addr option \<Rightarrow> node_store \<Rightarrow> node_store outcome" where
  "set_prev p q = change (\<lambda>n. n\<lparr>n_prev := q\<rparr>) p"

definition set_child :: "addr option \<Rightarrow> addr option \<Rightarrow> node_store \<Rightarrow> node_store outcome" where
  "set_child p q = change (\<lambda>n. n\<lparr>n_child := q\<rparr>) p"

text \<open>A new node without children, from what one of the constructors returns.\<close>

definition place :: "cJSON option \<times> heap \<Rightarrow> node_store \<Rightarrow> addr option \<times> node_store" where
  "place created s =
     (case created of
        (None, h) \<Rightarrow> (None, s\<lparr>s_heap := h\<rparr>)
      | (Some t, h) \<Rightarrow>
          (Some (s_fresh s),
           s\<lparr>s_node := (s_node s)(s_fresh s \<mapsto> \<lparr>n_item = item_of t, n_next = None, n_prev = None, n_child = None\<rparr>),
             s_fresh := Suc (s_fresh s), s_heap := h\<rparr>))"

subsection \<open>Deleting\<close>

text \<open>
  \<open>cJSON_Delete\<close>: the loop over the chain of \<open>next\<close> pointers with the recursion over the children. The
  first argument bounds the nodes on a path through the recursion.
\<close>

fun delete_nodes :: "nat \<Rightarrow> addr option \<Rightarrow> node_store \<Rightarrow> node_store outcome" where
  "delete_nodes k None s = Inr s"
| "delete_nodes 0 (Some a) s = Inl Out_of_fuel"
| "delete_nodes (Suc k) (Some a) s =
     bind_res (load (Some a) s) (\<lambda>n.
     let next = n_next n in
     bind_res (if i_type (n_item n) AND cJSON_IsReference = 0 \<and> n_child n \<noteq> None then delete_nodes k (n_child n) s else Inr s) (\<lambda>s.
     bind_res (load (Some a) s) (\<lambda>n.
     let f = n_item n;
         h = free_if (i_type f AND cJSON_IsReference = 0 \<and> i_valuestring f \<noteq> None) (s_heap s);
         h = free_if (i_type f AND cJSON_StringIsConst = 0 \<and> i_string f \<noteq> None) h
     in delete_nodes k next (s\<lparr>s_node := (s_node s)(a := None), s_heap := deallocate h\<rparr>))))"

definition cJSON_Delete_at :: "addr option \<Rightarrow> node_store \<Rightarrow> node_store outcome" where
  "cJSON_Delete_at p s = delete_nodes (Suc (s_fresh s)) p s"

subsection \<open>Finding children\<close>

fun nth_node :: "addr option \<Rightarrow> nat \<Rightarrow> node_store \<Rightarrow> addr option outcome" where
  "nth_node None index s = Inr None"
| "nth_node (Some a) 0 s = Inr (Some a)"
| "nth_node (Some a) (Suc index) s = bind_res (next_of (Some a) s) (\<lambda>q. nth_node q index s)"

definition array_item_at :: "addr option \<Rightarrow> nat \<Rightarrow> node_store \<Rightarrow> addr option outcome" where
  "array_item_at array index s =
     (if array = None then Inr None else bind_res (child_of array s) (\<lambda>c. nth_node c index s))"

fun find_node :: "nat \<Rightarrow> bool \<Rightarrow> u8 list \<Rightarrow> addr option \<Rightarrow> node_store \<Rightarrow> addr option outcome" where
  "find_node k case_sensitive name None s = Inr None"
| "find_node 0 case_sensitive name (Some a) s = Inl Out_of_fuel"
| "find_node (Suc k) case_sensitive name (Some a) s =
     bind_res (load (Some a) s) (\<lambda>n.
     let key = i_string (n_item n) in
     bind_res
       (if case_sensitive then (case key of None \<Rightarrow> Inr 0 | Some key \<Rightarrow> strcmp name key)
        else case_insensitive_strcmp (Some name) key) (\<lambda>i.
     if i \<noteq> 0 then find_node k case_sensitive name (n_next n) s
     else Inr (if key = None then None else Some a)))"

definition object_item_at :: "addr option \<Rightarrow> u8 list option \<Rightarrow> bool \<Rightarrow> node_store \<Rightarrow> addr option outcome" where
  "object_item_at obj name case_sensitive s =
     (case name of
        None \<Rightarrow> Inr None
      | Some name \<Rightarrow>
          if obj = None then Inr None
          else bind_res (child_of obj s) (\<lambda>c. find_node (Suc (s_fresh s)) case_sensitive name c s))"

subsection \<open>Adding\<close>

definition suffix_object :: "addr option \<Rightarrow> addr option \<Rightarrow> node_store \<Rightarrow> node_store outcome" where
  "suffix_object prev it s = bind_res (set_next prev it s) (\<lambda>s. set_prev it prev s)"

definition create_reference :: "addr option \<Rightarrow> node_store \<Rightarrow> (addr option \<times> node_store) outcome" where
  "create_reference it s =
     (if it = None then Inr (None, s)
      else
        (case place (create_with id [] (s_heap s)) s of
           (None, s) \<Rightarrow> Inr (None, s)
         | (Some a, s) \<Rightarrow>
             bind_res (load it s) (\<lambda>n.
             bind_res
               (change (\<lambda>_. n\<lparr>n_item := (n_item n)\<lparr>i_string := None, i_type := i_type (n_item n) OR cJSON_IsReference\<rparr>,
                           n_next := None, n_prev := None\<rparr>) (Some a) s) (\<lambda>s.
             Inr (Some a, s)))))"

definition add_item_to_array :: "addr option \<Rightarrow> addr option \<Rightarrow> node_store \<Rightarrow> (bool \<times> node_store) outcome" where
  "add_item_to_array array it s =
     (if it = None \<or> array = None \<or> array = it then Inr (False, s)
      else
        bind_res (child_of array s) (\<lambda>c.
        if c = None then
          bind_res (set_child array it s) (\<lambda>s.
          bind_res (set_prev it it s) (\<lambda>s.
          bind_res (set_next it None s) (\<lambda>s. Inr (True, s))))
        else
          bind_res (prev_of c s) (\<lambda>last.
          if last = None then Inr (True, s)
          else
            bind_res (suffix_object last it s) (\<lambda>s.
            bind_res (child_of array s) (\<lambda>c.
            bind_res (set_prev c it s) (\<lambda>s. Inr (True, s)))))))"

definition cJSON_AddItemToArray :: "addr option \<Rightarrow> addr option \<Rightarrow> node_store \<Rightarrow> (bool \<times> node_store) outcome" where
  "cJSON_AddItemToArray array it s = add_item_to_array array it s"

definition free_name :: "item \<Rightarrow> heap \<Rightarrow> heap" where
  "free_name f h = free_if (i_type f AND cJSON_StringIsConst = 0 \<and> i_string f \<noteq> None) h"

definition add_item_to_object ::
    "addr option \<Rightarrow> u8 list option \<Rightarrow> addr option \<Rightarrow> bool \<Rightarrow> node_store \<Rightarrow> (bool \<times> node_store) outcome" where
  "add_item_to_object obj name it constant_key s =
     (if obj = None \<or> name = None \<or> it = None \<or> obj = it then Inr (False, s)
      else
        bind_res
          (if constant_key then Inr (name, s_heap s) else cJSON_strdup name (s_heap s)) (\<lambda>(new_key, h).
        let s = s\<lparr>s_heap := h\<rparr> in
        if new_key = None then Inr (False, s)
        else
          bind_res (load it s) (\<lambda>n.
          let f = n_item n;
              new_type = (if constant_key then i_type f OR cJSON_StringIsConst else i_type f AND NOT cJSON_StringIsConst);
              s = s\<lparr>s_heap := free_name f (s_heap s)\<rparr>
          in
          bind_res (change (\<lambda>n. n\<lparr>n_item := (n_item n)\<lparr>i_string := new_key, i_type := new_type\<rparr>\<rparr>) it s) (\<lambda>s.
          add_item_to_array obj it s))))"

definition cJSON_AddItemToObject ::
    "addr option \<Rightarrow> u8 list option \<Rightarrow> addr option \<Rightarrow> node_store \<Rightarrow> (bool \<times> node_store) outcome" where
  "cJSON_AddItemToObject obj name it s = add_item_to_object obj name it False s"

definition cJSON_AddItemToObjectCS ::
    "addr option \<Rightarrow> u8 list option \<Rightarrow> addr option \<Rightarrow> node_store \<Rightarrow> (bool \<times> node_store) outcome" where
  "cJSON_AddItemToObjectCS obj name it s = add_item_to_object obj name it True s"

definition cJSON_AddItemReferenceToArray :: "addr option \<Rightarrow> addr option \<Rightarrow> node_store \<Rightarrow> (bool \<times> node_store) outcome" where
  "cJSON_AddItemReferenceToArray array it s =
     (if array = None then Inr (False, s)
      else bind_res (create_reference it s) (\<lambda>(r, s). add_item_to_array array r s))"

definition cJSON_AddItemReferenceToObject ::
    "addr option \<Rightarrow> u8 list option \<Rightarrow> addr option \<Rightarrow> node_store \<Rightarrow> (bool \<times> node_store) outcome" where
  "cJSON_AddItemReferenceToObject obj name it s =
     (if obj = None \<or> name = None then Inr (False, s)
      else bind_res (create_reference it s) (\<lambda>(r, s). add_item_to_object obj name r False s))"

text \<open>The nine functions that create an item and add it under a name, or delete it again.\<close>

definition add_created ::
    "addr option \<Rightarrow> u8 list option \<Rightarrow> cJSON option \<times> heap \<Rightarrow> node_store \<Rightarrow> (addr option \<times> node_store) outcome" where
  "add_created obj name created s =
     (let (it, s) = place created s in
      bind_res (add_item_to_object obj name it False s) (\<lambda>(ok, s).
      if ok then Inr (it, s) else bind_res (cJSON_Delete_at it s) (\<lambda>s. Inr (None, s))))"

definition cJSON_AddNullToObject :: "addr option \<Rightarrow> u8 list option \<Rightarrow> node_store \<Rightarrow> (addr option \<times> node_store) outcome" where
  "cJSON_AddNullToObject obj name s = add_created obj name (cJSON_CreateNull (s_heap s)) s"

definition cJSON_AddTrueToObject :: "addr option \<Rightarrow> u8 list option \<Rightarrow> node_store \<Rightarrow> (addr option \<times> node_store) outcome" where
  "cJSON_AddTrueToObject obj name s = add_created obj name (cJSON_CreateTrue (s_heap s)) s"

definition cJSON_AddFalseToObject :: "addr option \<Rightarrow> u8 list option \<Rightarrow> node_store \<Rightarrow> (addr option \<times> node_store) outcome" where
  "cJSON_AddFalseToObject obj name s = add_created obj name (cJSON_CreateFalse (s_heap s)) s"

definition cJSON_AddBoolToObject ::
    "addr option \<Rightarrow> u8 list option \<Rightarrow> bool \<Rightarrow> node_store \<Rightarrow> (addr option \<times> node_store) outcome" where
  "cJSON_AddBoolToObject obj name b s = add_created obj name (cJSON_CreateBool b (s_heap s)) s"

definition cJSON_AddNumberToObject ::
    "addr option \<Rightarrow> u8 list option \<Rightarrow> double \<Rightarrow> node_store \<Rightarrow> (addr option \<times> node_store) outcome" where
  "cJSON_AddNumberToObject obj name number s = add_created obj name (cJSON_CreateNumber number (s_heap s)) s"

definition cJSON_AddStringToObject ::
    "addr option \<Rightarrow> u8 list option \<Rightarrow> u8 list option \<Rightarrow> node_store \<Rightarrow> (addr option \<times> node_store) outcome" where
  "cJSON_AddStringToObject obj name str s =
     bind_res (cJSON_CreateString str (s_heap s)) (\<lambda>created. add_created obj name created s)"

definition cJSON_AddRawToObject ::
    "addr option \<Rightarrow> u8 list option \<Rightarrow> u8 list option \<Rightarrow> node_store \<Rightarrow> (addr option \<times> node_store) outcome" where
  "cJSON_AddRawToObject obj name raw s =
     bind_res (cJSON_CreateRaw raw (s_heap s)) (\<lambda>created. add_created obj name created s)"

definition cJSON_AddObjectToObject :: "addr option \<Rightarrow> u8 list option \<Rightarrow> node_store \<Rightarrow> (addr option \<times> node_store) outcome" where
  "cJSON_AddObjectToObject obj name s = add_created obj name (cJSON_CreateObject (s_heap s)) s"

definition cJSON_AddArrayToObject :: "addr option \<Rightarrow> u8 list option \<Rightarrow> node_store \<Rightarrow> (addr option \<times> node_store) outcome" where
  "cJSON_AddArrayToObject obj name s = add_created obj name (cJSON_CreateArray (s_heap s)) s"

subsection \<open>Detaching\<close>

definition cJSON_DetachItemViaPointer ::
    "addr option \<Rightarrow> addr option \<Rightarrow> node_store \<Rightarrow> (addr option \<times> node_store) outcome" where
  "cJSON_DetachItemViaPointer parent it s =
     (if parent = None \<or> it = None then Inr (None, s)
      else
        bind_res (child_of parent s) (\<lambda>c.
        bind_res (prev_of it s) (\<lambda>prev.
        if it \<noteq> c \<and> prev = None then Inr (None, s)
        else
          bind_res (if it \<noteq> c then bind_res (next_of it s) (\<lambda>q. set_next prev q s) else Inr s) (\<lambda>s.
          bind_res (next_of it s) (\<lambda>q.
          bind_res (if q \<noteq> None then bind_res (prev_of it s) (\<lambda>prev. set_prev q prev s) else Inr s) (\<lambda>s.
          bind_res (child_of parent s) (\<lambda>c.
          bind_res (next_of it s) (\<lambda>q.
          bind_res
            (if it = c then set_child parent q s
             else if q = None then bind_res (prev_of it s) (\<lambda>prev. set_prev c prev s)
             else Inr s) (\<lambda>s.
          bind_res (set_prev it None s) (\<lambda>s.
          bind_res (set_next it None s) (\<lambda>s. Inr (it, s))))))))))))"

definition cJSON_DetachItemFromArray :: "addr option \<Rightarrow> int \<Rightarrow> node_store \<Rightarrow> (addr option \<times> node_store) outcome" where
  "cJSON_DetachItemFromArray array which s =
     (if which < 0 then Inr (None, s)
      else bind_res (array_item_at array (nat which) s) (\<lambda>it. cJSON_DetachItemViaPointer array it s))"

definition cJSON_DeleteItemFromArray :: "addr option \<Rightarrow> int \<Rightarrow> node_store \<Rightarrow> node_store outcome" where
  "cJSON_DeleteItemFromArray array which s =
     bind_res (cJSON_DetachItemFromArray array which s) (\<lambda>(it, s). cJSON_Delete_at it s)"

definition cJSON_DetachItemFromObject ::
    "addr option \<Rightarrow> u8 list option \<Rightarrow> node_store \<Rightarrow> (addr option \<times> node_store) outcome" where
  "cJSON_DetachItemFromObject obj name s =
     bind_res (object_item_at obj name False s) (\<lambda>it. cJSON_DetachItemViaPointer obj it s)"

definition cJSON_DetachItemFromObjectCaseSensitive ::
    "addr option \<Rightarrow> u8 list option \<Rightarrow> node_store \<Rightarrow> (addr option \<times> node_store) outcome" where
  "cJSON_DetachItemFromObjectCaseSensitive obj name s =
     bind_res (object_item_at obj name True s) (\<lambda>it. cJSON_DetachItemViaPointer obj it s)"

definition cJSON_DeleteItemFromObject :: "addr option \<Rightarrow> u8 list option \<Rightarrow> node_store \<Rightarrow> node_store outcome" where
  "cJSON_DeleteItemFromObject obj name s =
     bind_res (cJSON_DetachItemFromObject obj name s) (\<lambda>(it, s). cJSON_Delete_at it s)"

definition cJSON_DeleteItemFromObjectCaseSensitive :: "addr option \<Rightarrow> u8 list option \<Rightarrow> node_store \<Rightarrow> node_store outcome" where
  "cJSON_DeleteItemFromObjectCaseSensitive obj name s =
     bind_res (cJSON_DetachItemFromObjectCaseSensitive obj name s) (\<lambda>(it, s). cJSON_Delete_at it s)"

subsection \<open>Inserting and replacing\<close>

definition cJSON_InsertItemInArray :: "addr option \<Rightarrow> int \<Rightarrow> addr option \<Rightarrow> node_store \<Rightarrow> (bool \<times> node_store) outcome" where
  "cJSON_InsertItemInArray array which newitem s =
     (if which < 0 \<or> newitem = None then Inr (False, s)
      else
        bind_res (array_item_at array (nat which) s) (\<lambda>after.
        if after = None then add_item_to_array array newitem s
        else
          bind_res (child_of array s) (\<lambda>c.
          bind_res (prev_of after s) (\<lambda>prev.
          if after \<noteq> c \<and> prev = None then Inr (False, s)
          else
            bind_res (set_next newitem after s) (\<lambda>s.
            bind_res (prev_of after s) (\<lambda>prev.
            bind_res (set_prev newitem prev s) (\<lambda>s.
            bind_res (set_prev after newitem s) (\<lambda>s.
            bind_res (child_of array s) (\<lambda>c.
            bind_res
              (if after = c then set_child array newitem s
               else bind_res (prev_of newitem s) (\<lambda>prev. set_next prev newitem s)) (\<lambda>s.
            Inr (True, s)))))))))))"

definition cJSON_ReplaceItemViaPointer ::
    "addr option \<Rightarrow> addr option \<Rightarrow> addr option \<Rightarrow> node_store \<Rightarrow> (bool \<times> node_store) outcome" where
  "cJSON_ReplaceItemViaPointer parent it replacement s =
     (if parent = None then Inr (False, s)
      else
        bind_res (child_of parent s) (\<lambda>c.
        if c = None \<or> replacement = None \<or> it = None then Inr (False, s)
        else if replacement = it then Inr (True, s)
        else
          bind_res (next_of it s) (\<lambda>q.
          bind_res (set_next replacement q s) (\<lambda>s.
          bind_res (prev_of it s) (\<lambda>prev.
          bind_res (set_prev replacement prev s) (\<lambda>s.
          bind_res (next_of replacement s) (\<lambda>q.
          bind_res (if q \<noteq> None then set_prev q replacement s else Inr s) (\<lambda>s.
          bind_res (child_of parent s) (\<lambda>c.
          bind_res
            (if c = it then
               bind_res (prev_of c s) (\<lambda>last.
               bind_res (if last = c then set_prev replacement replacement s else Inr s) (\<lambda>s.
               set_child parent replacement s))
             else
               bind_res (prev_of replacement s) (\<lambda>prev.
               bind_res (if prev \<noteq> None then set_next prev replacement s else Inr s) (\<lambda>s.
               bind_res (next_of replacement s) (\<lambda>q.
               if q = None then bind_res (child_of parent s) (\<lambda>c. set_prev c replacement s) else Inr s)))) (\<lambda>s.
          bind_res (set_next it None s) (\<lambda>s.
          bind_res (set_prev it None s) (\<lambda>s.
          bind_res (cJSON_Delete_at it s) (\<lambda>s. Inr (True, s))))))))))))))"

definition cJSON_ReplaceItemInArray :: "addr option \<Rightarrow> int \<Rightarrow> addr option \<Rightarrow> node_store \<Rightarrow> (bool \<times> node_store) outcome" where
  "cJSON_ReplaceItemInArray array which newitem s =
     (if which < 0 then Inr (False, s)
      else bind_res (array_item_at array (nat which) s) (\<lambda>it. cJSON_ReplaceItemViaPointer array it newitem s))"

definition replace_item_in_object ::
    "addr option \<Rightarrow> u8 list option \<Rightarrow> addr option \<Rightarrow> bool \<Rightarrow> node_store \<Rightarrow> (bool \<times> node_store) outcome" where
  "replace_item_in_object obj name replacement case_sensitive s =
     (if replacement = None \<or> name = None then Inr (False, s)
      else
        bind_res (load replacement s) (\<lambda>n.
        bind_res (cJSON_strdup name (free_name (n_item n) (s_heap s))) (\<lambda>(key, h).
        bind_res (change (\<lambda>n. n\<lparr>n_item := (n_item n)\<lparr>i_string := key\<rparr>\<rparr>) replacement (s\<lparr>s_heap := h\<rparr>)) (\<lambda>s.
        if key = None then Inr (False, s)
        else
          bind_res
            (change (\<lambda>n. n\<lparr>n_item := (n_item n)\<lparr>i_type := i_type (n_item n) AND NOT cJSON_StringIsConst\<rparr>\<rparr>) replacement s) (\<lambda>s.
          bind_res (object_item_at obj name case_sensitive s) (\<lambda>it.
          cJSON_ReplaceItemViaPointer obj it replacement s))))))"

definition cJSON_ReplaceItemInObject ::
    "addr option \<Rightarrow> u8 list option \<Rightarrow> addr option \<Rightarrow> node_store \<Rightarrow> (bool \<times> node_store) outcome" where
  "cJSON_ReplaceItemInObject obj name newitem s = replace_item_in_object obj name newitem False s"

definition cJSON_ReplaceItemInObjectCaseSensitive ::
    "addr option \<Rightarrow> u8 list option \<Rightarrow> addr option \<Rightarrow> node_store \<Rightarrow> (bool \<times> node_store) outcome" where
  "cJSON_ReplaceItemInObjectCaseSensitive obj name newitem s = replace_item_in_object obj name newitem True s"

end
