(* ===== verification/Json_Chain.thy ===== *)
theory Json_Chain
  imports Json_Links
begin

text \<open>
  What the editing functions do to the chain of children of an item: each is an operation on the list of
  their addresses, and touches nothing but the pointers of the nodes next to the place it edits.
\<close>

subsection \<open>Chains\<close>

definition head :: "addr list \<Rightarrow> addr option \<Rightarrow> addr option" where
  "head as q = (case as of [] \<Rightarrow> q | a # _ \<Rightarrow> Some a)"

definition final :: "addr option \<Rightarrow> addr list \<Rightarrow> addr option" where
  "final p as = (if as = [] then p else Some (last as))"

text \<open>The nodes \<open>as\<close>, linked in both directions, with \<open>p\<close> before the first and \<open>q\<close> behind the last.\<close>

fun seg :: "(addr \<Rightarrow> node option) \<Rightarrow> addr option \<Rightarrow> addr list \<Rightarrow> addr option \<Rightarrow> bool" where
  "seg m p [] q \<longleftrightarrow> True"
| "seg m p (a # as) q \<longleftrightarrow>
     (\<exists>n. m a = Some n \<and> n_prev n = p \<and> n_next n = head as q) \<and> seg m (Some a) as q"

definition children :: "(addr \<Rightarrow> node option) \<Rightarrow> addr \<Rightarrow> addr list \<Rightarrow> bool" where
  "children m p as \<longleftrightarrow>
     distinct (p # as) \<and> (\<exists>n. m p = Some n \<and> n_child n = head as None) \<and> seg m (final None as) as None"

definition loose :: "(addr \<Rightarrow> node option) \<Rightarrow> addr \<Rightarrow> bool" where
  "loose m x \<longleftrightarrow> (\<exists>n. m x = Some n \<and> n_next n = None \<and> n_prev n = None)"

text \<open>
  From one store to the other only the links between siblings changed, only in the nodes of \<open>A\<close>, and
  the child pointer of \<open>p\<close>.
\<close>

definition relinked :: "addr \<Rightarrow> addr set \<Rightarrow> node_store \<Rightarrow> node_store \<Rightarrow> bool" where
  "relinked p A s s' \<longleftrightarrow>
     s_heap s' = s_heap s \<and> s_fresh s' = s_fresh s \<and>
     (\<forall>a. a \<notin> insert p A \<longrightarrow> s_node s' a = s_node s a) \<and>
     (\<forall>a. map_option n_item (s_node s' a) = map_option n_item (s_node s a)) \<and>
     (\<forall>a. a \<noteq> p \<longrightarrow> map_option n_child (s_node s' a) = map_option n_child (s_node s a)) \<and>
     (p \<notin> A \<longrightarrow> map_option n_next (s_node s' p) = map_option n_next (s_node s p) \<and>
       map_option n_prev (s_node s' p) = map_option n_prev (s_node s p))"

lemma head_simps [simp]: "head [] q = q" "head (a # as) q = Some a"
  by (simp_all add: head_def)

lemma head_append: "head (as @ bs) q = head as (head bs q)"
  by (cases as) simp_all

lemma final_simps [simp]: "final p [] = p" "final p (as @ [a]) = Some a" "final p (a # as) = final (Some a) as"
  by (auto simp: final_def)

lemma final_append [simp]: "final p (as @ bs) = final (final p as) bs"
  by (auto simp: final_def)

lemma seg_append: "seg m p (as @ bs) q \<longleftrightarrow> seg m p as (head bs q) \<and> seg m (final p as) bs q"
  by (induction as arbitrary: p) (auto simp: head_append)

lemma seg_frame [simp]: "a \<notin> set as \<Longrightarrow> seg (m(a := x)) p as q = seg m p as q"
  by (induction as arbitrary: p) auto

lemma seg_member: "seg m p as q \<Longrightarrow> a \<in> set as \<Longrightarrow> \<exists>n. m a = Some n"
  by (induction as arbitrary: p) auto

lemma children_member:
  assumes "children m p as" "a \<in> set as"
  shows "\<exists>n. m a = Some n \<and> n_prev n \<noteq> None" "a \<noteq> p"
proof -
  have "\<exists>n. m a = Some n \<and> n_prev n \<noteq> None" if "seg m u bs q" "a \<in> set bs" "u \<noteq> None" for u bs q
    using that by (induction bs arbitrary: u) auto
  moreover have "final None as \<noteq> None" using assms(2) by (auto simp: final_def)
  ultimately show "\<exists>n. m a = Some n \<and> n_prev n \<noteq> None" using assms unfolding children_def by blast
  show "a \<noteq> p" using assms by (auto simp: children_def)
qed

lemma loose_not_member: "children m p as \<Longrightarrow> loose m x \<Longrightarrow> x \<notin> set as"
  using children_member(1) by (fastforce simp: loose_def)

lemmas pointer_ops = load_def change_def next_of_def prev_of_def child_of_def set_next_def set_prev_def set_child_def suffix_object_def

text \<open>Following the chain finds the child of an index.\<close>

lemma nth_node_seg:
  "seg (s_node s) p as None \<Longrightarrow> nth_node (head as None) i s = Inr (if i < length as then Some (as ! i) else None)"
proof (induction as arbitrary: p i)
  case (Cons a as)
  then show ?case by (cases i) (auto simp: pointer_ops)
qed simp

lemma array_item_children:
  "children (s_node s) p as \<Longrightarrow> array_item_at (Some p) i s = Inr (if i < length as then Some (as ! i) else None)"
  using nth_node_seg [of s "final None as" as i] by (auto simp: array_item_at_def children_def pointer_ops)

subsection \<open>Adding\<close>

lemma add_children:
  assumes "children (s_node s) p as" "loose (s_node s) x" "x \<noteq> p"
  obtains s' where "add_item_to_array (Some p) (Some x) s = Inr (True, s')" "children (s_node s') p (as @ [x])"
    "relinked p (insert x (set as)) s s'"
proof -
  have x: "x \<notin> set as" by (rule loose_not_member [OF assms(1,2)])
  obtain n where n: "s_node s p = Some n" "n_child n = head as None" "distinct as" "p \<notin> set as"
    using assms(1) by (auto simp: children_def)
  obtain k where k: "s_node s x = Some k" "n_next k = None" "n_prev k = None" using assms(2) by (auto simp: loose_def)
  have seg: "seg (s_node s) (final None as) as None" using assms(1) by (simp add: children_def)
  show thesis
  proof (cases as)
    case Nil
    let ?m = "(s_node s)(p \<mapsto> n\<lparr>n_child := Some x\<rparr>, x \<mapsto> k\<lparr>n_prev := Some x\<rparr>, x \<mapsto> k\<lparr>n_prev := Some x, n_next := None\<rparr>)"
    show thesis
    proof (rule that [of "s\<lparr>s_node := ?m\<rparr>"])
      show "add_item_to_array (Some p) (Some x) s = Inr (True, s\<lparr>s_node := ?m\<rparr>)"
        using n k assms(3) Nil by (auto simp: add_item_to_array_def pointer_ops)
      show "children (s_node (s\<lparr>s_node := ?m\<rparr>)) p (as @ [x])"
        using n k assms(3) Nil by (auto simp: children_def)
      show "relinked p (insert x (set as)) s (s\<lparr>s_node := ?m\<rparr>)"
        using n k assms(3) Nil by (auto simp: relinked_def)
    qed
  next
    case (Cons c cs)
    show thesis
    proof (cases cs rule: rev_cases)
      case Nil
      obtain nc where nc: "s_node s c = Some nc" "n_prev nc = Some c" "n_next nc = None" using seg Cons Nil by auto
      have c: "c \<noteq> p" "c \<noteq> x" using n x Cons by auto
      let ?c = "nc\<lparr>n_next := Some x\<rparr>"
      let ?m = "(s_node s)(c \<mapsto> ?c, x \<mapsto> k\<lparr>n_prev := Some c\<rparr>, c \<mapsto> ?c\<lparr>n_prev := Some x\<rparr>)"
      show thesis
      proof (rule that [of "s\<lparr>s_node := ?m\<rparr>"])
        show "add_item_to_array (Some p) (Some x) s = Inr (True, s\<lparr>s_node := ?m\<rparr>)"
          using n k nc c assms(3) Cons Nil by (auto simp: add_item_to_array_def pointer_ops)
        show "children (s_node (s\<lparr>s_node := ?m\<rparr>)) p (as @ [x])"
          using n k nc c assms(3) Cons Nil by (auto simp: children_def)
        show "relinked p (insert x (set as)) s (s\<lparr>s_node := ?m\<rparr>)"
          using n k nc c assms(3) Cons Nil by (auto simp: relinked_def)
      qed
    next
      case (snoc ds l)
      obtain nc where nc: "s_node s c = Some nc" "n_prev nc = Some l" "n_next nc = head ds (Some l)"
        using seg Cons snoc by (auto simp: head_append)
      obtain nl where nl: "s_node s l = Some nl" "n_next nl = None" "n_prev nl = final (Some c) ds"
        using seg Cons snoc by (auto simp: seg_append)
      have d: "c \<noteq> p" "c \<noteq> x" "l \<noteq> p" "l \<noteq> x" "c \<noteq> l" "c \<notin> set ds" "l \<notin> set ds" "x \<notin> set ds" using n x Cons snoc by auto
      have mid: "seg (s_node s) (Some c) ds (Some l)" using seg Cons snoc by (auto simp: seg_append)
      let ?m = "(s_node s)(l \<mapsto> nl\<lparr>n_next := Some x\<rparr>, x \<mapsto> k\<lparr>n_prev := Some l\<rparr>, c \<mapsto> nc\<lparr>n_prev := Some x\<rparr>)"
      show thesis
      proof (rule that [of "s\<lparr>s_node := ?m\<rparr>"])
        show "add_item_to_array (Some p) (Some x) s = Inr (True, s\<lparr>s_node := ?m\<rparr>)"
          using n k nc nl d assms(3) Cons snoc by (auto simp: add_item_to_array_def pointer_ops)
        show "children (s_node (s\<lparr>s_node := ?m\<rparr>)) p (as @ [x])"
          using n k nc nl d mid assms(3) Cons snoc by (auto simp: children_def seg_append head_append)
        show "relinked p (insert x (set as)) s (s\<lparr>s_node := ?m\<rparr>)"
          using n k nc nl d assms(3) Cons snoc by (auto simp: relinked_def)
      qed
    qed
  qed
qed

subsection \<open>Detaching\<close>

lemma detach_children:
  assumes "children (s_node s) p (xs @ x # ys)"
  obtains s' where "cJSON_DetachItemViaPointer (Some p) (Some x) s = Inr (Some x, s')" "children (s_node s') p (xs @ ys)"
    "loose (s_node s') x" "relinked p (insert x (set xs \<union> set ys)) s s'"
proof -
  obtain n where n: "s_node s p = Some n" "n_child n = head (xs @ x # ys) None" "distinct (xs @ x # ys)" "p \<notin> set (xs @ x # ys)"
    using assms by (auto simp: children_def)
  have seg: "seg (s_node s) (final None (xs @ x # ys)) (xs @ x # ys) None" using assms by (simp add: children_def)
  obtain k where k: "s_node s x = Some k" "n_next k = head ys None" "n_prev k = final (final None (xs @ x # ys)) xs"
    using seg by (auto simp: seg_append)
  have px: "p \<noteq> x" using n by auto
  note defs = cJSON_DetachItemViaPointer_def pointer_ops
  consider (only) "xs = []" "ys = []" | (first) y zs where "xs = []" "ys = y # zs"
    | (second) w where "xs = [w]" "ys = []" | (last) c zs w where "xs = c # zs @ [w]" "ys = []"
    | (middle) zs w y us where "xs = zs @ [w]" "ys = y # us"
  proof (cases xs rule: rev_cases)
    case Nil
    then show thesis using that(1,2) by (cases ys) auto
  next
    case (snoc zs w)
    then show thesis using that(3,4,5) by (cases ys; cases zs) auto
  qed
  then show thesis
  proof cases
    case only
    let ?m = "(s_node s)(p \<mapsto> n\<lparr>n_child := None\<rparr>, x \<mapsto> k\<lparr>n_prev := None\<rparr>, x \<mapsto> k\<lparr>n_prev := None, n_next := None\<rparr>)"
    show thesis
      by (rule that [of "s\<lparr>s_node := ?m\<rparr>"]) (use n k px only in \<open>auto simp: defs children_def loose_def relinked_def\<close>)
  next
    case first
    obtain ny where ny: "s_node s y = Some ny" "n_next ny = head zs None" "n_prev ny = Some x" using seg first by auto
    have y: "y \<noteq> p" "y \<noteq> x" "y \<notin> set zs" "x \<notin> set zs" "p \<notin> set zs" using n first by auto
    have zs: "seg (s_node s) (Some y) zs None" using seg first by simp
    have px': "n_prev k = final (Some y) zs" "n_prev k \<noteq> None" using k first by (simp_all add: final_def)
    let ?m = "(s_node s)(y \<mapsto> ny\<lparr>n_prev := n_prev k\<rparr>, p \<mapsto> n\<lparr>n_child := Some y\<rparr>, x \<mapsto> k\<lparr>n_prev := None\<rparr>,
      x \<mapsto> k\<lparr>n_prev := None, n_next := None\<rparr>)"
    show thesis
      by (rule that [of "s\<lparr>s_node := ?m\<rparr>"])
        (use n k ny y zs px px' first in \<open>auto simp: defs children_def loose_def relinked_def\<close>)
  next
    case second
    obtain nw where nw: "s_node s w = Some nw" "n_next nw = Some x" using seg second by auto
    have w: "w \<noteq> p" "w \<noteq> x" using n second by auto
    let ?w = "nw\<lparr>n_next := None\<rparr>"
    let ?m = "(s_node s)(w \<mapsto> ?w, w \<mapsto> ?w\<lparr>n_prev := Some w\<rparr>, x \<mapsto> k\<lparr>n_prev := None\<rparr>, x \<mapsto> k\<lparr>n_prev := None, n_next := None\<rparr>)"
    show thesis
      by (rule that [of "s\<lparr>s_node := ?m\<rparr>"])
        (use n k nw w px second in \<open>auto simp: defs children_def loose_def relinked_def\<close>)
  next
    case last
    obtain nw where nw: "s_node s w = Some nw" "n_next nw = Some x" "n_prev nw = final (Some c) zs" using seg last by (auto simp: seg_append)
    obtain nc where nc: "s_node s c = Some nc" "n_next nc = head zs (Some w)" using seg last by (auto simp: head_append)
    have d: "w \<noteq> p" "w \<noteq> x" "c \<noteq> p" "c \<noteq> x" "c \<noteq> w" "c \<notin> set zs" "w \<notin> set zs" "x \<notin> set zs" "p \<notin> set zs" using n last by auto
    have zs: "seg (s_node s) (Some c) zs (Some w)" using seg last by (auto simp: seg_append)
    let ?m = "(s_node s)(w \<mapsto> nw\<lparr>n_next := None\<rparr>, c \<mapsto> nc\<lparr>n_prev := Some w\<rparr>, x \<mapsto> k\<lparr>n_prev := None\<rparr>,
      x \<mapsto> k\<lparr>n_prev := None, n_next := None\<rparr>)"
    show thesis
      by (rule that [of "s\<lparr>s_node := ?m\<rparr>"])
        (use n k nw nc d zs px last in \<open>auto simp: defs children_def loose_def relinked_def seg_append head_append\<close>)
  next
    case middle
    obtain nw where nw: "s_node s w = Some nw" "n_next nw = Some x" "n_prev nw = final (final None (xs @ x # ys)) zs"
      using seg middle by (auto simp: seg_append)
    obtain ny where ny: "s_node s y = Some ny" "n_next ny = head us None" "n_prev ny = Some x"
      using seg middle by (auto simp: seg_append)
    have d: "w \<noteq> p" "w \<noteq> x" "y \<noteq> p" "y \<noteq> x" "y \<noteq> w" "y \<notin> set zs" "w \<notin> set zs" "x \<notin> set zs" "p \<notin> set zs"
      "y \<notin> set us" "w \<notin> set us" "x \<notin> set us" "p \<notin> set us" using n middle by auto
    have parts: "seg (s_node s) (final None (xs @ x # ys)) zs (Some w)" "seg (s_node s) (Some y) us None"
      using seg middle by (auto simp: seg_append)
    have c: "n_child n \<noteq> Some x" "n_child n = head (zs @ w # y # us) None" using n middle d by (cases zs; auto)+
    let ?m = "(s_node s)(w \<mapsto> nw\<lparr>n_next := Some y\<rparr>, y \<mapsto> ny\<lparr>n_prev := Some w\<rparr>, x \<mapsto> k\<lparr>n_prev := None\<rparr>,
      x \<mapsto> k\<lparr>n_prev := None, n_next := None\<rparr>)"
    show thesis
      by (rule that [of "s\<lparr>s_node := ?m\<rparr>"])
        (use n(1,3,4) k nw ny d parts px c middle in \<open>auto simp: defs children_def loose_def relinked_def seg_append\<close>)
  qed
qed

subsection \<open>Inserting\<close>

lemma insert_children:
  assumes "children (s_node s) p (xs @ y # ys)" "loose (s_node s) x" "x \<noteq> p"
  obtains s' where "cJSON_InsertItemInArray (Some p) (int (length xs)) (Some x) s = Inr (True, s')"
    "children (s_node s') p (xs @ x # y # ys)" "relinked p (insert x (set (xs @ y # ys))) s s'"
proof -
  have x: "x \<notin> set (xs @ y # ys)" by (rule loose_not_member [OF assms(1,2)])
  obtain n where n: "s_node s p = Some n" "n_child n = head (xs @ y # ys) None" "distinct (xs @ y # ys)" "p \<notin> set (xs @ y # ys)"
    using assms(1) by (auto simp: children_def)
  have seg: "seg (s_node s) (final None (xs @ y # ys)) (xs @ y # ys) None" using assms(1) by (simp add: children_def)
  obtain k where k: "s_node s x = Some k" "n_next k = None" "n_prev k = None" using assms(2) by (auto simp: loose_def)
  obtain ny where ny: "s_node s y = Some ny" "n_next ny = head ys None" "n_prev ny = final (final None (xs @ y # ys)) xs"
    using seg by (auto simp: seg_append)
  have here: "array_item_at (Some p) (length xs) s = Inr (Some y)" using array_item_children [OF assms(1)] by simp
  note defs = cJSON_InsertItemInArray_def pointer_ops
  show thesis
  proof (cases xs rule: rev_cases)
    case Nil
    have d: "y \<noteq> p" "y \<noteq> x" "y \<notin> set ys" "x \<notin> set ys" "p \<notin> set ys" using n x Nil by auto
    have ys: "seg (s_node s) (Some y) ys None" using seg Nil by simp
    have last: "n_prev ny = final (Some y) ys" using ny Nil by simp
    let ?m = "(s_node s)(x \<mapsto> k\<lparr>n_next := Some y\<rparr>, x \<mapsto> k\<lparr>n_next := Some y, n_prev := n_prev ny\<rparr>, y \<mapsto> ny\<lparr>n_prev := Some x\<rparr>,
      p \<mapsto> n\<lparr>n_child := Some x\<rparr>)"
    show thesis
      by (rule that [of "s\<lparr>s_node := ?m\<rparr>"])
        (use n k ny d ys last here assms(3) Nil in \<open>auto simp: defs children_def relinked_def\<close>)
  next
    case (snoc zs w)
    obtain nw where nw: "s_node s w = Some nw" "n_next nw = Some y" "n_prev nw = final (final None (xs @ y # ys)) zs"
      using seg snoc by (auto simp: seg_append)
    have d: "y \<noteq> p" "y \<noteq> x" "w \<noteq> p" "w \<noteq> x" "w \<noteq> y" "y \<notin> set ys" "x \<notin> set ys" "p \<notin> set ys" "w \<notin> set ys"
      "y \<notin> set zs" "x \<notin> set zs" "p \<notin> set zs" "w \<notin> set zs" using n x snoc by auto
    have parts: "seg (s_node s) (Some y) ys None" "seg (s_node s) (final None (xs @ y # ys)) zs (Some w)"
      using seg snoc by (auto simp: seg_append)
    have j: "nat (1 + int (length zs)) = Suc (length zs)" by simp
    have c: "n_child n \<noteq> Some y" "n_child n = head (zs @ w # x # y # ys) None" using n snoc d by (cases zs; auto)+
    let ?m = "(s_node s)(x \<mapsto> k\<lparr>n_next := Some y\<rparr>, x \<mapsto> k\<lparr>n_next := Some y, n_prev := Some w\<rparr>, y \<mapsto> ny\<lparr>n_prev := Some x\<rparr>,
      w \<mapsto> nw\<lparr>n_next := Some x\<rparr>)"
    show thesis
      by (rule that [of "s\<lparr>s_node := ?m\<rparr>"])
        (use n(1,3,4) k ny nw d parts c here j assms(3) snoc in \<open>auto simp: defs children_def relinked_def seg_append\<close>)
  qed
qed

subsection \<open>Replacing\<close>

text \<open>What \<open>cJSON_ReplaceItemViaPointer\<close> does before it deletes the item that it has replaced.\<close>

lemma replace_children:
  assumes "children (s_node s) p (xs @ x # ys)" "loose (s_node s) r" "r \<noteq> p"
  obtains s1 where "cJSON_ReplaceItemViaPointer (Some p) (Some x) (Some r) s =
      bind_res (cJSON_Delete_at (Some x) s1) (\<lambda>s. Inr (True, s))"
    "children (s_node s1) p (xs @ r # ys)" "loose (s_node s1) x" "relinked p (insert r (set (xs @ x # ys))) s s1"
proof -
  have r: "r \<notin> set (xs @ x # ys)" by (rule loose_not_member [OF assms(1,2)])
  obtain n where n: "s_node s p = Some n" "n_child n = head (xs @ x # ys) None" "distinct (xs @ x # ys)" "p \<notin> set (xs @ x # ys)"
    using assms(1) by (auto simp: children_def)
  have seg: "seg (s_node s) (final None (xs @ x # ys)) (xs @ x # ys) None" using assms(1) by (simp add: children_def)
  obtain k where k: "s_node s x = Some k" "n_next k = head ys None" "n_prev k = final (final None (xs @ x # ys)) xs"
    using seg by (auto simp: seg_append)
  obtain l where l: "s_node s r = Some l" using assms(2) by (auto simp: loose_def)
  have px: "p \<noteq> x" "r \<noteq> x" using n r by auto
  note defs = cJSON_ReplaceItemViaPointer_def pointer_ops
  let ?x1 = "k\<lparr>n_next := None\<rparr>" and ?x2 = "k\<lparr>n_next := None, n_prev := None\<rparr>"
  consider (only) "xs = []" "ys = []" | (first) y zs where "xs = []" "ys = y # zs"
    | (second) w where "xs = [w]" "ys = []" | (last) c zs w where "xs = c # zs @ [w]" "ys = []"
    | (middle) zs w y us where "xs = zs @ [w]" "ys = y # us"
  proof (cases xs rule: rev_cases)
    case Nil
    then show thesis using that(1,2) by (cases ys) auto
  next
    case (snoc zs w)
    then show thesis using that(3,4,5) by (cases ys; cases zs) auto
  qed
  then show thesis
  proof cases
    case only
    let ?r = "l\<lparr>n_next := None\<rparr>"
    let ?m = "(s_node s)(r \<mapsto> ?r, r \<mapsto> ?r\<lparr>n_prev := Some x\<rparr>, r \<mapsto> ?r\<lparr>n_prev := Some r\<rparr>, p \<mapsto> n\<lparr>n_child := Some r\<rparr>, x \<mapsto> ?x1, x \<mapsto> ?x2)"
    show thesis
      by (rule that [of "s\<lparr>s_node := ?m\<rparr>"])
        (use n k l px assms(3) only in \<open>auto simp: defs children_def loose_def relinked_def\<close>)
  next
    case first
    obtain ny where ny: "s_node s y = Some ny" "n_next ny = head zs None" "n_prev ny = Some x" using seg first by auto
    have y: "y \<noteq> p" "y \<noteq> x" "y \<noteq> r" "r \<notin> set zs" "y \<notin> set zs" "x \<notin> set zs" "p \<notin> set zs" using n r first by auto
    have zs: "seg (s_node s) (Some y) zs None" using seg first by simp
    have last: "n_prev k = final (Some y) zs" "n_prev k \<noteq> Some x"
      using k first y by (auto simp: final_def dest: last_in_set)
    let ?r = "l\<lparr>n_next := Some y\<rparr>"
    let ?m = "(s_node s)(r \<mapsto> ?r, r \<mapsto> ?r\<lparr>n_prev := n_prev k\<rparr>, y \<mapsto> ny\<lparr>n_prev := Some r\<rparr>, p \<mapsto> n\<lparr>n_child := Some r\<rparr>, x \<mapsto> ?x1, x \<mapsto> ?x2)"
    show thesis
      by (rule that [of "s\<lparr>s_node := ?m\<rparr>"])
        (use n k l ny y zs last px assms(3) first in \<open>auto simp: defs children_def loose_def relinked_def\<close>)
  next
    case second
    obtain nw where nw: "s_node s w = Some nw" "n_next nw = Some x" using seg second by auto
    have w: "w \<noteq> p" "w \<noteq> x" "w \<noteq> r" using n r second by auto
    let ?r = "l\<lparr>n_next := None\<rparr>" and ?w = "nw\<lparr>n_next := Some r\<rparr>"
    let ?m = "(s_node s)(r \<mapsto> ?r, r \<mapsto> ?r\<lparr>n_prev := Some w\<rparr>, w \<mapsto> ?w, w \<mapsto> ?w\<lparr>n_prev := Some r\<rparr>, x \<mapsto> ?x1, x \<mapsto> ?x2)"
    show thesis
      by (rule that [of "s\<lparr>s_node := ?m\<rparr>"])
        (use n k l nw w px assms(3) second in \<open>auto simp: defs children_def loose_def relinked_def\<close>)
  next
    case last
    obtain nw where nw: "s_node s w = Some nw" "n_next nw = Some x" "n_prev nw = final (Some c) zs" using seg last by (auto simp: seg_append)
    obtain nc where nc: "s_node s c = Some nc" "n_next nc = head zs (Some w)" using seg last by (auto simp: head_append)
    have d: "w \<noteq> p" "w \<noteq> x" "c \<noteq> p" "c \<noteq> x" "c \<noteq> w" "w \<noteq> r" "c \<noteq> r" "c \<notin> set zs" "w \<notin> set zs" "x \<notin> set zs" "p \<notin> set zs" "r \<notin> set zs"
      using n r last by auto
    have zs: "seg (s_node s) (Some c) zs (Some w)" using seg last by (auto simp: seg_append)
    let ?r = "l\<lparr>n_next := None\<rparr>"
    let ?m = "(s_node s)(r \<mapsto> ?r, r \<mapsto> ?r\<lparr>n_prev := Some w\<rparr>, w \<mapsto> nw\<lparr>n_next := Some r\<rparr>, c \<mapsto> nc\<lparr>n_prev := Some r\<rparr>, x \<mapsto> ?x1, x \<mapsto> ?x2)"
    show thesis
      by (rule that [of "s\<lparr>s_node := ?m\<rparr>"])
        (use n k l nw nc d zs px assms(3) last in \<open>auto simp: defs children_def loose_def relinked_def seg_append head_append\<close>)
  next
    case middle
    obtain nw where nw: "s_node s w = Some nw" "n_next nw = Some x" "n_prev nw = final (final None (xs @ x # ys)) zs"
      using seg middle by (auto simp: seg_append)
    obtain ny where ny: "s_node s y = Some ny" "n_next ny = head us None" "n_prev ny = Some x"
      using seg middle by (auto simp: seg_append)
    have d: "w \<noteq> p" "w \<noteq> x" "y \<noteq> p" "y \<noteq> x" "y \<noteq> w" "w \<noteq> r" "y \<noteq> r" "y \<notin> set zs" "w \<notin> set zs" "x \<notin> set zs" "p \<notin> set zs" "r \<notin> set zs"
      "y \<notin> set us" "w \<notin> set us" "x \<notin> set us" "p \<notin> set us" "r \<notin> set us" using n r middle by auto
    have parts: "seg (s_node s) (final None (xs @ x # ys)) zs (Some w)" "seg (s_node s) (Some y) us None"
      using seg middle by (auto simp: seg_append)
    have c: "n_child n \<noteq> Some x" "n_child n = head (zs @ w # r # y # us) None" "n_child n \<noteq> None" using n middle d by (cases zs; auto)+
    let ?r = "l\<lparr>n_next := Some y\<rparr>"
    let ?m = "(s_node s)(r \<mapsto> ?r, r \<mapsto> ?r\<lparr>n_prev := Some w\<rparr>, y \<mapsto> ny\<lparr>n_prev := Some r\<rparr>, w \<mapsto> nw\<lparr>n_next := Some r\<rparr>, x \<mapsto> ?x1, x \<mapsto> ?x2)"
    show thesis
      by (rule that [of "s\<lparr>s_node := ?m\<rparr>"])
        (use n(1,3,4) k l nw ny d parts px c assms(3) middle in \<open>auto simp: defs children_def loose_def relinked_def seg_append\<close>)
  qed
qed

end
