(* ===== verification/Json_Edit.thy ===== *)
theory Json_Edit
  imports Json_Chain Json_Copy
begin

text \<open>
  The nodes of the store as the trees of the other theories: adding, deleting and replacing children of
  a node are the corresponding changes of the list of children of a tree, and deleting a node frees
  exactly its tree.
\<close>

subsection \<open>Editing a list in place\<close>

text \<open>
  The contract of the editing functions for one parent, on the abstract list of its children, and what
  follows from it for every provider of the contract.
\<close>

locale edited_list =
  fixes items :: "'s \<Rightarrow> 'a list \<Rightarrow> bool"
    and free :: "'s \<Rightarrow> 'a \<Rightarrow> bool"
    and append_item :: "'a \<Rightarrow> 's \<Rightarrow> (bool \<times> 's) outcome"
    and insert_item :: "int \<Rightarrow> 'a \<Rightarrow> 's \<Rightarrow> (bool \<times> 's) outcome"
    and detach_item :: "'a \<Rightarrow> 's \<Rightarrow> ('a option \<times> 's) outcome"
  assumes appends: "items s as \<Longrightarrow> free s x \<Longrightarrow> \<exists>s'. append_item x s = Inr (True, s') \<and> items s' (as @ [x])"
    and inserts: "items s (as @ y # bs) \<Longrightarrow> free s x \<Longrightarrow>
      \<exists>s'. insert_item (int (length as)) x s = Inr (True, s') \<and> items s' (as @ x # y # bs)"
    and detaches: "items s (as @ x # bs) \<Longrightarrow> \<exists>s'. detach_item x s = Inr (Some x, s') \<and> items s' (as @ bs) \<and> free s' x"
begin

lemma append_then_detach:
  assumes "items s as" "free s x"
  shows "\<exists>s1 s2. append_item x s = Inr (True, s1) \<and> detach_item x s1 = Inr (Some x, s2) \<and> items s2 as \<and> free s2 x"
  using appends [OF assms] detaches [of _ as x "[]"] by fastforce

lemma move_to_end:
  assumes "items s (as @ x # bs)"
  shows "\<exists>s1 s2. detach_item x s = Inr (Some x, s1) \<and> append_item x s1 = Inr (True, s2) \<and> items s2 (as @ bs @ [x])"
  using detaches [OF assms] appends [of _ "as @ bs" x] by fastforce

lemma move_in_front:
  assumes "items s (as @ x # bs)" "as @ bs = cs @ y # ds"
  shows "\<exists>s1 s2. detach_item x s = Inr (Some x, s1) \<and> insert_item (int (length cs)) x s1 = Inr (True, s2) \<and> items s2 (cs @ x # y # ds)"
  using detaches [OF assms(1)] inserts [of _ cs y ds x] assms(2) by fastforce

end

interpretation ed: edited_list "\<lambda>s :: node_store. children (s_node s) p" "\<lambda>s x. loose (s_node s) x \<and> x \<noteq> p"
  "\<lambda>x. cJSON_AddItemToArray (Some p) (Some x)" "\<lambda>i x. cJSON_InsertItemInArray (Some p) i (Some x)"
  "\<lambda>x. cJSON_DetachItemViaPointer (Some p) (Some x)" for p
proof
  fix s :: node_store and as x
  assume "children (s_node s) p as" "loose (s_node s) x \<and> x \<noteq> p"
  then show "\<exists>s'. cJSON_AddItemToArray (Some p) (Some x) s = Inr (True, s') \<and> children (s_node s') p (as @ [x])"
    by (auto simp: cJSON_AddItemToArray_def elim: add_children)
next
  fix s :: node_store and as y bs x
  assume "children (s_node s) p (as @ y # bs)" "loose (s_node s) x \<and> x \<noteq> p"
  then show "\<exists>s'. cJSON_InsertItemInArray (Some p) (int (length as)) (Some x) s = Inr (True, s') \<and>
      children (s_node s') p (as @ x # y # bs)"
    by (auto elim: insert_children)
next
  fix s :: node_store and as x bs
  assume a: "children (s_node s) p (as @ x # bs)"
  then have "x \<noteq> p" by (auto simp: children_def)
  moreover obtain s' where "cJSON_DetachItemViaPointer (Some p) (Some x) s = Inr (Some x, s')" "children (s_node s') p (as @ bs)"
    "loose (s_node s') x"
    using detach_children [OF a] by blast
  ultimately show "\<exists>s'. cJSON_DetachItemViaPointer (Some p) (Some x) s = Inr (Some x, s') \<and>
      children (s_node s') p (as @ bs) \<and> loose (s_node s') x \<and> x \<noteq> p"
    by auto
qed

subsection \<open>Trees in the store\<close>

datatype ptree = PNode (root: addr) (label: item) (kids: "ptree list")

fun addrs :: "ptree \<Rightarrow> addr list" where
  "addrs (PNode a f ts) = a # concat (map addrs ts)"

fun forget :: "ptree \<Rightarrow> cJSON" where
  "forget (PNode a f ts) = Item f (map forget ts)"

fun rep :: "(addr \<Rightarrow> node option) \<Rightarrow> ptree \<Rightarrow> bool" where
  "rep m (PNode a f ts) \<longleftrightarrow>
     (\<exists>n. m a = Some n \<and> n_item n = f) \<and> children m a (map root ts) \<and> list_all (rep m) ts"

definition tree_at :: "node_store \<Rightarrow> ptree \<Rightarrow> bool" where
  "tree_at s t \<longleftrightarrow> rep (s_node s) t \<and> distinct (addrs t)"

fun unshared :: "ptree \<Rightarrow> bool" where
  "unshared (PNode a f ts) \<longleftrightarrow> i_type f AND cJSON_IsReference = 0 \<and> list_all unshared ts"

definition bounded :: "node_store \<Rightarrow> bool" where
  "bounded s \<longleftrightarrow> (\<forall>a. s_node s a \<noteq> None \<longrightarrow> a < s_fresh s)"

lemma root_addrs: "root t \<in> set (addrs t)"
  by (cases t) simp

lemma seg_cong: "(\<And>a. a \<in> set as \<Longrightarrow> m a = m' a) \<Longrightarrow> seg m p as q = seg m' p as q"
  by (induction as arbitrary: p) auto

lemma children_cong:
  "m p = m' p \<Longrightarrow> (\<And>a. a \<in> set as \<Longrightarrow> m a = m' a) \<Longrightarrow> children m p as = children m' p as"
  using seg_cong [of as m m'] by (simp add: children_def)

lemma rep_cong: "(\<And>a. a \<in> set (addrs t) \<Longrightarrow> m a = m' a) \<Longrightarrow> rep m t = rep m' t"
proof (induction t)
  case (PNode a f ts)
  have "rep m t = rep m' t" if "t \<in> set ts" for t using PNode.IH [OF that] PNode.prems that by auto
  moreover have "children m a (map root ts) = children m' a (map root ts)"
    using PNode.prems root_addrs by (intro children_cong) fastforce+
  ultimately show ?case using PNode.prems by (auto simp: list_all_iff)
qed

text \<open>A node whose links to its siblings change is still the root of its tree.\<close>

lemma rep_relink:
  assumes "rep m t" "distinct (addrs t)" "\<And>a. a \<in> set (addrs t) \<Longrightarrow> a \<noteq> root t \<Longrightarrow> m' a = m a"
    and "map_option n_item (m' (root t)) = map_option n_item (m (root t))" "map_option n_child (m' (root t)) = map_option n_child (m (root t))"
  shows "rep m' t"
proof (cases t)
  case (PNode a f ts)
  have kid: "rep m' u" if "u \<in> set ts" for u
  proof -
    have "m' b = m b" if "b \<in> set (addrs u)" for b using assms(2,3) PNode \<open>u \<in> set ts\<close> that by auto
    then show ?thesis using rep_cong [of u m' m] assms(1) PNode that by (auto simp: list_all_iff)
  qed
  obtain n where n: "m a = Some n" "n_item n = f" "n_child n = head (map root ts) None" using assms(1) PNode by (auto simp: children_def)
  then obtain n' where n': "m' a = Some n'" "n_item n' = f" "n_child n' = n_child n" using assms(4,5) PNode by auto
  have "m' b = m b" if "b \<in> set (map root ts)" for b
    using assms(2,3) PNode that root_addrs by fastforce
  then have "seg m' q (map root ts) None = seg m q (map root ts) None" for q by (intro seg_cong)
  then show ?thesis using assms(1) PNode n n' kid by (auto simp: children_def list_all_iff)
qed

lemma addrs_in_store: "rep m t \<Longrightarrow> a \<in> set (addrs t) \<Longrightarrow> m a \<noteq> None"
  by (induction t) (auto simp: list_all_iff)

lemma rep_children: "rep m t \<Longrightarrow> children m (root t) (map root (kids t))"
  by (cases t) simp

subsection \<open>Deleting a tree\<close>

fun nexts :: "(addr \<Rightarrow> node option) \<Rightarrow> addr list \<Rightarrow> bool" where
  "nexts m [] \<longleftrightarrow> True"
| "nexts m (a # as) \<longleftrightarrow> (\<exists>n. m a = Some n \<and> n_next n = head as None) \<and> nexts m as"

lemma seg_nexts: "seg m p as None \<Longrightarrow> nexts m as"
  by (induction as arbitrary: p) auto

lemma nexts_cong: "(\<And>a. a \<in> set as \<Longrightarrow> m a = m' a) \<Longrightarrow> nexts m as = nexts m' as"
  by (induction as) auto

definition all_addrs :: "ptree list \<Rightarrow> addr list" where
  "all_addrs ts = concat (map addrs ts)"

lemma delete_forest:
  assumes "nexts (s_node s) (map root ts)" "list_all (rep (s_node s)) ts" "list_all unshared ts" "distinct (all_addrs ts)"
    and "length (all_addrs ts) \<le> k"
  shows "delete_nodes k (head (map root ts) None) s =
    Inr (s\<lparr>s_node := s_node s |` (- set (all_addrs ts)), s_heap := cJSON_Delete (map forget ts) (s_heap s)\<rparr>)"
  using assms
proof (induction k arbitrary: ts s)
  case 0
  then show ?case by (cases ts) (auto simp: all_addrs_def, metis addrs.elims list.distinct(1))
next
  case (Suc k)
  show ?case
  proof (cases ts)
    case Nil
    then show ?thesis by (simp add: all_addrs_def)
  next
    case (Cons t us)
    obtain a f cs where t: "t = PNode a f cs" by (cases t)
    obtain n where n: "s_node s a = Some n" "n_item n = f" "n_child n = head (map root cs) None" "n_next n = head (map root us) None"
      using Suc.prems(1,2) Cons t by (auto simp: children_def)
    have ref: "i_type f AND cJSON_IsReference = 0" "list_all unshared cs" "list_all unshared us" using Suc.prems(3) Cons t by simp_all
    have disj: "a \<notin> set (all_addrs cs)" "a \<notin> set (all_addrs us)" "set (all_addrs cs) \<inter> set (all_addrs us) = {}"
      "distinct (all_addrs cs)" "distinct (all_addrs us)" "length (all_addrs cs) \<le> k" "length (all_addrs us) \<le> k"
      using Suc.prems(4,5) Cons t by (auto simp: all_addrs_def)
    define s1 where "s1 = s\<lparr>s_node := s_node s |` (- set (all_addrs cs)), s_heap := cJSON_Delete (map forget cs) (s_heap s)\<rparr>"
    have cs: "(if i_type f AND cJSON_IsReference = 0 \<and> n_child n \<noteq> None then delete_nodes k (n_child n) s else Inr s) = Inr s1"
    proof (cases "cs = []")
      case True
      then show ?thesis using n ref by (simp add: s1_def all_addrs_def restrict_map_def)
    next
      case False
      have "nexts (s_node s) (map root cs)" "list_all (rep (s_node s)) cs"
        using Suc.prems(2) Cons t seg_nexts by (auto simp: children_def)
      then have "delete_nodes k (head (map root cs) None) s = Inr s1"
        using Suc.IH [of s cs] ref disj by (simp add: s1_def)
      moreover have "n_child n \<noteq> None" using False n(3) by (cases cs) simp_all
      ultimately show ?thesis using ref(1) n(3) by simp
    qed
    define h2 where "h2 = free_if (i_type f AND cJSON_StringIsConst = 0 \<and> i_string f \<noteq> None)
      (free_if (i_type f AND cJSON_IsReference = 0 \<and> i_valuestring f \<noteq> None) (s_heap s1))"
    define s2 where "s2 = s1\<lparr>s_node := (s_node s1)(a := None), s_heap := deallocate h2\<rparr>"
    have load1: "load (Some a) s = Inr n" "load (Some a) s1 = Inr n" using n disj by (simp_all add: load_def s1_def)
    have step: "delete_nodes (Suc k) (Some a) s = delete_nodes k (head (map root us) None) s2"
      by (simp only: delete_nodes.simps(3) load1 bind_res_Inr Let_def n(2,4) cs s2_def h2_def)
    have same: "s_node s2 b = s_node s b" if "b \<in> set (all_addrs us)" for b
      using that disj by (auto simp: s2_def s1_def restrict_map_def)
    have roots: "set (map root us) \<subseteq> set (all_addrs us)" using root_addrs by (auto simp: all_addrs_def)
    have "nexts (s_node s2) (map root us)"
      using nexts_cong [of "map root us" "s_node s2" "s_node s"] same roots Suc.prems(1) Cons by auto
    moreover have "list_all (rep (s_node s2)) us"
    proof -
      have "rep (s_node s2) u" if "u \<in> set us" for u
        using rep_cong [of u "s_node s2" "s_node s"] same that Suc.prems(2) Cons by (auto simp: all_addrs_def list_all_iff)
      then show ?thesis by (simp add: list_all_iff)
    qed
    ultimately have "delete_nodes k (head (map root us) None) s2 =
        Inr (s2\<lparr>s_node := s_node s2 |` (- set (all_addrs us)), s_heap := cJSON_Delete (map forget us) (s_heap s2)\<rparr>)"
      using Suc.IH [of s2 us] ref disj by simp
    moreover have "s_node s2 |` (- set (all_addrs us)) = s_node s |` (- set (all_addrs ts))"
      by (rule ext) (auto simp: s2_def s1_def restrict_map_def Cons t all_addrs_def)
    moreover have "cJSON_Delete (map forget us) (s_heap s2) = cJSON_Delete (map forget ts) (s_heap s)"
      using ref(1) by (simp add: Cons t s2_def h2_def s1_def Let_def)
    ultimately show ?thesis using step by (simp add: Cons t s2_def s1_def)
  qed
qed

lemma delete_tree:
  assumes "tree_at s t" "unshared t" "loose (s_node s) (root t)" "bounded s"
  shows "cJSON_Delete_at (Some (root t)) s =
    Inr (s\<lparr>s_node := s_node s |` (- set (addrs t)), s_heap := cJSON_Delete [forget t] (s_heap s)\<rparr>)"
proof -
  have "set (addrs t) \<subseteq> {..<s_fresh s}"
    using addrs_in_store assms(1,4) by (fastforce simp: tree_at_def bounded_def)
  then have "card (set (addrs t)) \<le> s_fresh s" using card_mono [of "{..<s_fresh s}" "set (addrs t)"] by simp
  then have "length (addrs t) \<le> Suc (s_fresh s)" using assms(1) by (simp add: tree_at_def distinct_card)
  moreover have "nexts (s_node s) [root t]" using assms(3) by (auto simp: loose_def)
  ultimately have "delete_nodes (Suc (s_fresh s)) (Some (root t)) s =
      Inr (s\<lparr>s_node := s_node s |` (- set (addrs t)), s_heap := cJSON_Delete [forget t] (s_heap s)\<rparr>)"
    using delete_forest [of s "[t]" "Suc (s_fresh s)"] assms(1,2)
    by (simp add: all_addrs_def tree_at_def del: delete_nodes.simps)
  then show ?thesis by (simp only: cJSON_Delete_at_def)
qed

subsection \<open>Editing a tree\<close>

text \<open>After a change of links, the parent with its new children is a tree again.\<close>

lemma relinked_rep:
  assumes "relinked p A s s'" "rep (s_node s) t" "distinct (addrs t)" "p \<notin> set (addrs t)" "set (addrs t) \<inter> A \<subseteq> {root t}"
  shows "rep (s_node s') t"
proof (rule rep_relink [OF assms(2,3)])
  show "s_node s' a = s_node s a" if "a \<in> set (addrs t)" "a \<noteq> root t" for a
  proof -
    have "a \<notin> insert p A" using assms(4,5) that by blast
    then show ?thesis using assms(1) by (simp add: relinked_def)
  qed
  show "map_option n_item (s_node s' (root t)) = map_option n_item (s_node s (root t))"
    using assms(1) by (simp add: relinked_def)
  have "root t \<noteq> p" using assms(4) root_addrs by auto
  then show "map_option n_child (s_node s' (root t)) = map_option n_child (s_node s (root t))"
    using assms(1) by (simp add: relinked_def)
qed

lemma relinked_tree:
  assumes "relinked p A s s'" "children (s_node s') p (map root us)" "distinct (addrs (PNode p f us))"
    and "\<And>u. u \<in> set us \<Longrightarrow> rep (s_node s) u" "\<And>u. u \<in> set us \<Longrightarrow> set (addrs u) \<inter> A \<subseteq> {root u}"
    and "s_node s p = Some n" "n_item n = f"
  shows "tree_at s' (PNode p f us)"
proof -
  have "rep (s_node s') u" if u: "u \<in> set us" for u
  proof (rule relinked_rep [OF assms(1) assms(4) [OF u] _ _ assms(5) [OF u]])
    show "p \<notin> set (addrs u)" "distinct (addrs u)" using assms(3) split_list [OF u] by auto
  qed
  moreover have "\<exists>n'. s_node s' p = Some n' \<and> n_item n' = f"
    using assms(1,6,7) unfolding relinked_def by (metis (no_types, lifting) map_option_eq_Some)
  ultimately show ?thesis using assms(2,3) by (auto simp: tree_at_def list_all_iff)
qed

lemma distinct_roots:
  "distinct (concat (map addrs ts)) \<Longrightarrow> u \<in> set ts \<Longrightarrow> v \<in> set ts \<Longrightarrow> a \<in> set (addrs u) \<Longrightarrow> a = root v \<Longrightarrow> a = root u"
proof (induction ts)
  case (Cons t ts)
  then show ?case using root_addrs [of v] by (auto 4 4)
qed simp

lemma roots_only:
  assumes "distinct (concat (map addrs ts))" "u \<in> set ts"
  shows "set (addrs u) \<inter> set (map root ts) \<subseteq> {root u}"
  using distinct_roots [OF assms] by fastforce

lemma roots_in_addrs: "set (map root ts) \<subseteq> set (concat (map addrs ts))"
  using root_addrs by fastforce

lemma tree_parts:
  assumes "tree_at s (PNode p f ts)"
  shows "children (s_node s) p (map root ts)" "\<And>u. u \<in> set ts \<Longrightarrow> rep (s_node s) u" "distinct (concat (map addrs ts))"
    "p \<notin> set (concat (map addrs ts))" "\<exists>n. s_node s p = Some n \<and> n_item n = f"
  using assms by (auto simp: tree_at_def list_all_iff)

lemma add_tree:
  assumes "tree_at s (PNode p f ts)" "tree_at s t" "loose (s_node s) (root t)" "set (addrs (PNode p f ts)) \<inter> set (addrs t) = {}"
  obtains s' where "cJSON_AddItemToArray (Some p) (Some (root t)) s = Inr (True, s')" "tree_at s' (PNode p f (ts @ [t]))"
    "relinked p (set (map root (ts @ [t]))) s s'"
proof -
  note parts = tree_parts [OF assms(1)]
  have "root t \<noteq> p" using assms(4) root_addrs [of t] by auto
  then obtain s' where s': "add_item_to_array (Some p) (Some (root t)) s = Inr (True, s')"
    "children (s_node s') p (map root ts @ [root t])" "relinked p (insert (root t) (set (map root ts))) s s'"
    using add_children [OF parts(1) assms(3)] by blast
  have d: "distinct (concat (map addrs (ts @ [t])))" "distinct (addrs (PNode p f (ts @ [t])))"
    using parts(3,4) assms(2,4) by (auto simp: tree_at_def)
  obtain n where n: "s_node s p = Some n" "n_item n = f" using parts(5) by blast
  have r: "relinked p (set (map root (ts @ [t]))) s s'" using s'(3) by simp
  have "tree_at s' (PNode p f (ts @ [t]))"
  proof (rule relinked_tree [OF r _ d(2) _ _ n])
    show "children (s_node s') p (map root (ts @ [t]))" using s'(2) by simp
    show "rep (s_node s) u" if "u \<in> set (ts @ [t])" for u using that parts(2) assms(2) by (auto simp: tree_at_def)
    show "set (addrs u) \<inter> set (map root (ts @ [t])) \<subseteq> {root u}" if "u \<in> set (ts @ [t])" for u
      by (rule roots_only [OF d(1) that])
  qed
  then show thesis using that s'(1) r by (simp add: cJSON_AddItemToArray_def)
qed

lemma detach_tree:
  assumes "tree_at s (PNode p f (ts @ t # us))"
  obtains s' where "cJSON_DetachItemViaPointer (Some p) (Some (root t)) s = Inr (Some (root t), s')"
    "tree_at s' (PNode p f (ts @ us))" "tree_at s' t" "loose (s_node s') (root t)" "relinked p (set (map root (ts @ t # us))) s s'"
proof -
  note parts = tree_parts [OF assms]
  have "children (s_node s) p (map root ts @ root t # map root us)" using parts(1) by simp
  from detach_children [OF this] obtain s' where s':
    "cJSON_DetachItemViaPointer (Some p) (Some (root t)) s = Inr (Some (root t), s')"
    "children (s_node s') p (map root ts @ map root us)" "loose (s_node s') (root t)"
    "relinked p (insert (root t) (set (map root ts) \<union> set (map root us))) s s'"
    by blast
  obtain n where n: "s_node s p = Some n" "n_item n = f" using parts(5) by blast
  have r: "relinked p (set (map root (ts @ t # us))) s s'" using s'(4) by (simp add: insert_commute)
  have d: "distinct (addrs (PNode p f (ts @ us)))" using parts(3,4) by auto
  have "tree_at s' (PNode p f (ts @ us))"
  proof (rule relinked_tree [OF r _ d _ _ n])
    show "children (s_node s') p (map root (ts @ us))" using s'(2) by simp
    show "rep (s_node s) u" if "u \<in> set (ts @ us)" for u using that parts(2) by auto
    show "set (addrs u) \<inter> set (map root (ts @ t # us)) \<subseteq> {root u}" if "u \<in> set (ts @ us)" for u
      using roots_only [OF parts(3)] that by auto
  qed
  moreover have "tree_at s' t" unfolding tree_at_def
  proof
    have t: "t \<in> set (ts @ t # us)" by simp
    show "distinct (addrs t)" using parts(3) by auto
    then show "rep (s_node s') t"
      using relinked_rep [OF r parts(2) [OF t]] roots_only [OF parts(3) t] parts(4) by auto
  qed
  ultimately show thesis using that s'(1,3) r by blast
qed

lemma insert_tree:
  assumes "tree_at s (PNode p f (ts @ u # us))" "tree_at s t" "loose (s_node s) (root t)"
    and "set (addrs (PNode p f (ts @ u # us))) \<inter> set (addrs t) = {}"
  obtains s' where "cJSON_InsertItemInArray (Some p) (int (length ts)) (Some (root t)) s = Inr (True, s')"
    "tree_at s' (PNode p f (ts @ t # u # us))" "relinked p (set (map root (ts @ t # u # us))) s s'"
proof -
  note parts = tree_parts [OF assms(1)]
  have "root t \<noteq> p" using assms(4) root_addrs [of t] by auto
  moreover have "children (s_node s) p (map root ts @ root u # map root us)" using parts(1) by simp
  ultimately obtain s' where s': "cJSON_InsertItemInArray (Some p) (int (length ts)) (Some (root t)) s = Inr (True, s')"
    "children (s_node s') p (map root ts @ root t # root u # map root us)"
    "relinked p (insert (root t) (set (map root ts @ root u # map root us))) s s'"
    using insert_children [of s p "map root ts" "root u" "map root us" "root t"] assms(3) by (metis length_map)
  have d: "distinct (concat (map addrs (ts @ t # u # us)))" "distinct (addrs (PNode p f (ts @ t # u # us)))"
    using parts(3,4) assms(2,4) by (auto simp: tree_at_def)
  obtain n where n: "s_node s p = Some n" "n_item n = f" using parts(5) by blast
  have r: "relinked p (set (map root (ts @ t # u # us))) s s'" using s'(3) by (simp add: insert_commute)
  have "tree_at s' (PNode p f (ts @ t # u # us))"
  proof (rule relinked_tree [OF r _ d(2) _ _ n])
    show "children (s_node s') p (map root (ts @ t # u # us))" using s'(2) by simp
    show "rep (s_node s) v" if "v \<in> set (ts @ t # u # us)" for v using that parts(2) assms(2) by (auto simp: tree_at_def)
    show "set (addrs v) \<inter> set (map root (ts @ t # u # us)) \<subseteq> {root v}" if "v \<in> set (ts @ t # u # us)" for v
      by (rule roots_only [OF d(1) that])
  qed
  then show thesis using that s'(1) r by blast
qed

lemma relinked_heap: "relinked p A s s' \<Longrightarrow> s_heap s' = s_heap s"
  by (simp add: relinked_def)

lemma relinked_bounded: "relinked p A s s' \<Longrightarrow> bounded s \<Longrightarrow> bounded s'"
  unfolding relinked_def bounded_def by (metis option.map_disc_iff)

lemma tree_after_delete:
  assumes "tree_at s t" "set (addrs t) \<inter> B = {}"
  shows "tree_at (s\<lparr>s_node := s_node s |` (- B), s_heap := h\<rparr>) t"
proof -
  have "(s_node s |` (- B)) a = s_node s a" if "a \<in> set (addrs t)" for a using that assms(2) by (auto simp: restrict_map_def)
  then have "rep (s_node s |` (- B)) t" using rep_cong [of t "s_node s |` (- B)" "s_node s"] assms(1) by (simp add: tree_at_def)
  then show ?thesis using assms(1) by (simp add: tree_at_def)
qed

lemma delete_child_tree:
  assumes "tree_at s (PNode p f (ts @ t # us))" "unshared t" "bounded s"
  obtains s' where "cJSON_DeleteItemFromArray (Some p) (int (length ts)) s = Inr s'" "tree_at s' (PNode p f (ts @ us))"
    "s_heap s' = cJSON_Delete [forget t] (s_heap s)" "\<And>a. a \<in> set (addrs t) \<Longrightarrow> s_node s' a = None"
    "\<And>a. a \<notin> set (addrs (PNode p f (ts @ t # us))) \<Longrightarrow> s_node s' a = s_node s a"
proof -
  obtain s1 where s1: "cJSON_DetachItemViaPointer (Some p) (Some (root t)) s = Inr (Some (root t), s1)"
    "tree_at s1 (PNode p f (ts @ us))" "tree_at s1 t" "loose (s_node s1) (root t)" "relinked p (set (map root (ts @ t # us))) s s1"
    by (rule detach_tree [OF assms(1)])
  have "array_item_at (Some p) (length ts) s = Inr (Some (root t))"
    using array_item_children [OF tree_parts(1) [OF assms(1)], of "length ts"] by (simp add: nth_append)
  then have det: "cJSON_DetachItemFromArray (Some p) (int (length ts)) s = Inr (Some (root t), s1)"
    using s1(1) by (simp add: cJSON_DetachItemFromArray_def)
  let ?s2 = "s1\<lparr>s_node := s_node s1 |` (- set (addrs t)), s_heap := cJSON_Delete [forget t] (s_heap s1)\<rparr>"
  have del: "cJSON_Delete_at (Some (root t)) s1 = Inr ?s2"
    using delete_tree [OF s1(3) assms(2) s1(4)] relinked_bounded [OF s1(5) assms(3)] by blast
  have "set (addrs (PNode p f (ts @ us))) \<inter> set (addrs t) = {}" using assms(1) by (auto simp: tree_at_def)
  then have "tree_at ?s2 (PNode p f (ts @ us))" by (rule tree_after_delete [OF s1(2)])
  moreover have "s_node ?s2 a = s_node s a" if "a \<notin> set (addrs (PNode p f (ts @ t # us)))" for a
  proof -
    have "a \<notin> insert p (set (map root (ts @ t # us)))" "a \<notin> set (addrs t)"
      using that roots_in_addrs [of "ts @ t # us"] by auto
    then show ?thesis using s1(5) by (simp add: relinked_def restrict_map_def)
  qed
  moreover have "s_heap ?s2 = cJSON_Delete [forget t] (s_heap s)" using s1(5) by (simp add: relinked_def del: cJSON_Delete.simps)
  ultimately show thesis using that [of ?s2] det del by (simp add: cJSON_DeleteItemFromArray_def restrict_map_def)
qed

lemma replace_child_tree:
  assumes "tree_at s (PNode p f (ts @ t # us))" "unshared t" "bounded s" "tree_at s r" "loose (s_node s) (root r)"
    and "set (addrs (PNode p f (ts @ t # us))) \<inter> set (addrs r) = {}"
  obtains s' where "cJSON_ReplaceItemInArray (Some p) (int (length ts)) (Some (root r)) s = Inr (True, s')"
    "tree_at s' (PNode p f (ts @ r # us))" "s_heap s' = cJSON_Delete [forget t] (s_heap s)"
    "\<And>a. a \<in> set (addrs t) \<Longrightarrow> s_node s' a = None"
proof -
  note parts = tree_parts [OF assms(1)]
  have rp: "root r \<noteq> p" using assms(6) root_addrs [of r] by auto
  have "children (s_node s) p (map root ts @ root t # map root us)" using parts(1) by simp
  from replace_children [OF this assms(5) rp] obtain s1 where s1:
    "cJSON_ReplaceItemViaPointer (Some p) (Some (root t)) (Some (root r)) s = bind_res (cJSON_Delete_at (Some (root t)) s1) (\<lambda>s. Inr (True, s))"
    "children (s_node s1) p (map root ts @ root r # map root us)" "loose (s_node s1) (root t)"
    "relinked p (insert (root r) (set (map root ts @ root t # map root us))) s s1"
    by blast
  let ?A = "insert (root r) (set (map root ts @ root t # map root us))"
  have d: "distinct (concat (map addrs (r # ts @ t # us)))" using parts(3) assms(4,6) by (auto simp: tree_at_def)
  have A: "?A = set (map root (r # ts @ t # us))" by simp
  have only: "set (addrs u) \<inter> ?A \<subseteq> {root u}" if "u \<in> set (r # ts @ t # us)" for u
    unfolding A by (rule roots_only [OF d that])
  obtain n where n: "s_node s p = Some n" "n_item n = f" using parts(5) by blast
  have tree: "tree_at s1 (PNode p f (ts @ r # us))"
  proof (rule relinked_tree [OF s1(4) _ _ _ _ n])
    show "children (s_node s1) p (map root (ts @ r # us))" using s1(2) by simp
    show "distinct (addrs (PNode p f (ts @ r # us)))" using parts(3,4) assms(4,6) by (auto simp: tree_at_def)
    show "rep (s_node s) u" if "u \<in> set (ts @ r # us)" for u using that parts(2) assms(4) by (auto simp: tree_at_def)
    show "set (addrs u) \<inter> ?A \<subseteq> {root u}" if "u \<in> set (ts @ r # us)" for u using only [of u] that by auto
  qed
  have old: "tree_at s1 t" unfolding tree_at_def
  proof
    show dt: "distinct (addrs t)" using parts(3) by auto
    have t: "t \<in> set (ts @ t # us)" by simp
    have "p \<notin> set (addrs t)" using parts(4) by auto
    then show "rep (s_node s1) t" using relinked_rep [OF s1(4) parts(2) [OF t] dt] only [of t] by simp
  qed
  let ?s2 = "s1\<lparr>s_node := s_node s1 |` (- set (addrs t)), s_heap := cJSON_Delete [forget t] (s_heap s1)\<rparr>"
  have del: "cJSON_Delete_at (Some (root t)) s1 = Inr ?s2"
    using delete_tree [OF old assms(2) s1(3)] relinked_bounded [OF s1(4) assms(3)] by blast
  have "set (addrs (PNode p f (ts @ r # us))) \<inter> set (addrs t) = {}" using assms(1,6) by (auto simp: tree_at_def)
  then have "tree_at ?s2 (PNode p f (ts @ r # us))" by (rule tree_after_delete [OF tree])
  moreover have "array_item_at (Some p) (length ts) s = Inr (Some (root t))"
    using array_item_children [OF parts(1), of "length ts"] by (simp add: nth_append)
  then have "cJSON_ReplaceItemInArray (Some p) (int (length ts)) (Some (root r)) s = Inr (True, ?s2)"
    using s1(1) del by (simp add: cJSON_ReplaceItemInArray_def)
  moreover have "s_heap ?s2 = cJSON_Delete [forget t] (s_heap s)" using s1(4) by (simp add: relinked_def del: cJSON_Delete.simps)
  ultimately show thesis using that [of ?s2] by (simp add: restrict_map_def)
qed

subsection \<open>New members\<close>

lemma placed:
  assumes "tree_at s t" "bounded s"
  obtains s' where "place (Some (Item g []), h) s = (Some (s_fresh s), s')" "tree_at s' t" "tree_at s' (PNode (s_fresh s) g [])"
    "loose (s_node s') (s_fresh s)" "bounded s'" "s_fresh s \<notin> set (addrs t)" "s_heap s' = h"
    "load (Some (s_fresh s)) s' = Inr \<lparr>n_item = g, n_next = None, n_prev = None, n_child = None\<rparr>"
proof
  let ?s = "snd (place (Some (Item g []), h) s)"
  show "place (Some (Item g []), h) s = (Some (s_fresh s), ?s)" "s_heap ?s = h"
    "load (Some (s_fresh s)) ?s = Inr \<lparr>n_item = g, n_next = None, n_prev = None, n_child = None\<rparr>"
    by (simp_all add: place_def load_def)
  show new: "s_fresh s \<notin> set (addrs t)" using addrs_in_store assms by (fastforce simp: tree_at_def bounded_def)
  have "s_node ?s a = s_node s a" if "a \<in> set (addrs t)" for a using new that by (auto simp: place_def)
  then show "tree_at ?s t" using rep_cong [of t "s_node ?s" "s_node s"] assms(1) by (simp add: tree_at_def)
  show "tree_at ?s (PNode (s_fresh s) g [])" "loose (s_node ?s) (s_fresh s)"
    by (simp_all add: place_def tree_at_def children_def loose_def)
  show "bounded ?s" using assms(2) by (auto simp: place_def bounded_def less_Suc_eq)
qed

lemma renamed_tree:
  assumes "tree_at s (PNode a g ts)" "loose (s_node s) a"
  obtains s' where "change (\<lambda>n. n\<lparr>n_item := (n_item n)\<lparr>i_string := k, i_type := ty\<rparr>\<rparr>) (Some a) s = Inr s'"
    "tree_at s' (PNode a (g\<lparr>i_string := k, i_type := ty\<rparr>) ts)" "loose (s_node s') a"
    "\<And>b. b \<noteq> a \<Longrightarrow> s_node s' b = s_node s b" "s_heap s' = s_heap s" "s_fresh s' = s_fresh s"
proof -
  note parts = tree_parts [OF assms(1)]
  obtain n where n: "s_node s a = Some n" "n_item n = g" using parts(5) by blast
  let ?s = "s\<lparr>s_node := (s_node s)(a \<mapsto> n\<lparr>n_item := g\<lparr>i_string := k, i_type := ty\<rparr>\<rparr>)\<rparr>"
  have "rep (s_node ?s) u" if "u \<in> set ts" for u
  proof -
    have "s_node ?s b = s_node s b" if "b \<in> set (addrs u)" for b using parts(4) \<open>u \<in> set ts\<close> that by auto
    then show ?thesis using rep_cong [of u "s_node ?s" "s_node s"] parts(2) that by blast
  qed
  moreover have "children (s_node ?s) a (map root ts)"
    using parts(1) n by (simp add: children_def)
  moreover have "distinct (addrs (PNode a g ts))" using assms(1) by (simp add: tree_at_def)
  ultimately have "tree_at ?s (PNode a (g\<lparr>i_string := k, i_type := ty\<rparr>) ts)" by (auto simp: tree_at_def list_all_iff)
  moreover have "loose (s_node ?s) a" using assms(2) n by (simp add: loose_def)
  ultimately show thesis using that [of ?s] n by (simp add: change_def load_def)
qed

lemma add_created_tree:
  assumes "tree_at s (PNode p f ts)" "bounded s" "0 \<in> set name" "i_string g = None" "i_type g AND cJSON_IsReference = 0"
  obtains (added) s' a where "add_created (Some p) (Some name) (Some (Item g []), h) s = Inr (Some a, s')"
      "tree_at s' (PNode p f (ts @ [PNode a (g\<lparr>i_string := Some (cstr name @ [0]), i_type := i_type g AND NOT cJSON_StringIsConst\<rparr>) []]))"
      "h_live (s_heap s') = h_live h + 1"
  | (refused) s' where "add_created (Some p) (Some name) (Some (Item g []), h) s = Inr (None, s')" "tree_at s' (PNode p f ts)"
      "h_live (s_heap s') = h_live h - blocks (Item g [])" "\<not> h_answer h (h_calls h) (length (cstr name) + 1)"
proof -
  let ?a = "s_fresh s"
  obtain s1 where pl: "place (Some (Item g []), h) s = (Some ?a, s1)" "tree_at s1 (PNode p f ts)" "tree_at s1 (PNode ?a g [])"
    "loose (s_node s1) ?a" "bounded s1" "?a \<notin> set (addrs (PNode p f ts))" "s_heap s1 = h"
    "load (Some ?a) s1 = Inr \<lparr>n_item = g, n_next = None, n_prev = None, n_child = None\<rparr>"
    by (rule placed [OF assms(1,2)])
  have "?a \<noteq> p" using pl(6) by auto
  obtain ok h' where h': "allocate (length (cstr name) + 1) h = (ok, h')" by (cases "allocate (length (cstr name) + 1) h")
  have dup: "cJSON_strdup (Some name) (s_heap s1) = Inr (if ok then Some (cstr name @ [0]) else None, h')"
    using assms(3) pl(7) h' by (simp add: cJSON_strdup_def c_str_def)
  let ?s2 = "s1\<lparr>s_heap := h'\<rparr>"
  show thesis
  proof (cases ok)
    case False
    have "add_item_to_object (Some p) (Some name) (Some ?a) False s1 = Inr (False, ?s2)"
      using dup False \<open>?a \<noteq> p\<close> by (simp add: add_item_to_object_def)
    moreover have t: "tree_at ?s2 (PNode ?a g [])" "loose (s_node ?s2) ?a" "bounded ?s2" "tree_at ?s2 (PNode p f ts)"
      using pl(2,3,4,5) by (simp_all add: tree_at_def bounded_def)
    moreover have "cJSON_Delete_at (Some ?a) ?s2 =
        Inr (?s2\<lparr>s_node := s_node ?s2 |` (- {?a}), s_heap := cJSON_Delete [Item g []] (s_heap ?s2)\<rparr>)"
      using delete_tree [OF t(1) _ _ t(3)] t(2) assms(5) by simp
    moreover have "tree_at (?s2\<lparr>s_node := s_node ?s2 |` (- {?a}), s_heap := cJSON_Delete [Item g []] (s_heap ?s2)\<rparr>) (PNode p f ts)"
      by (rule tree_after_delete [OF t(4)]) (use pl(6) in auto)
    moreover have "h_live (cJSON_Delete [Item g []] h') = h_live h - blocks (Item g [])" "\<not> h_answer h (h_calls h) (length (cstr name) + 1)"
      using h' False assms(4,5) by (auto simp: allocate_def Let_def)
    ultimately show thesis using pl(1)
      by (intro refused [of "?s2\<lparr>s_node := s_node ?s2 |` (- {?a}), s_heap := cJSON_Delete [Item g []] (s_heap ?s2)\<rparr>"])
        (simp_all add: add_created_def del: cJSON_Delete.simps blocks.simps)
  next
    case True
    let ?key = "Some (cstr name @ [0])" and ?ty = "i_type g AND NOT cJSON_StringIsConst"
    have t: "tree_at ?s2 (PNode ?a g [])" "loose (s_node ?s2) ?a" "tree_at ?s2 (PNode p f ts)"
      using pl(2,3,4) by (simp_all add: tree_at_def)
    from renamed_tree [OF t(1,2), where k = ?key and ty = ?ty] obtain s3 where s3:
      "change (\<lambda>n. n\<lparr>n_item := (n_item n)\<lparr>i_string := ?key, i_type := ?ty\<rparr>\<rparr>) (Some ?a) ?s2 = Inr s3"
      "tree_at s3 (PNode ?a (g\<lparr>i_string := ?key, i_type := ?ty\<rparr>) [])" "loose (s_node s3) ?a"
      "\<And>b. b \<noteq> ?a \<Longrightarrow> s_node s3 b = s_node ?s2 b" "s_heap s3 = h'" "s_fresh s3 = s_fresh ?s2"
      by auto
    have "s_node s3 b = s_node ?s2 b" if "b \<in> set (addrs (PNode p f ts))" for b using s3(4) pl(6) that by metis
    then have t3: "tree_at s3 (PNode p f ts)" using rep_cong [of "PNode p f ts" "s_node s3" "s_node ?s2"] t(3) by (simp add: tree_at_def)
    have disj: "set (addrs (PNode p f ts)) \<inter> set (addrs (PNode ?a (g\<lparr>i_string := ?key, i_type := ?ty\<rparr>) [])) = {}"
      using pl(6) by auto
    obtain s4 where s4: "cJSON_AddItemToArray (Some p) (Some ?a) s3 = Inr (True, s4)"
      "tree_at s4 (PNode p f (ts @ [PNode ?a (g\<lparr>i_string := ?key, i_type := ?ty\<rparr>) []]))" "s_heap s4 = h'"
      using add_tree [OF t3 s3(2) _ disj] s3(3,5) relinked_heap by (metis ptree.sel(1))
    have load: "load (Some ?a) ?s2 = Inr \<lparr>n_item = g, n_next = None, n_prev = None, n_child = None\<rparr>"
      using pl(8) by (simp add: load_def)
    have free: "free_name g h' = h'" using assms(4) by (simp add: free_name_def free_if_def)
    have "add_item_to_object (Some p) (Some name) (Some ?a) False s1 = Inr (True, s4)"
      using dup True \<open>?a \<noteq> p\<close> load s3(1) s4(1) free by (simp add: add_item_to_object_def cJSON_AddItemToArray_def Let_def)
    then have "add_created (Some p) (Some name) (Some (Item g []), h) s = Inr (Some ?a, s4)"
      using pl(1) by (simp add: add_created_def)
    moreover have "h_live (s_heap s4) = h_live h + 1" using arg_cong [OF h', of "\<lambda>x. h_live (snd x)"] arg_cong [OF h', of fst] True s4(3)
      by (simp add: allocate_def Let_def)
    ultimately show thesis using s4(2) by (intro added)
  qed
qed

subsection \<open>Properties\<close>

text \<open>A store with an array of two numbers, and a third number that belongs to nothing yet.\<close>

definition number_node :: "int \<Rightarrow> addr option \<Rightarrow> addr option \<Rightarrow> node" where
  "number_node k q p = \<lparr>n_item = zero_item\<lparr>i_type := cJSON_Number, i_valueint := k\<rparr>, n_next = q, n_prev = p, n_child = None\<rparr>"

definition sample_store :: node_store where
  "sample_store =
     \<lparr>s_node = Map.empty(0 \<mapsto> \<lparr>n_item = zero_item\<lparr>i_type := cJSON_Array\<rparr>, n_next = None, n_prev = None, n_child = Some 1\<rparr>,
        1 \<mapsto> number_node 10 (Some 2) (Some 2), 2 \<mapsto> number_node 20 None (Some 1), 3 \<mapsto> number_node 30 None None),
      s_fresh = 4, s_heap = plenty\<rparr>"

abbreviation number_tree :: "addr \<Rightarrow> int \<Rightarrow> ptree" where
  "number_tree a k \<equiv> PNode a (zero_item\<lparr>i_type := cJSON_Number, i_valueint := k\<rparr>) []"

lemma sample_store_ok:
  "tree_at sample_store (PNode 0 (zero_item\<lparr>i_type := cJSON_Array\<rparr>) [number_tree 1 10, number_tree 2 20])"
  "tree_at sample_store (number_tree 3 30)" "loose (s_node sample_store) 3" "bounded sample_store" "s_heap sample_store = plenty"
  by (simp_all add: sample_store_def tree_at_def children_def loose_def number_node_def final_def bounded_def)

text \<open>
  C33. Adding a tree to an array makes it the last child: where the nodes of the store form the tree of
  the array and, apart from it, that of the item, they form the array with one more child afterwards,
  in the same blocks. \<open>cJSON_InsertItemInArray\<close> puts it in front of the child of a given index instead.
\<close>

theorem edit_add:
  assumes "tree_at s (PNode p f ts)" "tree_at s t" "loose (s_node s) (root t)" "set (addrs (PNode p f ts)) \<inter> set (addrs t) = {}"
  shows "(\<exists>s'. cJSON_AddItemToArray (Some p) (Some (root t)) s = Inr (True, s') \<and> tree_at s' (PNode p f (ts @ [t])) \<and>
           s_heap s' = s_heap s) \<and>
         (\<forall>i < length ts. \<exists>s'. cJSON_InsertItemInArray (Some p) (int i) (Some (root t)) s = Inr (True, s') \<and>
           tree_at s' (PNode p f (take i ts @ t # drop i ts)) \<and> s_heap s' = s_heap s)"
proof (intro conjI allI impI)
  show "\<exists>s'. cJSON_AddItemToArray (Some p) (Some (root t)) s = Inr (True, s') \<and> tree_at s' (PNode p f (ts @ [t])) \<and> s_heap s' = s_heap s"
    using add_tree [OF assms] unfolding relinked_def by metis
  fix i assume i: "i < length ts"
  have split: "ts = take i ts @ ts ! i # drop (Suc i) ts" using id_take_nth_drop [OF i] .
  obtain s' where "cJSON_InsertItemInArray (Some p) (int i) (Some (root t)) s = Inr (True, s')"
    "tree_at s' (PNode p f (take i ts @ t # ts ! i # drop (Suc i) ts))" "s_heap s' = s_heap s"
    using insert_tree [of s p f "take i ts" "ts ! i" "drop (Suc i) ts" t] split assms i unfolding relinked_def
    by (metis length_take min.absorb4)
  then show "\<exists>s'. cJSON_InsertItemInArray (Some p) (int i) (Some (root t)) s = Inr (True, s') \<and>
      tree_at s' (PNode p f (take i ts @ t # drop i ts)) \<and> s_heap s' = s_heap s"
    using Cons_nth_drop_Suc [OF i] by auto
qed

theorem edit_add_witness:
  "\<exists>s'. cJSON_InsertItemInArray (Some 0) (int 1) (Some 3) sample_store = Inr (True, s') \<and>
     tree_at s' (PNode 0 (zero_item\<lparr>i_type := cJSON_Array\<rparr>) (take 1 [number_tree 1 10, number_tree 2 20] @ number_tree 3 30 # drop 1 [number_tree 1 10, number_tree 2 20]))"
proof -
  let ?P = "PNode 0 (zero_item\<lparr>i_type := cJSON_Array\<rparr>) [number_tree 1 10, number_tree 2 20]"
  have "set (addrs ?P) \<inter> set (addrs (number_tree 3 30)) = {}" "loose (s_node sample_store) (root (number_tree 3 30))"
    using sample_store_ok(3) by simp_all
  moreover have "1 < length [number_tree 1 10, number_tree 2 20]" by simp
  ultimately show ?thesis using edit_add [OF sample_store_ok(1,2)] by (metis ptree.sel(1))
qed

text \<open>
  C31. Deleting a child by its index leaves the tree without that child, frees exactly the nodes of the
  child's tree and the strings that the comparison with deleting the same tree by itself demands, and
  changes no node outside the tree. An index beyond the last child changes nothing.
\<close>

theorem edit_delete:
  assumes "tree_at s (PNode p f ts)" "\<forall>t \<in> set ts. unshared t" "bounded s"
  shows "\<exists>s'. cJSON_DeleteItemFromArray (Some p) (int i) s = Inr s' \<and>
           (if i < length ts then
              tree_at s' (PNode p f (take i ts @ drop (Suc i) ts)) \<and>
              s_heap s' = cJSON_Delete [forget (ts ! i)] (s_heap s) \<and>
              (\<forall>a. a \<in> set (addrs (ts ! i)) \<longrightarrow> s_node s' a = None) \<and>
              (\<forall>a. a \<notin> set (addrs (PNode p f ts)) \<longrightarrow> s_node s' a = s_node s a)
            else s' = s)"
proof (cases "i < length ts")
  case True
  have split: "ts = take i ts @ ts ! i # drop (Suc i) ts" using id_take_nth_drop [OF True] .
  obtain s' where "cJSON_DeleteItemFromArray (Some p) (int i) s = Inr s'" "tree_at s' (PNode p f (take i ts @ drop (Suc i) ts))"
    "s_heap s' = cJSON_Delete [forget (ts ! i)] (s_heap s)" "\<And>a. a \<in> set (addrs (ts ! i)) \<Longrightarrow> s_node s' a = None"
    "\<And>a. a \<notin> set (addrs (PNode p f ts)) \<Longrightarrow> s_node s' a = s_node s a"
    using delete_child_tree [of s p f "take i ts" "ts ! i" "drop (Suc i) ts"] split assms True
    by (metis length_take min.absorb4 nth_mem)
  then show ?thesis using True by (intro exI [of _ s']) simp
next
  case False
  then have "array_item_at (Some p) i s = Inr None"
    using array_item_children [OF tree_parts(1) [OF assms(1)], of i] by simp
  then show ?thesis using False
    by (simp add: cJSON_DeleteItemFromArray_def cJSON_DetachItemFromArray_def cJSON_DetachItemViaPointer_def cJSON_Delete_at_def)
qed

theorem edit_delete_witness:
  "\<exists>s'. cJSON_DeleteItemFromArray (Some 0) 0 sample_store = Inr s' \<and> s_node s' 1 = None \<and>
     tree_at s' (PNode 0 (zero_item\<lparr>i_type := cJSON_Array\<rparr>) [number_tree 2 20])"
  using edit_delete [OF sample_store_ok(1) _ sample_store_ok(4), of 0] by fastforce

text \<open>
  C32. Replacing a child by its index puts the tree of the replacement in its place and frees exactly
  the nodes of the child that was replaced.
\<close>

theorem edit_replace:
  assumes "tree_at s (PNode p f ts)" "i < length ts" "unshared (ts ! i)" "bounded s" "tree_at s r" "loose (s_node s) (root r)"
    and "set (addrs (PNode p f ts)) \<inter> set (addrs r) = {}"
  shows "\<exists>s'. cJSON_ReplaceItemInArray (Some p) (int i) (Some (root r)) s = Inr (True, s') \<and> tree_at s' (PNode p f (ts[i := r])) \<and>
           s_heap s' = cJSON_Delete [forget (ts ! i)] (s_heap s) \<and> (\<forall>a. a \<in> set (addrs (ts ! i)) \<longrightarrow> s_node s' a = None)"
proof -
  have split: "ts = take i ts @ ts ! i # drop (Suc i) ts" using id_take_nth_drop [OF assms(2)] .
  obtain s' where "cJSON_ReplaceItemInArray (Some p) (int i) (Some (root r)) s = Inr (True, s')"
    "tree_at s' (PNode p f (take i ts @ r # drop (Suc i) ts))" "s_heap s' = cJSON_Delete [forget (ts ! i)] (s_heap s)"
    "\<And>a. a \<in> set (addrs (ts ! i)) \<Longrightarrow> s_node s' a = None"
    using replace_child_tree [of s p f "take i ts" "ts ! i" "drop (Suc i) ts" r] split assms
    by (metis length_take min.absorb4)
  then show ?thesis using assms(2) by (intro exI [of _ s']) (simp add: upd_conv_take_nth_drop)
qed

theorem edit_replace_witness:
  "\<exists>s'. cJSON_ReplaceItemInArray (Some 0) 1 (Some 3) sample_store = Inr (True, s') \<and> s_node s' 2 = None \<and>
     tree_at s' (PNode 0 (zero_item\<lparr>i_type := cJSON_Array\<rparr>) [number_tree 1 10, number_tree 3 30])"
  using edit_replace [OF sample_store_ok(1), of 1, OF _ _ sample_store_ok(4,2)] sample_store_ok(3) by fastforce

text \<open>
  C34. The functions that create an item and add it to an object under a name either add it as the last
  member, with its own copy of the name, or, if the copy of the name is refused, delete it again: then
  the object is as before and every block of the new item has been given back.
\<close>

theorem add_to_object_exact:
  assumes "tree_at s (PNode p f ts)" "bounded s" "0 \<in> set name" "i_string g = None" "i_type g AND cJSON_IsReference = 0"
  shows "\<exists>r s'. add_created (Some p) (Some name) (Some (Item g []), h) s = Inr (r, s') \<and>
           (case r of
              Some a \<Rightarrow>
                tree_at s' (PNode p f (ts @ [PNode a (g\<lparr>i_string := Some (cstr name @ [0]), i_type := i_type g AND NOT cJSON_StringIsConst\<rparr>) []])) \<and>
                h_live (s_heap s') = h_live h + 1
            | None \<Rightarrow>
                tree_at s' (PNode p f ts) \<and> h_live (s_heap s') = h_live h - blocks (Item g []) \<and>
                \<not> h_answer h (h_calls h) (length (cstr name) + 1))"
  by (cases rule: add_created_tree [OF assms, of h]) auto

theorem add_to_object_exact_witness:
  "\<exists>a s'. cJSON_AddNumberToObject (Some 0) (Some (char_array 5 ''port'')) (Fin False 7 0) sample_store = Inr (Some a, s') \<and>
     h_live (s_heap s') = 2"
proof -
  have "cJSON_CreateNumber (Fin False 7 0) plenty =
      (Some (Item (zero_item\<lparr>i_type := cJSON_Number, i_valuedouble := Fin False 7 0, i_valueint := saturate (Fin False 7 0)\<rparr>) []),
       plenty\<lparr>h_calls := 1, h_live := 1\<rparr>)"
    by (simp add: cJSON_CreateNumber_def create_with_def cJSON_New_Item_def allocate_def plenty_def)
  then show ?thesis
    using add_to_object_exact [OF sample_store_ok(1,4), of "char_array 5 ''port''"
        "zero_item\<lparr>i_type := cJSON_Number, i_valuedouble := Fin False 7 0, i_valueint := saturate (Fin False 7 0)\<rparr>"
        "plenty\<lparr>h_calls := 1, h_live := 1\<rparr>"]
    by (auto simp: cJSON_AddNumberToObject_def sample_store_ok(5) zero_item_def plenty_def char_array_def lit_def split: option.splits)
qed

end
