(* ===== verification/Json_Hooks.thy ===== *)
theory Json_Hooks
  imports Json_Print
begin

text \<open>
  The hooks through which the JSON library allocates. The other theories model what the allocator answers
  and whether there is a function to reallocate, the argument \<open>realloc\<close> of the printer; here are the
  table of functions itself and the calls that set and use it.
\<close>

subsection \<open>The table of functions\<close>

datatype c_function = Malloc | Free | Realloc | User nat

record cJSON_Hooks =
  malloc_fn :: "c_function option"
  free_fn :: "c_function option"

record internal_hooks =
  hook_allocate :: c_function
  hook_deallocate :: c_function
  hook_reallocate :: "c_function option"

definition global_hooks :: internal_hooks where
  "global_hooks = \<lparr>hook_allocate = Malloc, hook_deallocate = Free, hook_reallocate = Some Realloc\<rparr>"

definition cJSON_InitHooks :: "cJSON_Hooks option \<Rightarrow> internal_hooks \<Rightarrow> internal_hooks" where
  "cJSON_InitHooks hooks g =
     (case hooks of
        None \<Rightarrow> g\<lparr>hook_allocate := Malloc, hook_deallocate := Free, hook_reallocate := Some Realloc\<rparr>
      | Some k \<Rightarrow>
          let g = g\<lparr>hook_allocate := Malloc\<rparr>;
              g = (case malloc_fn k of None \<Rightarrow> g | Some f \<Rightarrow> g\<lparr>hook_allocate := f\<rparr>);
              g = g\<lparr>hook_deallocate := Free\<rparr>;
              g = (case free_fn k of None \<Rightarrow> g | Some f \<Rightarrow> g\<lparr>hook_deallocate := f\<rparr>);
              g = g\<lparr>hook_reallocate := None\<rparr>
          in if hook_allocate g = Malloc \<and> hook_deallocate g = Free then g\<lparr>hook_reallocate := Some Realloc\<rparr> else g)"

text \<open>Memory from outside the library; the pointer that \<open>cJSON_free\<close> clears is its own copy.\<close>

definition cJSON_malloc :: "nat \<Rightarrow> heap \<Rightarrow> bool \<times> heap" where
  "cJSON_malloc bytes h = allocate bytes h"

definition cJSON_free :: "bool \<Rightarrow> heap \<Rightarrow> heap" where
  "cJSON_free present h = free_if present h"

text \<open>\<open>sprintf\<close> into the 15 bytes of \<open>version\<close>.\<close>

definition cJSON_Version :: "u8 list \<Rightarrow> u8 list outcome" where
  "cJSON_Version version =
     strcpy version (format_d 1 @ lit ''.'' @ format_d 7 @ lit ''.'' @ format_d 19 @ [0])"

subsection \<open>Facts\<close>

text \<open>Only with the allocator and the deallocator of the C library is there a reallocation.\<close>

definition hooks_ok :: "internal_hooks \<Rightarrow> bool" where
  "hooks_ok g \<longleftrightarrow> (hook_reallocate g \<noteq> None \<longleftrightarrow> hook_allocate g = Malloc \<and> hook_deallocate g = Free) \<and>
     (hook_reallocate g = None \<or> hook_reallocate g = Some Realloc)"

lemma hooks_ok_start: "hooks_ok global_hooks"
  by (simp add: hooks_ok_def global_hooks_def)

lemma hooks_ok_init: "hooks_ok (cJSON_InitHooks hooks g)"
  by (auto simp: hooks_ok_def cJSON_InitHooks_def Let_def split: option.splits)

lemma hooks_reset: "cJSON_InitHooks None g = global_hooks"
  by (simp add: cJSON_InitHooks_def global_hooks_def)

text \<open>A null function of the caller stands for the one of the C library.\<close>

lemma hooks_default:
  "hook_allocate (cJSON_InitHooks (Some k) g) = (case malloc_fn k of None \<Rightarrow> Malloc | Some f \<Rightarrow> f)"
  "hook_deallocate (cJSON_InitHooks (Some k) g) = (case free_fn k of None \<Rightarrow> Free | Some f \<Rightarrow> f)"
  by (auto simp: cJSON_InitHooks_def Let_def split: option.splits)

lemma malloc_free_balanced:
  "cJSON_malloc n h = (ok, h') \<Longrightarrow> h_live (cJSON_free ok h') = h_live h"
  by (auto simp: cJSON_malloc_def cJSON_free_def allocate_def free_if_def deallocate_def Let_def)

lemma version_fits: "length version = 15 \<Longrightarrow> cJSON_Version version = Inr (lit ''1.7.19'' @ 0 # drop 7 version)"
proof -
  assume len: "length version = 15"
  have v: "format_d 1 @ lit ''.'' @ format_d 7 @ lit ''.'' @ format_d 19 @ [0] = lit ''1.7.19'' @ [0]" by code_simp
  have "cstr (lit ''1.7.19'' @ [0]) = lit ''1.7.19''" "length (lit ''1.7.19'') = 6" by (simp_all add: lit_def)
  then show ?thesis using len unfolding cJSON_Version_def v by simp
qed

end
