(* ===== verification/Spec2Isabelle.thy ===== *)
theory Spec2Isabelle
  imports Network Responder Main_Program Json_Minify Json_Edit Json_Hooks
begin

text \<open>
  Verification of a peer-to-peer file distribution program in C (all paths are under \<open>src/\<close>).

  The program. A node finds the peers that hold a file by asking its neighbors over UDP. A process reads
  a JSON descriptor that names the file hash and the nodes to start from (\<open>test/client_test.c\<close>), turns
  these into its neighbors (\<open>bootstrap_neigbors\<close>), sends GET_PEERS to one of them (\<open>get_peers\<close>), and then
  waits for datagrams. \<open>recv_rpc\<close> handles each: a node that has peers for the hash answers the node that
  asked first with its bucket of them, one that has none passes the request on; a reply with peers
  fills the peer table; a client whose wait times out sends JOIN to the peers it knows, which store it
  as a peer and answer. The neighbor arrays and peer buckets are growable arrays; the table of peers is
  an array of ten buckets indexed by a hash. The JSON library is a copy of cJSON in \<open>lib/cjson\<close>.

  Where each part is modelled.
  \<^item> \<open>Prelude\<close>, \<open>C_Lib\<close>: machine words, the ways a C computation stops (\<open>fault\<close>: a read or write outside
    a block, a null dereference, process exit), the result type \<open>'a outcome = fault + 'a\<close> with its
    sequencing, byte order, C strings in \<open>char\<close> arrays, \<open>memcpy\<close>, \<open>strcpy\<close>, \<open>strcmp\<close>, \<open>inet_pton\<close>.
  \<^item> \<open>Dyn_Array\<close>, \<open>Contracts\<close>: the growable array that \<open>peers.c\<close> and \<open>nodes.c\<close> each implement, and the
    interfaces \<open>growable\<close>, \<open>doubling_array\<close> and \<open>keyed_store\<close> as locales.
  \<^item> \<open>Peers\<close> (\<open>peers.h\<close>, \<open>peers.c\<close>) and \<open>Nodes\<close> (\<open>nodes.h\<close>, \<open>nodes.c\<close> without the two functions that
    send): each function under its own name; both interpret the array interface, \<open>Peers\<close> the store.
  \<^item> \<open>Rpc_Msg\<close> (\<open>remote_procedure.h\<close>): enumerations and the message, whose union of bodies is 1032 raw
    bytes with a view for calls and one for replies. \<open>Transport\<close>: the socket as the list of datagrams
    sent, and the contract \<open>sender\<close> that \<open>call_rpc\<close> and \<open>reply_rpc\<close> meet.
  \<^item> \<open>Rpc_Send\<close> (\<open>call_rpc\<close>, \<open>reply_rpc\<close>, \<open>join_peers\<close>, \<open>get_peers\<close>), \<open>Rpc_Recv\<close> (\<open>recv_rpc\<close>, one
    definition per branch of its switches), \<open>Protocol\<close> (senders and handler composed).
  \<^item> \<open>Client\<close> (start-up and event loop of \<open>test/client_test.c\<close>, loop of \<open>test/rpc_test.c\<close>), \<open>Descriptor\<close>
    (\<open>parse_descriptor_file\<close> of \<open>test/client_test.c\<close> and \<open>test/file_test.c\<close>, and the client from its
    arguments to its loop), \<open>Responder\<close> (the start of \<open>test/rpc_test.c\<close>), \<open>Main_Program\<close> (\<open>main.c\<close>) and \<open>Network\<close> (several processes and the datagrams
    between them, as an inductive step relation, and its deliveries alone for the infinite run).
  \<^item> \<open>Json_Text\<close> (bytes, UTF-16 escapes), \<open>Json_Number\<close> (\<open>double\<close>, \<open>strtod\<close>), \<open>Json_Parse\<close> (the parser),
    \<open>Json_Safe\<close> (its safety), \<open>Json_Tree\<close> (accessors, constructors, comparison), \<open>Json_Copy\<close>
    (duplication, and what comparison decides), \<open>Json_Print\<close>, \<open>Json_Format\<close>, \<open>Json_Render\<close> (the printer), \<open>Json_Reread\<close> and
    \<open>Json_Whole\<close> (printer and parser together), \<open>Json_Minify\<close> (removal of blanks and comments),
    \<open>Json_Links\<close> (the functions that edit a tree in place, on nodes with pointers), \<open>Json_Chain\<close> and
    \<open>Json_Edit\<close> (their effect on lists of children and on trees), \<open>Json_Hooks\<close> (the allocation functions):
    \<open>lib/cjson/cJSON.c\<close> and \<open>cJSON.h\<close>.

  State. A C struct is a record with the fields of the source; the block behind a data pointer is a list
  whose length is its capacity, so that an access outside it is visible; \<open>char\<close> arrays are byte lists
  of their full size. A JSON item with its chain of children is a tree, as long as the code treats it as
  one. Where the code edits it in place, an item is a node in a store with the pointers \<open>next\<close>, \<open>prev\<close> and
  \<open>child\<close>; addresses are never used again, so that any use of a freed node is a fault. The heap
  of the JSON library is the number of live blocks and the allocator's answers to come.

  What the lemmas show.
  \<^item> Data structures: a push keeps the array well formed and appends; the hash is FNV-1a modulo the
    table; \<open>set_peer\<close> refines appending to a list per slot; neighbors are sorted by XOR distance, which
    is a metric.
  \<^item> Messages: what is sent is decoded to the same call by the receiver; a bucket sent is the bucket
    stored; the effect of every branch of the handler; the handler only ever appends to the peer table.
  \<^item> Programs and network: what a descriptor must look like to be read and what it then gives, what
    start-up asks, what a timeout does, that no peer is ever invented, that a process dies only
    where the allocator refuses a bigger bucket or a list of peers is too long for a buffer, that a request
    bounces between two nodes for ever, and that \<open>main.c\<close> never reaches its loop.
  \<^item> JSON: the parser ends on every input, stays inside it, frees what it does not return, and returns
    well-formed trees of bounded depth; a copy equals its original; comparison decides an equality of
    trees; the printer
    writes exactly a pure rendering inside its buffer; printing and parsing are inverse
    to each other; minifying a formatted text gives the unformatted one; adding, deleting and replacing a
    child through pointers does to the tree what the same change of its list of children does.

  Parameters. Code outside \<open>src/\<close> is a parameter: the answers of the allocators (\<open>alc\<close>, \<open>h_answer\<close>), the
  bytes of memory that nothing has written yet, the results of \<open>open\<close>, \<open>read\<close>, \<open>bind\<close> and
  \<open>getsockname\<close>, whether \<open>sendto\<close> succeeds, and the arrival of datagrams.
  Sizes and layouts are those of the x86-64 System V ABI.

  Bounds. The JSON parser recurses with the nesting limit of 1000 plus one as its fuel and its loops run
  at most once per byte of input; \<open>parse_returns\<close> shows that both are enough on every input.
  \<open>cJSON_Delete\<close> and the search for a name follow pointers, with one more than the number of addresses
  ever given out as their fuel; \<open>delete_tree\<close> shows that it is enough on every tree. All other
  loops are structural or have a termination proof.

  Not modelled. \<open>test/main.c\<close> starts and stops processes and does nothing else; \<open>file.h\<close> declares functions
  that no file defines. The pointer that \<open>cJSON_GetErrorPtr\<close> returns appears as the error position in the
  result of the JSON parser. Output to the terminal is modelled only as the reads it performs.
\<close>

end
